(* ===== verification/Arthas_Prelude.thy ===== *)
theory Arthas_Prelude
  imports Main "HOL-Library.Word" "HOL-Library.Monad_Syntax" "HOL-Library.Multiset"
begin

text \<open>
  Shared vocabulary of the development: the C integer conversions the sources rely on, option-valued
  folds (\<^term>\<open>None\<close> stands for undefined behaviour of the C or C++ code: an access outside an
  object, a division by zero), chains of list nodes, and the contract of a table of chained buckets
  that the three logs of the reactor share.
\<close>

section \<open>Machine types\<close>

type_synonym byte = "8 word"
type_synonym addr = "64 word"

named_theorems arith_conv \<open>C integer conversions on values in range\<close>
named_theorems mem_simps \<open>reads and writes of the memory model\<close>
named_theorems chain_simps \<open>node chains of the hashed logs\<close>

text \<open>Conversion of a value to the C type \<open>int\<close> (32 bits, two's complement) and to \<open>size_t\<close>.\<close>

definition to_int32 :: "int \<Rightarrow> int" where
  "to_int32 x = (x + 2 ^ 31) mod 2 ^ 32 - 2 ^ 31"

definition to_u64 :: "int \<Rightarrow> int" where
  "to_u64 x = x mod 2 ^ 64"

definition is_int32 :: "int \<Rightarrow> bool" where
  "is_int32 x \<longleftrightarrow> - (2 ^ 31) \<le> x \<and> x < 2 ^ 31"

lemma to_int32_id [arith_conv]: "- (2 ^ 31) \<le> x \<Longrightarrow> x < 2 ^ 31 \<Longrightarrow> to_int32 x = x"
  by (simp add: to_int32_def mod_pos_pos_trivial)

lemma to_u64_id [arith_conv]: "0 \<le> x \<Longrightarrow> x < 2 ^ 64 \<Longrightarrow> to_u64 x = x"
  by (simp add: to_u64_def mod_pos_pos_trivial)

lemma to_int32_range: "is_int32 (to_int32 x)"
proof -
  have "0 \<le> (x + 2 ^ 31) mod 2 ^ 32" "(x + 2 ^ 31) mod 2 ^ 32 < 2 ^ 32" by simp_all
  then show ?thesis unfolding is_int32_def to_int32_def by simp
qed

text \<open>The bound of a loop \<open>for (int i = 0; i < (int)size; i++)\<close> over a \<open>size_t\<close>.\<close>

definition int_loop_bound :: "nat \<Rightarrow> nat" where
  "int_loop_bound n = nat (to_int32 (int n))"

lemma int_loop_bound_id [arith_conv]: "n < 2 ^ 31 \<Longrightarrow> int_loop_bound n = n"
  by (simp add: int_loop_bound_def to_int32_id)

section \<open>Option-valued folds\<close>

fun ofold :: "('x \<Rightarrow> 's \<Rightarrow> 's option) \<Rightarrow> 'x list \<Rightarrow> 's \<Rightarrow> 's option" where
  "ofold f [] s = Some s"
| "ofold f (x # xs) s = Option.bind (f x s) (ofold f xs)"

lemma ofold_append: "ofold f (xs @ ys) s = Option.bind (ofold f xs s) (ofold f ys)"
  by (induction xs arbitrary: s) (auto split: bind_splits)

lemma ofold_invariant:
  assumes "ofold f xs s = Some t" and "P s"
    and "\<And>x s t. x \<in> set xs \<Longrightarrow> f x s = Some t \<Longrightarrow> P s \<Longrightarrow> P t"
  shows "P t"
  using assms
proof (induction xs arbitrary: s)
  case (Cons x xs)
  then obtain u where u: "f x s = Some u" "ofold f xs u = Some t"
    by (auto split: bind_splits)
  then have "P u" using Cons.prems(2,3) by (metis list.set_intros(1))
  then show ?case using Cons.IH [OF u(2)] Cons.prems(3) by (meson list.set_intros(2))
qed simp

lemma ofold_total:
  assumes "P s" and "\<And>x s. x \<in> set xs \<Longrightarrow> P s \<Longrightarrow> \<exists>t. f x s = Some t \<and> P t"
  shows "\<exists>t. ofold f xs s = Some t \<and> P t"
  using assms
proof (induction xs arbitrary: s)
  case (Cons x xs)
  obtain u where u: "f x s = Some u" "P u" using Cons.prems by (meson list.set_intros(1))
  then obtain t where "ofold f xs u = Some t" "P t"
    using Cons.IH [OF u(2)] Cons.prems(2) by (meson list.set_intros(2))
  then show ?case using u by auto
qed simp

text \<open>A loop whose rounds each add to what has been collected, keeping an invariant.\<close>

lemma ofold_collects:
  assumes "P s" and "\<And>x s. x \<in> set xs \<Longrightarrow> P s \<Longrightarrow> \<exists>t. f x s = Some t \<and> P t \<and> A t = A s \<union> B x"
  shows "\<exists>t. ofold f xs s = Some t \<and> P t \<and> A t = A s \<union> (\<Union>x\<in>set xs. B x)"
  using assms
proof (induction xs arbitrary: s)
  case (Cons x xs)
  obtain u where u: "f x s = Some u" "P u" "A u = A s \<union> B x" using Cons.prems by (meson list.set_intros(1))
  obtain t where "ofold f xs u = Some t" "P t" "A t = A u \<union> (\<Union>x\<in>set xs. B x)"
    using Cons.IH [OF u(2)] Cons.prems(2) by (meson list.set_intros(2))
  then show ?case using u by auto
qed simp

section \<open>Chains and tables of chains\<close>

text \<open>
  A bucket array \<open>struct node **list\<close> is a list of chains; a chain is the list of the nodes reached
  through \<open>next\<close> from the bucket's head. \<open>chain_at\<close> is the access \<open>list[pos]\<close>.
\<close>

definition chain_at :: "'n list list \<Rightarrow> int \<Rightarrow> 'n list option" where
  "chain_at tbl pos = (if 0 \<le> pos \<and> nat pos < length tbl then Some (tbl ! nat pos) else None)"

lemma chain_at_int [chain_simps, simp]:
  "i < length tbl \<Longrightarrow> chain_at tbl (int i) = Some (tbl ! i)"
  by (simp add: chain_at_def)

text \<open>All nodes in the order of \<open>for (int i = 0; i < bound; i++) for (temp = list[i]; temp; ...)\<close>.\<close>

definition chains_upto :: "nat \<Rightarrow> 'n list list \<Rightarrow> 'n list option" where
  "chains_upto bound tbl = (if bound \<le> length tbl then Some (concat (take bound tbl)) else None)"

lemma chains_upto_all [chain_simps, simp]: "chains_upto (length tbl) tbl = Some (concat tbl)"
  by (simp add: chains_upto_def)

text \<open>Every node stands in the bucket its key hashes to.\<close>

definition chains_ok :: "('k \<Rightarrow> int option) \<Rightarrow> ('n \<Rightarrow> 'k) \<Rightarrow> 'n list list \<Rightarrow> bool" where
  "chains_ok h key tbl \<longleftrightarrow> (\<forall>i < length tbl. \<forall>x \<in> set (tbl ! i). h (key x) = Some (int i))"

lemma chains_ok_empty: "chains_ok h key (replicate n [])"
  by (simp add: chains_ok_def)

lemma chains_ok_update:
  assumes "chains_ok h key tbl" and "\<And>x. x \<in> set c \<Longrightarrow> h (key x) = Some (int i)"
  shows "chains_ok h key (tbl[i := c])"
  using assms unfolding chains_ok_def
  by (metis length_list_update nth_list_update_eq nth_list_update_neq)

lemma set_concat_update:
  "i < length tbl \<Longrightarrow> set (concat (tbl[i := c])) \<subseteq> set (concat tbl) \<union> set c"
  by (auto simp: in_set_conv_nth nth_list_update split: if_splits)
     (metis nth_mem)+

lemma find_conv_filter: "find P xs = (case filter P xs of [] \<Rightarrow> None | x # _ \<Rightarrow> Some x)"
  by (induction xs) auto

lemma filter_concat_one:
  assumes "i < length tbl" and "\<And>j. j < length tbl \<Longrightarrow> j \<noteq> i \<Longrightarrow> filter P (tbl ! j) = []"
  shows "filter P (concat tbl) = filter P (tbl ! i)"
  using assms
proof (induction tbl arbitrary: i)
  case (Cons c cs)
  show ?case
  proof (cases i)
    case 0
    have "filter P d = []" if "d \<in> set cs" for d
      using that Cons.prems(2) [of "Suc _"] 0 by (metis Suc_less_eq in_set_conv_nth length_Cons
          nat.distinct(1) nth_Cons_Suc)
    then have "filter P (concat cs) = []" by (simp add: filter_concat)
    then show ?thesis using 0 by simp
  next
    case (Suc k)
    have "filter P c = []" using Cons.prems(2) [of 0] Suc by simp
    moreover have "filter P (concat cs) = filter P (cs ! k)"
    proof (rule Cons.IH)
      show "k < length cs" using Cons.prems(1) Suc by simp
      fix j assume "j < length cs" "j \<noteq> k"
      then show "filter P (cs ! j) = []" using Cons.prems(2) [of "Suc j"] Suc by simp
    qed
    ultimately show ?thesis using Suc by simp
  qed
qed simp

text \<open>
  The contract of a table of chained buckets: \<open>h n k\<close> is the bucket the code computes for key \<open>k\<close> in
  a table of \<open>n\<close> buckets, \<open>valid n k\<close> says for which keys it is an index of the table.
\<close>

locale hash_chain =
  fixes h :: "nat \<Rightarrow> 'k \<Rightarrow> int option"
    and key :: "'n \<Rightarrow> 'k"
    and valid :: "nat \<Rightarrow> 'k \<Rightarrow> bool"
  assumes hash_range: "valid n k \<Longrightarrow> \<exists>i < n. h n k = Some (int i)"
begin

lemma bucket_holds_key:
  assumes ok: "chains_ok (h (length tbl)) key tbl" and i: "h (length tbl) k = Some (int i)"
    and "i < length tbl"
  shows "filter (\<lambda>x. key x = k) (concat tbl) = filter (\<lambda>x. key x = k) (tbl ! i)"
proof (rule filter_concat_one [OF assms(3)])
  fix j assume j: "j < length tbl" "j \<noteq> i"
  show "filter (\<lambda>x. key x = k) (tbl ! j) = []"
    using ok i j unfolding chains_ok_def filter_empty_conv by fastforce
qed

lemma bucket_obtain:
  assumes "chains_ok (h (length tbl)) key tbl" and "valid (length tbl) k"
  obtains i where "i < length tbl" and "h (length tbl) k = Some (int i)"
    and "filter (\<lambda>x. key x = k) (concat tbl) = filter (\<lambda>x. key x = k) (tbl ! i)"
  using hash_range [OF assms(2)] bucket_holds_key [OF assms(1)] by blast

lemma update_bucket_ok:
  assumes "chains_ok (h (length tbl)) key tbl" and "h (length tbl) k = Some (int i)"
    and "\<And>x. x \<in> set c \<Longrightarrow> key x = k \<or> x \<in> set (tbl ! i)" and "i < length tbl"
  shows "chains_ok (h (length tbl)) key (tbl[i := c])"
proof (rule chains_ok_update [OF assms(1)])
  fix x assume "x \<in> set c"
  then show "h (length tbl) (key x) = Some (int i)"
    using assms unfolding chains_ok_def by blast
qed

text \<open>Replacing the bucket of \<open>k\<close> by one that agrees on all other keys changes only \<open>k\<close>.\<close>

lemma update_bucket_filter:
  assumes ok: "chains_ok (h (length tbl)) key tbl" and i: "h (length tbl) k = Some (int i)"
    and il: "i < length tbl"
    and sub: "\<And>x. x \<in> set c \<Longrightarrow> key x = k \<or> x \<in> set (tbl ! i)"
    and oth: "\<And>k'. k' \<noteq> k \<Longrightarrow> filter (\<lambda>x. key x = k') c = filter (\<lambda>x. key x = k') (tbl ! i)"
  shows "filter (\<lambda>x. key x = k') (concat (tbl[i := c])) =
    (if k' = k then filter (\<lambda>x. key x = k) c else filter (\<lambda>x. key x = k') (concat tbl))"
proof -
  let ?t = "tbl[i := c]"
  have ok': "chains_ok (h (length ?t)) key ?t"
    using update_bucket_ok [OF ok i sub il] by simp
  show ?thesis
  proof (cases "\<exists>j < length tbl. h (length tbl) k' = Some (int j)")
    case True
    then obtain j where j: "j < length tbl" "h (length tbl) k' = Some (int j)" by blast
    have 1: "filter (\<lambda>x. key x = k') (concat ?t) = filter (\<lambda>x. key x = k') (?t ! j)"
      using bucket_holds_key [OF ok', of k' j] j by simp
    have 2: "filter (\<lambda>x. key x = k') (concat tbl) = filter (\<lambda>x. key x = k') (tbl ! j)"
      using bucket_holds_key [OF ok j(2) j(1)] .
    show ?thesis using 1 2 oth [of k'] i il j by (cases "j = i") auto
  next
    case False
    have none: "key x \<noteq> k'" if "x \<in> set (concat u)" "chains_ok (h (length tbl)) key u"
      "length u = length tbl" for x u
      using that False unfolding chains_ok_def by (metis in_set_conv_nth set_concat UN_E)
    have "filter (\<lambda>x. key x = k') (concat ?t) = []"
      unfolding filter_empty_conv using none [of _ ?t] ok' by auto
    moreover have "filter (\<lambda>x. key x = k') (concat tbl) = []"
      unfolding filter_empty_conv using none [of _ tbl] ok by auto
    moreover have "k' \<noteq> k" using False i il by auto
    ultimately show ?thesis by simp
  qed
qed

end

end
