(* ===== verification/CMemory.thy ===== *)
theory CMemory
  imports Arthas_Prelude
begin

text \<open>
  The memory the reactor works on. Buffers obtained from \<open>malloc\<close> are blocks of their own, which is
  what the allocator guarantees (fresh, disjoint from everything else); persistent memory pools and
  mapped files are bytes at 64-bit addresses. \<open>memcpy\<close> moves bytes between the two and is undefined
  (\<^term>\<open>None\<close>) when an access leaves its object. The field \<open>world\<close> carries the state of what the code
  only calls (the PMDK library and the re-executed target system). Allocation is taken to succeed: the
  sources never test the result of \<open>malloc\<close>.
\<close>

section \<open>State\<close>

datatype ptr = Blk nat | Mapped addr

record 'w cmem =
  heap :: "byte list list"
  pm :: "addr \<Rightarrow> byte option"
  world :: 'w

section \<open>Operations\<close>

text \<open>\<open>malloc(n)\<close>: the bytes of a new block are overwritten by the caller before they are read.\<close>

definition malloc :: "nat \<Rightarrow> 'w cmem \<Rightarrow> ptr \<times> 'w cmem" where
  "malloc n m = (Blk (length (heap m)), m\<lparr>heap := heap m @ [replicate n 0]\<rparr>)"

definition read_mapped :: "(addr \<Rightarrow> byte option) \<Rightarrow> addr \<Rightarrow> nat \<Rightarrow> byte list option" where
  "read_mapped p a n = those (map (\<lambda>i. p (a + of_nat i)) [0..<n])"

definition put_mapped :: "(addr \<Rightarrow> byte option) \<Rightarrow> addr \<Rightarrow> byte list \<Rightarrow> addr \<Rightarrow> byte option" where
  "put_mapped p a bs = (\<lambda>x. if unat (x - a) < length bs then Some (bs ! unat (x - a)) else p x)"

definition mapped_range :: "(addr \<Rightarrow> byte option) \<Rightarrow> addr \<Rightarrow> nat \<Rightarrow> bool" where
  "mapped_range p a n = list_all (\<lambda>i. p (a + of_nat i) \<noteq> None) [0..<n]"

fun load_bytes :: "'w cmem \<Rightarrow> ptr \<Rightarrow> nat \<Rightarrow> byte list option" where
  "load_bytes m (Blk b) n =
     (if b < length (heap m) \<and> n \<le> length (heap m ! b) then Some (take n (heap m ! b)) else None)"
| "load_bytes m (Mapped a) n = read_mapped (pm m) a n"

fun store_bytes :: "'w cmem \<Rightarrow> ptr \<Rightarrow> byte list \<Rightarrow> 'w cmem option" where
  "store_bytes m (Blk b) bs =
     (if b < length (heap m) \<and> length bs \<le> length (heap m ! b)
      then Some (m\<lparr>heap := (heap m)[b := bs @ drop (length bs) (heap m ! b)]\<rparr>) else None)"
| "store_bytes m (Mapped a) bs =
     (if mapped_range (pm m) a (length bs) then Some (m\<lparr>pm := put_mapped (pm m) a bs\<rparr>) else None)"

definition memcpy :: "ptr \<Rightarrow> ptr \<Rightarrow> nat \<Rightarrow> 'w cmem \<Rightarrow> 'w cmem option" where
  "memcpy dst src n m = Option.bind (load_bytes m src n) (store_bytes m dst)"

section \<open>Reads and writes\<close>

lemma those_map_Some:
  "those (map f xs) = Some ys \<longleftrightarrow>
     length ys = length xs \<and> (\<forall>i < length xs. f (xs ! i) = Some (ys ! i))"
proof (induction xs arbitrary: ys)
  case (Cons x xs)
  show ?case
  proof (cases ys)
    case (Cons y zs)
    then show ?thesis using Cons.IH [of zs]
      by (auto simp: All_less_Suc2 split: option.splits)
  qed (auto split: option.splits)
qed auto

lemma read_mapped_Some [mem_simps]:
  "read_mapped p a n = Some bs \<longleftrightarrow> length bs = n \<and> (\<forall>i < n. p (a + of_nat i) = Some (bs ! i))"
  unfolding read_mapped_def those_map_Some by auto

lemma mapped_range_iff: "mapped_range p a n \<longleftrightarrow> (\<forall>i < n. p (a + of_nat i) \<noteq> None)"
  by (auto simp: mapped_range_def list_all_iff)

lemma mapped_range_mono: "mapped_range p a n \<Longrightarrow> m \<le> n \<Longrightarrow> mapped_range p a m"
  by (simp add: mapped_range_iff)

lemma read_mapped_total: "mapped_range p a n \<Longrightarrow> \<exists>bs. read_mapped p a n = Some bs \<and> length bs = n"
proof -
  assume "mapped_range p a n"
  then have "read_mapped p a n = Some (map (\<lambda>i. the (p (a + of_nat i))) [0..<n])"
    unfolding read_mapped_Some by (auto simp: mapped_range_iff)
  then show ?thesis by simp
qed

lemma read_mapped_None: "read_mapped p a n = None \<longleftrightarrow> \<not> mapped_range p a n"
proof (cases "read_mapped p a n")
  case None
  then show ?thesis using read_mapped_total [of p a n] by auto
next
  case (Some bs)
  then have "mapped_range p a n" by (simp add: read_mapped_Some mapped_range_iff)
  then show ?thesis using Some by simp
qed

lemma put_mapped_dom: "mapped_range p b k \<Longrightarrow> mapped_range (put_mapped p a bs) b k"
  by (auto simp: mapped_range_iff put_mapped_def)

lemma put_mapped_domain_eq:
  assumes "mapped_range p a (length bs)"
  shows "put_mapped p a bs x = None \<longleftrightarrow> p x = None"
proof (cases "unat (x - a) < length bs")
  case True
  then have "p (a + of_nat (unat (x - a))) \<noteq> None" using assms by (auto simp: mapped_range_iff)
  then show ?thesis using True by (simp add: put_mapped_def)
qed (simp add: put_mapped_def)

lemma unat_of_nat_addr: "i < 2 ^ 64 \<Longrightarrow> unat (of_nat i :: addr) = i"
  by (simp add: unat_of_nat take_bit_nat_eq_self_iff)

lemma read_put_mapped:
  assumes "length bs < 2 ^ 64"
  shows "read_mapped (put_mapped p a bs) a (length bs) = Some bs"
  unfolding read_mapped_Some put_mapped_def using assms by (auto simp: unat_of_nat_addr)

text \<open>Writing back what was read leaves the memory as it was, and a write over a shorter one wins.\<close>

lemma put_read_mapped: "read_mapped p a n = Some bs \<Longrightarrow> put_mapped p a bs = p"
proof
  fix x assume r: "read_mapped p a n = Some bs"
  show "put_mapped p a bs x = p x"
  proof (cases "unat (x - a) < length bs")
    case True
    have "p (a + of_nat (unat (x - a))) = Some (bs ! unat (x - a))"
      using r True unfolding read_mapped_Some by blast
    then show ?thesis using True by (simp add: put_mapped_def)
  qed (simp add: put_mapped_def)
qed

lemma put_put_mapped:
  "length bs \<le> length cs \<Longrightarrow> put_mapped (put_mapped p a bs) a cs = put_mapped p a cs"
  by (auto simp: put_mapped_def fun_eq_iff)

lemma put_mapped_restore:
  "read_mapped p a n = Some cs \<Longrightarrow> length bs \<le> n \<Longrightarrow> put_mapped (put_mapped p a bs) a cs = p"
  by (metis put_put_mapped put_read_mapped read_mapped_Some)

text \<open>Bytes outside the written range keep their value.\<close>

definition outside :: "addr \<Rightarrow> nat \<Rightarrow> addr \<Rightarrow> bool" where
  "outside a n x \<longleftrightarrow> \<not> unat (x - a) < n"

lemma put_mapped_outside [mem_simps]: "outside a (length bs) x \<Longrightarrow> put_mapped p a bs x = p x"
  by (simp add: outside_def put_mapped_def)

section \<open>Properties of \<open>malloc\<close> and \<open>memcpy\<close>\<close>

lemma malloc_fresh:
  "malloc n m = (q, m') \<Longrightarrow>
     q = Blk (length (heap m)) \<and> length (heap m') = Suc (length (heap m)) \<and> pm m' = pm m \<and>
     world m' = world m \<and> (\<forall>b < length (heap m). heap m' ! b = heap m ! b) \<and>
     length (heap m' ! length (heap m)) = n"
  by (auto simp: malloc_def nth_append)

lemma load_bytes_length: "load_bytes m q n = Some bs \<Longrightarrow> length bs = n"
  by (cases q) (auto simp: read_mapped_Some split: if_splits)

lemma store_bytes_frame:
  assumes "store_bytes m q bs = Some m'"
  shows "length (heap m') = length (heap m)" and "world m' = world m"
    and "\<And>b. length (heap m' ! b) = length (heap m ! b)"
    and "\<And>b. q \<noteq> Blk b \<Longrightarrow> heap m' ! b = heap m ! b"
    and "\<And>b. q = Blk b \<Longrightarrow> pm m' = pm m"
    and "\<And>x. pm m' x = None \<longleftrightarrow> pm m x = None"
  using assms
  by (cases q; auto simp: nth_list_update put_mapped_domain_eq split: if_splits)+

lemma memcpy_frame:
  assumes "memcpy dst src n m = Some m'"
  shows "length (heap m') = length (heap m)" and "world m' = world m"
    and "\<And>b. length (heap m' ! b) = length (heap m ! b)"
    and "\<And>b. dst \<noteq> Blk b \<Longrightarrow> heap m' ! b = heap m ! b"
    and "\<And>b. dst = Blk b \<Longrightarrow> pm m' = pm m"
    and "\<And>x. pm m' x = None \<longleftrightarrow> pm m x = None"
  using assms store_bytes_frame [of m dst _ m'] unfolding memcpy_def
  by (auto split: bind_splits)

text \<open>The buffer \<open>memcpy\<close> fills whole holds the bytes of the source.\<close>

lemma memcpy_to_block:
  assumes "load_bytes m src n = Some bs" and "b < length (heap m)" and "n \<le> length (heap m ! b)"
  shows "memcpy (Blk b) src n m = Some (m\<lparr>heap := (heap m)[b := bs @ drop n (heap m ! b)]\<rparr>)"
  using assms load_bytes_length [OF assms(1)] by (simp add: memcpy_def)

lemma memcpy_to_mapped:
  assumes "load_bytes m src n = Some bs" and "mapped_range (pm m) a n"
  shows "memcpy (Mapped a) src n m = Some (m\<lparr>pm := put_mapped (pm m) a bs\<rparr>)"
  using assms load_bytes_length [OF assms(1)] by (simp add: memcpy_def)

end
