(* ===== verification/SeqLog.thy ===== *)
theory SeqLog
  imports CMemory
begin

text \<open>
  The two logs the reactor builds in volatile memory from the checkpoint log (\<open>reactor/include/checkpoint.h\<close>,
  \<open>reactor/lib/checkpoint.c\<close>): \<open>seq_log\<close>, a hash table from logical sequence numbers to entries, and
  \<open>tx_log\<close>, one from transaction ids to entries, in which an id may occur many times. Both are arrays of
  singly linked chains. The operations are translated loop by loop; the lemmas show that \<open>seq_log\<close>
  implements a finite map and \<open>tx_log\<close> a multimap that keeps the insertion order of each id, for the
  keys the hash function maps to a bucket.
\<close>

section \<open>Data\<close>

definition MAX_VERSIONS :: nat where "MAX_VERSIONS = 3"

record single_data =
  sd_address :: addr
  sd_offset :: addr
  sd_data :: ptr
  sd_size :: nat
  sd_sequence_number :: int
  sd_version :: int
  sd_data_type :: int
  sd_old_data :: "ptr list"
  sd_old_size :: "nat list"
  sd_old_checkpoint_entry :: addr
  sd_new_checkpoint_entry :: addr
  sd_sorted_pmem_address :: addr
  sd_tx_id :: int

record seq_node =
  sn_sequence_number :: int
  sn_ordered_data :: single_data

text \<open>
  \<open>sl_list\<close> holds the initialised buckets, \<open>sl_cells\<close> the number of pointer cells behind the array: the
  revert log allocates more cells than it initialises.
\<close>

record seq_log =
  sl_size :: nat
  sl_cells :: nat
  sl_list :: "seq_node list list"

record tx_node =
  tn_tx_id :: int
  tn_ordered_data :: single_data

record tx_log =
  tl_size :: nat
  tl_list :: "tx_node list list"

section \<open>Hashing\<close>

text \<open>
  \<open>key % size\<close> converts the \<open>int\<close> key to \<open>size_t\<close> first; the result is converted back to \<open>int\<close>.
  A size of zero is a division by zero.
\<close>

definition hash_index :: "nat \<Rightarrow> int \<Rightarrow> int option" where
  "hash_index n key =
     (if n = 0 then None
      else if key < 0 then Some (to_int32 (to_u64 (- (to_u64 key mod int n))))
      else Some (to_int32 (to_u64 key mod int n)))"

definition hashCode :: "seq_log \<Rightarrow> int \<Rightarrow> int option" where
  "hashCode s_log key = hash_index (sl_size s_log) key"

definition txhashCode :: "tx_log \<Rightarrow> int \<Rightarrow> int option" where
  "txhashCode t_log key = hash_index (tl_size t_log) key"

section \<open>Operations on the sequence log\<close>

text \<open>The search loops over a chain: \<open>Some\<close> of the chain after the write when the key is found.\<close>

fun seq_chain_write :: "int \<Rightarrow> (single_data \<Rightarrow> single_data) \<Rightarrow> seq_node list \<Rightarrow> seq_node list option" where
  "seq_chain_write key f [] = None"
| "seq_chain_write key f (temp # rest) =
     (if sn_sequence_number temp = key
      then Some (temp\<lparr>sn_ordered_data := f (sn_ordered_data temp)\<rparr> # rest)
      else map_option ((#) temp) (seq_chain_write key f rest))"

fun seq_chain_find :: "int \<Rightarrow> seq_node list \<Rightarrow> single_data option" where
  "seq_chain_find key [] = None"
| "seq_chain_find key (temp # rest) =
     (if sn_sequence_number temp = key then Some (sn_ordered_data temp) else seq_chain_find key rest)"

text \<open>\<open>insert\<close>: it first reads \<open>s_log->list[92]\<close> into an unused variable.\<close>

definition insert_log :: "seq_log \<Rightarrow> int \<Rightarrow> single_data \<Rightarrow> seq_log option" where
  "insert_log s_log key ordered_data =
     (if \<not> 92 < sl_cells s_log then None
      else do {
        pos \<leftarrow> hashCode s_log key;
        chain \<leftarrow> chain_at (sl_list s_log) pos;
        let chain' = (case seq_chain_write key (\<lambda>_. ordered_data) chain of
            Some c \<Rightarrow> c
          | None \<Rightarrow> \<lparr>sn_sequence_number = key, sn_ordered_data = ordered_data\<rparr> # chain);
        Some (s_log\<lparr>sl_list := (sl_list s_log)[nat pos := chain']\<rparr>)
      })"

definition rev_lookup :: "seq_log \<Rightarrow> int \<Rightarrow> int option" where
  "rev_lookup s_log key = do {
     pos \<leftarrow> hashCode s_log key;
     chain \<leftarrow> chain_at (sl_list s_log) pos;
     Some (if seq_chain_find key chain \<noteq> None then 1 else - 1)
   }"

text \<open>
  \<open>lookup\<close>: when the key is absent the result is a local variable of which only the sequence number
  is set; \<open>uninit\<close> stands for its indeterminate fields.
\<close>

definition lookup :: "single_data \<Rightarrow> seq_log \<Rightarrow> int \<Rightarrow> single_data option" where
  "lookup uninit s_log key = do {
     pos \<leftarrow> hashCode s_log key;
     chain \<leftarrow> chain_at (sl_list s_log) pos;
     Some (case seq_chain_find key chain of
         Some d \<Rightarrow> d
       | None \<Rightarrow> uninit\<lparr>sd_sequence_number := - 1\<rparr>)
   }"

definition lookup_modify :: "seq_log \<Rightarrow> int \<Rightarrow> addr \<Rightarrow> seq_log option" where
  "lookup_modify s_log key a = do {
     pos \<leftarrow> hashCode s_log key;
     chain \<leftarrow> chain_at (sl_list s_log) pos;
     Some (case seq_chain_write key (sd_sorted_pmem_address_update (\<lambda>_. a)) chain of
         Some c \<Rightarrow> s_log\<lparr>sl_list := (sl_list s_log)[nat pos := c]\<rparr>
       | None \<Rightarrow> s_log)
   }"

text \<open>\<open>lookup_undo_save\<close> ignores its argument \<open>addr\<close> and copies from the entry's own address.\<close>

definition lookup_undo_save ::
    "seq_log \<Rightarrow> int \<Rightarrow> addr \<Rightarrow> nat \<Rightarrow> 'w cmem \<Rightarrow> 'w cmem option" where
  "lookup_undo_save s_log key a n m = do {
     pos \<leftarrow> hashCode s_log key;
     chain \<leftarrow> chain_at (sl_list s_log) pos;
     (case seq_chain_find key chain of
        Some d \<Rightarrow> memcpy (sd_data d) (Mapped (sd_sorted_pmem_address d)) n m
      | None \<Rightarrow> Some m)
   }"

text \<open>The scans over the whole log, in bucket order.\<close>

definition seq_nodes :: "seq_log \<Rightarrow> seq_node list option" where
  "seq_nodes s_log = chains_upto (int_loop_bound (sl_size s_log)) (sl_list s_log)"

definition address_lookup :: "seq_log \<Rightarrow> addr \<Rightarrow> (nat \<times> int list) option" where
  "address_lookup s_log address = map_option
     (\<lambda>nodes. fold (\<lambda>temp (seq_count, sequences).
          if address = sd_address (sn_ordered_data temp)
          then (Suc seq_count, sequences @ [sn_sequence_number temp])
          else (seq_count, sequences)) nodes (0, []))
     (seq_nodes s_log)"

definition count_higher :: "seq_log \<Rightarrow> int \<Rightarrow> nat option" where
  "count_higher s_log seq_num = map_option
     (\<lambda>nodes. fold (\<lambda>temp n. if sn_sequence_number temp > seq_num then Suc n else n) nodes 0)
     (seq_nodes s_log)"

definition find_highest_seq_num :: "seq_log \<Rightarrow> int option" where
  "find_highest_seq_num s_log = map_option
     (\<lambda>nodes. fold (\<lambda>temp highest. if sn_sequence_number temp > highest
                       then sn_sequence_number temp else highest) nodes (- 1))
     (seq_nodes s_log)"

text \<open>
  An empty log, as \<open>Reactor::seq_log_creation\<close> and \<open>Reactor::tx_log_creation\<close> set it up: \<open>n\<close> buckets,
  all \<open>NULL\<close>, in an array of \<open>cells\<close> pointer cells.
\<close>

definition empty_seq_log :: "nat \<Rightarrow> nat \<Rightarrow> seq_log" where
  "empty_seq_log n cells = \<lparr>sl_size = n, sl_cells = cells, sl_list = replicate n []\<rparr>"

definition empty_tx_log :: "nat \<Rightarrow> tx_log" where
  "empty_tx_log n = \<lparr>tl_size = n, tl_list = replicate n []\<rparr>"

section \<open>Operations on the transaction log\<close>

definition tx_insert :: "tx_log \<Rightarrow> int \<Rightarrow> single_data \<Rightarrow> tx_log option" where
  "tx_insert t_log key ordered_data = do {
     pos \<leftarrow> txhashCode t_log key;
     chain \<leftarrow> chain_at (tl_list t_log) pos;
     Some (t_log\<lparr>tl_list := (tl_list t_log)
       [nat pos := \<lparr>tn_tx_id = key, tn_ordered_data = ordered_data\<rparr> # chain]\<rparr>)
   }"

fun tx_chain_find :: "int \<Rightarrow> tx_node list \<Rightarrow> single_data option" where
  "tx_chain_find key [] = None"
| "tx_chain_find key (temp # rest) =
     (if tn_tx_id temp = key then Some (tn_ordered_data temp) else tx_chain_find key rest)"

definition tx_lookup :: "single_data \<Rightarrow> tx_log \<Rightarrow> int \<Rightarrow> single_data option" where
  "tx_lookup uninit t_log key = do {
     pos \<leftarrow> txhashCode t_log key;
     chain \<leftarrow> chain_at (tl_list t_log) pos;
     Some (case tx_chain_find key chain of
         Some d \<Rightarrow> d
       | None \<Rightarrow> uninit\<lparr>sd_tx_id := - 1\<rparr>)
   }"

text \<open>The comparison function for sorting entries by sequence number.\<close>

definition sequence_comparator :: "single_data \<Rightarrow> single_data \<Rightarrow> int" where
  "sequence_comparator s1 s2 =
     (if sd_sequence_number s1 < sd_sequence_number s2 then - 1
      else if sd_sequence_number s1 > sd_sequence_number s2 then 1
      else 0)"


section \<open>Hash values\<close>

definition seq_key_ok :: "nat \<Rightarrow> int \<Rightarrow> bool" where
  "seq_key_ok n k \<longleftrightarrow> 0 < n \<and> n < 2 ^ 31 \<and> 0 \<le> k \<and> k < 2 ^ 31"

lemma hash_index_nonneg:
  assumes "seq_key_ok n k"
  shows "hash_index n k = Some (int (nat k mod n))"
proof -
  have *: "0 < n" "n < 2 ^ 31" "0 \<le> k" "k < 2 ^ 31" using assms by (auto simp: seq_key_ok_def)
  have "0 \<le> k mod int n" "k mod int n < int n" using * by simp_all
  moreover have "int n < 2 ^ 31" using * by simp
  ultimately have "to_int32 (k mod int n) = k mod int n" by (intro to_int32_id) linarith+
  moreover have "to_u64 k = k" using * by (intro to_u64_id) simp_all
  moreover have "k mod int n = int (nat k mod n)" using * by (simp add: zmod_int)
  ultimately show ?thesis using * by (simp add: hash_index_def)
qed

text \<open>A negative key never hashes to a positive index: the negation is applied to an unsigned remainder.\<close>

lemma hash_index_negative:
  assumes "0 < n" and "n < 2 ^ 31" and "- (2 ^ 31) \<le> k" and "k < 0"
  shows "hash_index n k = Some (- ((2 ^ 64 + k) mod int n))"
proof -
  let ?r = "(2 ^ 64 + k) mod int n"
  have k: "to_u64 k = 2 ^ 64 + k"
  proof -
    have "k mod 2 ^ 64 = (k + 2 ^ 64) mod 2 ^ 64" by simp
    also have "\<dots> = k + 2 ^ 64" using assms by (intro mod_pos_pos_trivial) simp_all
    finally show ?thesis by (simp add: to_u64_def)
  qed
  have r0: "0 \<le> ?r" "?r < int n" using assms by simp_all
  moreover have "int n < 2 ^ 31" using assms by simp
  ultimately have r: "0 \<le> ?r" "?r < 2 ^ 31" by linarith+
  have "to_int32 (to_u64 (- ?r)) = - ?r"
  proof -
    have "to_int32 (to_u64 (- ?r)) = (to_u64 (- ?r) + 2 ^ 31) mod 2 ^ 32 - 2 ^ 31"
      by (simp only: to_int32_def)
    also have "(to_u64 (- ?r) + 2 ^ 31) mod 2 ^ 32 = (- ?r + 2 ^ 31) mod 2 ^ 32"
    proof -
      have "(- ?r mod 2 ^ 64) mod 2 ^ 32 = - ?r mod 2 ^ (32::nat)"
        by (rule mod_mod_cancel) simp
      then show ?thesis unfolding to_u64_def by (metis mod_add_left_eq)
    qed
    also have "(- ?r + 2 ^ 31) mod 2 ^ 32 = - ?r + 2 ^ 31"
      using r by (intro mod_pos_pos_trivial) simp_all
    finally show ?thesis by simp
  qed
  then show ?thesis using assms k by (simp add: hash_index_def)
qed

interpretation seq_tbl: hash_chain hash_index sn_sequence_number seq_key_ok
proof unfold_locales
  fix n k assume "seq_key_ok n k"
  then show "\<exists>i<n. hash_index n k = Some (int i)"
    using hash_index_nonneg by (auto simp: seq_key_ok_def intro!: exI [of _ "nat k mod n"])
qed

interpretation tx_tbl: hash_chain hash_index tn_tx_id seq_key_ok
  by unfold_locales (rule seq_tbl.hash_range)

section \<open>The sequence log as a finite map\<close>

definition seq_abs :: "seq_log \<Rightarrow> int \<Rightarrow> single_data option" where
  "seq_abs s = map_of (map (\<lambda>n. (sn_sequence_number n, sn_ordered_data n)) (concat (sl_list s)))"

definition seq_wf :: "seq_log \<Rightarrow> bool" where
  "seq_wf s \<longleftrightarrow> sl_size s = length (sl_list s) \<and> 0 < sl_size s \<and> sl_size s < 2 ^ 31 \<and>
     92 < sl_cells s \<and> chains_ok (hash_index (sl_size s)) sn_sequence_number (sl_list s) \<and>
     list_all (\<lambda>n. 0 \<le> sn_sequence_number n \<and> sn_sequence_number n < 2 ^ 31) (concat (sl_list s)) \<and>
     distinct (map sn_sequence_number (concat (sl_list s)))"

definition seq_key :: "int \<Rightarrow> bool" where
  "seq_key k \<longleftrightarrow> 0 \<le> k \<and> k < 2 ^ 31"

lemma seq_wfD:
  assumes "seq_wf s"
  shows "sl_size s = length (sl_list s)" and "0 < length (sl_list s)" and "length (sl_list s) < 2 ^ 31"
    and "92 < sl_cells s"
    and "chains_ok (hash_index (length (sl_list s))) sn_sequence_number (sl_list s)"
    and "distinct (map sn_sequence_number (concat (sl_list s)))"
    and "\<And>n. n \<in> set (concat (sl_list s)) \<Longrightarrow> 0 \<le> sn_sequence_number n \<and> sn_sequence_number n < 2 ^ 31"
  using assms unfolding seq_wf_def list_all_iff by (metis, metis, metis, blast, metis, blast, blast)

lemma seq_wf_key_ok: "seq_wf s \<Longrightarrow> seq_key k \<Longrightarrow> seq_key_ok (length (sl_list s)) k"
  using seq_wfD(2,3) unfolding seq_key_def seq_key_ok_def by blast

lemma map_of_filter:
  "map_of (map (\<lambda>n. (key n, v n)) xs) k =
     (case filter (\<lambda>n. key n = k) xs of [] \<Rightarrow> None | n # _ \<Rightarrow> Some (v n))"
  by (induction xs) auto

lemma distinct_map_iff_filter:
  "distinct (map key xs) \<longleftrightarrow> (\<forall>k. length (filter (\<lambda>x. key x = k) xs) \<le> 1)"
proof (induction xs)
  case (Cons x xs)
  have "key x \<notin> key ` set xs \<longleftrightarrow> filter (\<lambda>y. key y = key x) xs = []"
    by (auto simp: filter_empty_conv image_iff)
  moreover have "(\<forall>k. length (filter (\<lambda>y. key y = k) (x # xs)) \<le> 1) \<longleftrightarrow>
      filter (\<lambda>y. key y = key x) xs = [] \<and> (\<forall>k. length (filter (\<lambda>y. key y = k) xs) \<le> 1)"
    by (auto simp: le_Suc_eq)
  ultimately show ?case using Cons.IH by simp
qed simp

lemma seq_chain_find_filter [chain_simps]:
  "seq_chain_find k c =
     (case filter (\<lambda>n. sn_sequence_number n = k) c of [] \<Rightarrow> None | n # _ \<Rightarrow> Some (sn_ordered_data n))"
  by (induction c) auto

lemma seq_chain_write_None [chain_simps]:
  "seq_chain_write k f c = None \<longleftrightarrow> filter (\<lambda>n. sn_sequence_number n = k) c = []"
  by (induction c) auto

lemma seq_chain_write_Some:
  assumes "seq_chain_write k f c = Some c'"
  shows "filter (\<lambda>n. sn_sequence_number n = k') c' =
      (if k' = k then (case filter (\<lambda>n. sn_sequence_number n = k) c of
           [] \<Rightarrow> [] | n # ns \<Rightarrow> n\<lparr>sn_ordered_data := f (sn_ordered_data n)\<rparr> # ns)
       else filter (\<lambda>n. sn_sequence_number n = k') c)"
    and "x \<in> set c' \<Longrightarrow> sn_sequence_number x = k \<or> x \<in> set c"
proof -
  show "filter (\<lambda>n. sn_sequence_number n = k') c' =
      (if k' = k then (case filter (\<lambda>n. sn_sequence_number n = k) c of
           [] \<Rightarrow> [] | n # ns \<Rightarrow> n\<lparr>sn_ordered_data := f (sn_ordered_data n)\<rparr> # ns)
       else filter (\<lambda>n. sn_sequence_number n = k') c)"
    using assms by (induction c arbitrary: c') (auto split: if_splits)
  show "x \<in> set c' \<Longrightarrow> sn_sequence_number x = k \<or> x \<in> set c"
    using assms by (induction c arbitrary: c') (fastforce split: if_splits)+
qed

lemma seq_bucket:
  assumes "seq_wf s" and "seq_key k"
  obtains i where "i < length (sl_list s)" and "hashCode s k = Some (int i)"
    and "filter (\<lambda>n. sn_sequence_number n = k) (concat (sl_list s)) =
         filter (\<lambda>n. sn_sequence_number n = k) (sl_list s ! i)"
proof (rule seq_tbl.bucket_obtain)
  show "chains_ok (hash_index (length (sl_list s))) sn_sequence_number (sl_list s)"
    by (rule seq_wfD [OF assms(1)])
  show "seq_key_ok (length (sl_list s)) k" using assms by (rule seq_wf_key_ok)
qed (use that seq_wfD(1) [OF assms(1)] in \<open>simp add: hashCode_def\<close>)

lemma seq_abs_filter:
  "seq_abs s k = (case filter (\<lambda>n. sn_sequence_number n = k) (concat (sl_list s)) of
     [] \<Rightarrow> None | n # _ \<Rightarrow> Some (sn_ordered_data n))"
  by (simp add: seq_abs_def map_of_filter)

lemma seq_find_abs:
  assumes "seq_wf s" and "seq_key k"
  obtains i where "i < length (sl_list s)" and "hashCode s k = Some (int i)"
    and "seq_chain_find k (sl_list s ! i) = seq_abs s k"
  using seq_bucket [OF assms] that by (metis seq_abs_filter seq_chain_find_filter)

text \<open>What every reader of the log returns, in terms of the map.\<close>

lemma lookup_abs:
  assumes "seq_wf s" and "seq_key k"
  shows "lookup u s k =
    Some (case seq_abs s k of Some d \<Rightarrow> d | None \<Rightarrow> u\<lparr>sd_sequence_number := - 1\<rparr>)"
  by (rule seq_find_abs [OF assms]) (simp add: lookup_def)

lemma rev_lookup_abs:
  assumes "seq_wf s" and "seq_key k"
  shows "rev_lookup s k = Some (if k \<in> dom (seq_abs s) then 1 else - 1)"
  by (rule seq_find_abs [OF assms]) (auto simp: rev_lookup_def domIff)

lemma lookup_undo_save_abs:
  assumes "seq_wf s" and "seq_key k"
  shows "lookup_undo_save s k a n m = (case seq_abs s k of
      Some d \<Rightarrow> memcpy (sd_data d) (Mapped (sd_sorted_pmem_address d)) n m | None \<Rightarrow> Some m)"
  by (rule seq_find_abs [OF assms]) (simp add: lookup_undo_save_def)

text \<open>Replacing the bucket of a key by a chain that differs only at that key.\<close>

lemma seq_wf_bucket_update:
  assumes wf: "seq_wf s" and k: "seq_key k" and i: "i < length (sl_list s)"
    and h: "hashCode s k = Some (int i)"
    and sub: "\<And>x. x \<in> set c \<Longrightarrow> sn_sequence_number x = k \<or> x \<in> set (sl_list s ! i)"
    and oth: "\<And>k'. k' \<noteq> k \<Longrightarrow> filter (\<lambda>n. sn_sequence_number n = k') c =
                filter (\<lambda>n. sn_sequence_number n = k') (sl_list s ! i)"
    and one: "filter (\<lambda>n. sn_sequence_number n = k) c = [nd]"
  shows "seq_wf (s\<lparr>sl_list := (sl_list s)[i := c]\<rparr>)"
    and "seq_abs (s\<lparr>sl_list := (sl_list s)[i := c]\<rparr>) = (seq_abs s)(k \<mapsto> sn_ordered_data nd)"
proof -
  have ok: "chains_ok (hash_index (length (sl_list s))) sn_sequence_number (sl_list s)"
    and h': "hash_index (length (sl_list s)) k = Some (int i)"
    using seq_wfD [OF wf] h by (auto simp: hashCode_def)
  note flt = seq_tbl.update_bucket_filter [OF ok h' i sub oth]
  have flt': "filter (\<lambda>n. sn_sequence_number n = k') (concat ((sl_list s)[i := c])) =
      (if k' = k then [nd] else filter (\<lambda>n. sn_sequence_number n = k') (concat (sl_list s)))" for k'
    using flt one by simp
  have "distinct (map sn_sequence_number (concat ((sl_list s)[i := c])))"
    using seq_wfD(6) [OF wf] unfolding distinct_map_iff_filter flt' by auto
  moreover have "list_all (\<lambda>n. 0 \<le> sn_sequence_number n \<and> sn_sequence_number n < 2 ^ 31)
      (concat ((sl_list s)[i := c]))"
  proof -
    have "x \<in> set (concat (sl_list s)) \<or> sn_sequence_number x = k"
      if "x \<in> set (concat ((sl_list s)[i := c]))" for x
      using set_concat_update [OF i, of c] that sub i by fastforce
    then show ?thesis using seq_wfD(7) [OF wf] k unfolding seq_key_def list_all_iff by blast
  qed
  moreover have "chains_ok (hash_index (length (sl_list s))) sn_sequence_number ((sl_list s)[i := c])"
    by (rule seq_tbl.update_bucket_ok [OF ok h' sub i])
  ultimately show "seq_wf (s\<lparr>sl_list := (sl_list s)[i := c]\<rparr>)"
    using seq_wfD(1-4) [OF wf] by (simp add: seq_wf_def)
  show "seq_abs (s\<lparr>sl_list := (sl_list s)[i := c]\<rparr>) = (seq_abs s)(k \<mapsto> sn_ordered_data nd)"
    by (rule ext) (simp add: seq_abs_filter flt')
qed

lemma seq_filter_single:
  assumes "seq_wf s" and "filter (\<lambda>n. sn_sequence_number n = k) (concat (sl_list s)) = n # ns"
  shows "ns = []"
proof -
  have "length (n # ns) \<le> 1"
    using seq_wfD(6) [OF assms(1)] assms(2) unfolding distinct_map_iff_filter by metis
  then show ?thesis by simp
qed

lemma insert_log_abs:
  assumes wf: "seq_wf s" and k: "seq_key k"
  shows "\<exists>s'. insert_log s k d = Some s' \<and> seq_wf s' \<and> seq_abs s' = (seq_abs s)(k \<mapsto> d) \<and>
    sl_cells s' = sl_cells s \<and> sl_size s' = sl_size s"
proof (rule seq_bucket [OF wf k])
  fix i
  assume i: "i < length (sl_list s)" and h: "hashCode s k = Some (int i)"
    and flt: "filter (\<lambda>n. sn_sequence_number n = k) (concat (sl_list s)) =
              filter (\<lambda>n. sn_sequence_number n = k) (sl_list s ! i)"
  let ?new = "\<lparr>sn_sequence_number = k, sn_ordered_data = d\<rparr>"
  let ?c = "case seq_chain_write k (\<lambda>_. d) (sl_list s ! i) of Some c \<Rightarrow> c
            | None \<Rightarrow> ?new # (sl_list s ! i)"
  have cells: "92 < sl_cells s" by (rule seq_wfD [OF wf])
  have ins: "insert_log s k d = Some (s\<lparr>sl_list := (sl_list s)[i := ?c]\<rparr>)"
    using i h cells by (simp add: insert_log_def)
  obtain nd where one: "filter (\<lambda>n. sn_sequence_number n = k) ?c = [nd]" and nd: "sn_ordered_data nd = d"
    and sub: "\<And>x. x \<in> set ?c \<Longrightarrow> sn_sequence_number x = k \<or> x \<in> set (sl_list s ! i)"
    and oth: "\<And>k'. k' \<noteq> k \<Longrightarrow> filter (\<lambda>n. sn_sequence_number n = k') ?c =
                filter (\<lambda>n. sn_sequence_number n = k') (sl_list s ! i)"
  proof (cases "seq_chain_write k (\<lambda>_. d) (sl_list s ! i)")
    case None
    show ?thesis
      by (rule that [of ?new])
         (use None None [unfolded seq_chain_write_None] in auto)
  next
    case (Some c)
    note sc = seq_chain_write_Some [OF Some]
    from Some obtain n ns where n: "filter (\<lambda>n. sn_sequence_number n = k) (sl_list s ! i) = n # ns"
      by (metis neq_Nil_conv option.distinct(1) seq_chain_write_None)
    then have "ns = []" using seq_filter_single [OF wf] flt by metis
    show ?thesis
      by (rule that [of "n\<lparr>sn_ordered_data := d\<rparr>"]) (use Some n \<open>ns = []\<close> sc in auto)
  qed
  show ?thesis
    using ins seq_wf_bucket_update [OF wf k i h sub oth one] nd by auto
qed

lemma lookup_modify_abs:
  assumes wf: "seq_wf s" and k: "seq_key k"
  shows "\<exists>s'. lookup_modify s k a = Some s' \<and> seq_wf s' \<and>
    seq_abs s' = (seq_abs s)(k := map_option (sd_sorted_pmem_address_update (\<lambda>_. a)) (seq_abs s k))"
proof (rule seq_bucket [OF wf k])
  fix i
  assume i: "i < length (sl_list s)" and h: "hashCode s k = Some (int i)"
    and flt: "filter (\<lambda>n. sn_sequence_number n = k) (concat (sl_list s)) =
              filter (\<lambda>n. sn_sequence_number n = k) (sl_list s ! i)"
  let ?f = "sd_sorted_pmem_address_update (\<lambda>_. a)"
  show ?thesis
  proof (cases "seq_chain_write k ?f (sl_list s ! i)")
    case None
    then have "seq_abs s k = None" by (simp add: seq_abs_filter flt seq_chain_write_None)
    then have "(seq_abs s)(k := map_option ?f (seq_abs s k)) = seq_abs s" by (simp add: fun_upd_idem)
    then show ?thesis using None wf h i by (simp add: lookup_modify_def)
  next
    case (Some c)
    note sc = seq_chain_write_Some [OF Some]
    from Some obtain n ns where n: "filter (\<lambda>n. sn_sequence_number n = k) (sl_list s ! i) = n # ns"
      by (metis neq_Nil_conv option.distinct(1) seq_chain_write_None)
    then have ns: "ns = []" using seq_filter_single [OF wf] flt by metis
    have one: "filter (\<lambda>x. sn_sequence_number x = k) c =
        [n\<lparr>sn_ordered_data := ?f (sn_ordered_data n)\<rparr>]"
      using sc(1) [of k] n ns by simp
    have old: "seq_abs s k = Some (sn_ordered_data n)" by (simp add: seq_abs_filter flt n)
    have oth: "\<And>k'. k' \<noteq> k \<Longrightarrow> filter (\<lambda>n. sn_sequence_number n = k') c =
                filter (\<lambda>n. sn_sequence_number n = k') (sl_list s ! i)"
      using sc(1) by simp
    show ?thesis
      using seq_wf_bucket_update [OF wf k i h sc(2) oth one] Some h i old
      by (simp add: lookup_modify_def)
  qed
qed

text \<open>
  The contract a client of the log relies on: inserting is total on valid keys, keeps the invariant
  and updates the map at one key. Building a log from a list of entries is then a map override.
\<close>

locale entry_map =
  fixes ins :: "'l \<Rightarrow> 'k \<Rightarrow> 'v \<Rightarrow> 'l option"
    and abs :: "'l \<Rightarrow> 'k \<Rightarrow> 'v option"
    and wf :: "'l \<Rightarrow> bool"
    and valid :: "'k \<Rightarrow> bool"
  assumes ins_abs: "wf l \<Longrightarrow> valid k \<Longrightarrow>
    \<exists>l'. ins l k v = Some l' \<and> wf l' \<and> abs l' = (abs l)(k \<mapsto> v)"
begin

lemma ins_all:
  assumes "wf l" and "\<forall>(k, v) \<in> set kvs. valid k"
  shows "\<exists>l'. ofold (\<lambda>(k, v) l. ins l k v) kvs l = Some l' \<and> wf l' \<and> abs l' = abs l ++ map_of (rev kvs)"
  using assms
proof (induction kvs arbitrary: l)
  case (Cons kv kvs)
  obtain k v where kv: "kv = (k, v)" by force
  obtain l1 where l1: "ins l k v = Some l1" "wf l1" "abs l1 = (abs l)(k \<mapsto> v)"
    using ins_abs Cons.prems kv by force
  obtain l2 where "ofold (\<lambda>(k, v) l. ins l k v) kvs l1 = Some l2" "wf l2"
    "abs l2 = abs l1 ++ map_of (rev kvs)"
    using Cons.IH [OF l1(2)] Cons.prems(2) by auto
  then show ?case using l1 kv by (simp add: map_add_def fun_eq_iff split: option.splits)
qed simp

lemma ins_all_distinct:
  assumes "wf l" and "\<forall>(k, v) \<in> set kvs. valid k" and "distinct (map fst kvs)"
    and "\<And>k. abs l k = None"
  shows "\<exists>l'. ofold (\<lambda>(k, v) l. ins l k v) kvs l = Some l' \<and> wf l' \<and>
    (\<forall>k v. abs l' k = Some v \<longleftrightarrow> (k, v) \<in> set kvs)"
proof -
  obtain l' where l': "ofold (\<lambda>(k, v) l. ins l k v) kvs l = Some l'" "wf l'"
    "abs l' = abs l ++ map_of (rev kvs)"
    using ins_all [OF assms(1,2)] by blast
  have "distinct (map fst (rev kvs))" using assms(3) by (simp add: rev_map [symmetric])
  moreover have "abs l = Map.empty" using assms(4) by (rule ext)
  ultimately have "abs l' k = Some v \<longleftrightarrow> (k, v) \<in> set kvs" for k v
    using l'(3) map_of_eq_Some_iff [of "rev kvs" k v] by simp
  then show ?thesis using l' by blast
qed

end

interpretation seq_map: entry_map insert_log seq_abs seq_wf seq_key
  by unfold_locales (use insert_log_abs in blast)


section \<open>Whole-log scans\<close>

lemma seq_nodes_wf: "seq_wf s \<Longrightarrow> seq_nodes s = Some (concat (sl_list s))"
  using seq_wfD(1,3) by (simp add: seq_nodes_def int_loop_bound_id)

lemma dom_seq_abs: "dom (seq_abs s) = sn_sequence_number ` set (concat (sl_list s))"
  by (simp add: seq_abs_def dom_map_of_conv_image_fst image_image)

lemma fold_address_lookup:
  "fold (\<lambda>temp (c, sq). if a = sd_address (sn_ordered_data temp)
        then (Suc c, sq @ [sn_sequence_number temp]) else (c, sq)) nodes (c0, sq0) =
   (let hits = filter (\<lambda>n. a = sd_address (sn_ordered_data n)) nodes
    in (c0 + length hits, sq0 @ map sn_sequence_number hits))"
  by (induction nodes arbitrary: c0 sq0) (auto simp: Let_def)

lemma fold_count: "fold (\<lambda>x n. if P x then Suc n else n) xs n0 = n0 + length (filter P xs)"
  by (induction xs arbitrary: n0) auto

lemma fold_highest:
  "fold (\<lambda>x hi. if key x > hi then key x else hi) xs (h0::int) = Max (insert h0 (key ` set xs))"
proof (induction xs arbitrary: h0)
  case (Cons x xs)
  have "Max (insert h0 (key ` set (x # xs))) = Max (insert (max h0 (key x)) (key ` set xs))"
    by (cases "xs = []") (auto simp: max.assoc max.commute max.left_commute)
  then show ?case using Cons.IH [of "if key x > h0 then key x else h0"]
    by (auto simp: max_def split: if_splits)
qed simp

lemma seq_abs_node:
  assumes "seq_wf s"
  shows "seq_abs s k = Some d \<longleftrightarrow>
    (\<exists>n \<in> set (concat (sl_list s)). sn_sequence_number n = k \<and> sn_ordered_data n = d)"
proof -
  have "distinct (map fst (map (\<lambda>n. (sn_sequence_number n, sn_ordered_data n)) (concat (sl_list s))))"
    using seq_wfD(6) [OF assms] by (simp add: comp_def)
  then show ?thesis unfolding seq_abs_def by (subst map_of_eq_Some_iff) auto
qed

section \<open>The transaction log as a multimap\<close>

definition tx_abs :: "tx_log \<Rightarrow> int \<Rightarrow> single_data list" where
  "tx_abs t k = map tn_ordered_data (filter (\<lambda>n. tn_tx_id n = k) (concat (tl_list t)))"

definition tx_wf :: "tx_log \<Rightarrow> bool" where
  "tx_wf t \<longleftrightarrow> tl_size t = length (tl_list t) \<and> 0 < tl_size t \<and> tl_size t < 2 ^ 31 \<and>
     chains_ok (hash_index (tl_size t)) tn_tx_id (tl_list t)"

lemma tx_wfD:
  assumes "tx_wf t"
  shows "tl_size t = length (tl_list t)" and "0 < length (tl_list t)" and "length (tl_list t) < 2 ^ 31"
    and "chains_ok (hash_index (length (tl_list t))) tn_tx_id (tl_list t)"
  using assms unfolding tx_wf_def by (metis, metis, metis, metis)

lemma tx_chain_find_filter:
  "tx_chain_find k c =
     (case filter (\<lambda>n. tn_tx_id n = k) c of [] \<Rightarrow> None | n # _ \<Rightarrow> Some (tn_ordered_data n))"
  by (induction c) auto

lemma tx_bucket:
  assumes "tx_wf t" and "seq_key k"
  obtains i where "i < length (tl_list t)" and "txhashCode t k = Some (int i)"
    and "filter (\<lambda>n. tn_tx_id n = k) (concat (tl_list t)) = filter (\<lambda>n. tn_tx_id n = k) (tl_list t ! i)"
proof (rule tx_tbl.bucket_obtain)
  show "chains_ok (hash_index (length (tl_list t))) tn_tx_id (tl_list t)" by (rule tx_wfD [OF assms(1)])
  show "seq_key_ok (length (tl_list t)) k"
    using tx_wfD(2,3) [OF assms(1)] assms(2) by (simp add: seq_key_def seq_key_ok_def)
qed (use that tx_wfD(1) [OF assms(1)] in \<open>simp add: txhashCode_def\<close>)

lemma tx_insert_abs:
  assumes wf: "tx_wf t" and k: "seq_key k"
  shows "\<exists>t'. tx_insert t k d = Some t' \<and> tx_wf t' \<and> tx_abs t' = (tx_abs t)(k := d # tx_abs t k)"
proof (rule tx_bucket [OF wf k])
  fix i
  assume i: "i < length (tl_list t)" and h: "txhashCode t k = Some (int i)"
    and flt: "filter (\<lambda>n. tn_tx_id n = k) (concat (tl_list t)) = filter (\<lambda>n. tn_tx_id n = k) (tl_list t ! i)"
  let ?c = "\<lparr>tn_tx_id = k, tn_ordered_data = d\<rparr> # (tl_list t ! i)"
  have h': "hash_index (length (tl_list t)) k = Some (int i)"
    using h tx_wfD(1) [OF wf] by (simp add: txhashCode_def)
  have sub: "\<And>x. x \<in> set ?c \<Longrightarrow> tn_tx_id x = k \<or> x \<in> set (tl_list t ! i)" by auto
  have oth: "\<And>k'. k' \<noteq> k \<Longrightarrow> filter (\<lambda>n. tn_tx_id n = k') ?c = filter (\<lambda>n. tn_tx_id n = k') (tl_list t ! i)"
    by auto
  have F: "filter (\<lambda>n. tn_tx_id n = k') (concat ((tl_list t)[i := ?c])) =
      (if k' = k then filter (\<lambda>n. tn_tx_id n = k) ?c else filter (\<lambda>n. tn_tx_id n = k') (concat (tl_list t)))"
    for k'
    by (rule tx_tbl.update_bucket_filter [OF tx_wfD(4) [OF wf] h' i]) (use sub oth in blast)+
  have "tx_insert t k d = Some (t\<lparr>tl_list := (tl_list t)[i := ?c]\<rparr>)"
    using h i by (simp add: tx_insert_def)
  moreover have "chains_ok (hash_index (length (tl_list t))) tn_tx_id ((tl_list t)[i := ?c])"
    by (rule tx_tbl.update_bucket_ok [OF tx_wfD(4) [OF wf] h' _ i]) (use sub in blast)
  then have "tx_wf (t\<lparr>tl_list := (tl_list t)[i := ?c]\<rparr>)"
    using tx_wfD(1-3) [OF wf] by (simp add: tx_wf_def)
  moreover have "tx_abs (t\<lparr>tl_list := (tl_list t)[i := ?c]\<rparr>) = (tx_abs t)(k := d # tx_abs t k)"
    by (rule ext) (simp add: tx_abs_def F flt del: list_update.simps)
  ultimately show ?thesis by blast
qed

lemma tx_lookup_abs:
  assumes "tx_wf t" and "seq_key k"
  shows "tx_lookup u t k = Some (case tx_abs t k of [] \<Rightarrow> u\<lparr>sd_tx_id := - 1\<rparr> | d # _ \<Rightarrow> d)"
  by (rule tx_bucket [OF assms])
     (simp add: tx_lookup_def tx_abs_def tx_chain_find_filter split: list.splits)


text \<open>The contract of a multimap whose insertions stack up, newest first, under their key.\<close>

locale entry_multimap =
  fixes ins :: "'log \<Rightarrow> 'k \<Rightarrow> 'v \<Rightarrow> 'log option"
    and abs :: "'log \<Rightarrow> 'k \<Rightarrow> 'v list"
    and wf :: "'log \<Rightarrow> bool"
    and valid :: "'k \<Rightarrow> bool"
  assumes ins_abs: "wf l \<Longrightarrow> valid k \<Longrightarrow> \<exists>l'. ins l k v = Some l' \<and> wf l' \<and> abs l' = (abs l)(k := v # abs l k)"
begin

lemma ins_all:
  assumes "wf l" and "\<forall>(k, v) \<in> set kvs. valid k"
  shows "\<exists>l'. ofold (\<lambda>(k, v) l. ins l k v) kvs l = Some l' \<and> wf l' \<and>
    (\<forall>k. abs l' k = rev (map snd (filter (\<lambda>kv. fst kv = k) kvs)) @ abs l k)"
  using assms
proof (induction kvs arbitrary: l)
  case (Cons kv kvs)
  obtain k v where kv: "kv = (k, v)" by force
  obtain l1 where l1: "ins l k v = Some l1" "wf l1" "abs l1 = (abs l)(k := v # abs l k)"
    using ins_abs Cons.prems kv by force
  obtain l2 where "ofold (\<lambda>(k, v) l. ins l k v) kvs l1 = Some l2" "wf l2"
    "\<forall>k. abs l2 k = rev (map snd (filter (\<lambda>kv. fst kv = k) kvs)) @ abs l1 k"
    using Cons.IH [OF l1(2)] Cons.prems(2) by auto
  then show ?case using l1 kv by auto
qed simp

end

interpretation tx_map: entry_multimap tx_insert tx_abs tx_wf seq_key
  by unfold_locales (use tx_insert_abs in blast)

section \<open>Properties\<close>

text \<open>No operation changes the number of buckets.\<close>

lemma insert_log_size: "insert_log s k d = Some s' \<Longrightarrow> sl_size s' = sl_size s"
  by (auto simp: insert_log_def Let_def split: if_splits bind_splits)

lemma tx_insert_size: "tx_insert t k d = Some t' \<Longrightarrow> tl_size t' = tl_size t"
  by (auto simp: tx_insert_def split: bind_splits)

lemma lookup_modify_size: "lookup_modify s k a = Some s' \<Longrightarrow> sl_size s' = sl_size s"
  by (auto simp: lookup_modify_def split: bind_splits option.splits)

lemma insert_all_size: "ofold (\<lambda>(k, d) l. insert_log l k d) kvs s = Some s' \<Longrightarrow> sl_size s' = sl_size s"
  by (induction kvs arbitrary: s) (auto dest: insert_log_size split: bind_splits)

lemma tx_insert_all_size: "ofold (\<lambda>(k, d) l. tx_insert l k d) kvs t = Some t' \<Longrightarrow> tl_size t' = tl_size t"
  by (induction kvs arbitrary: t) (auto dest: tx_insert_size split: bind_splits)

lemma empty_seq_log_wf:
  "0 < n \<Longrightarrow> n < 2 ^ 31 \<Longrightarrow> 92 < cells \<Longrightarrow> seq_wf (empty_seq_log n cells)"
  by (simp add: seq_wf_def empty_seq_log_def chains_ok_empty)

lemma empty_seq_log_abs: "seq_abs (empty_seq_log n cells) = Map.empty"
  by (simp add: seq_abs_def empty_seq_log_def)

lemma empty_tx_log_wf: "0 < n \<Longrightarrow> n < 2 ^ 31 \<Longrightarrow> tx_wf (empty_tx_log n)"
  by (simp add: tx_wf_def empty_tx_log_def chains_ok_empty)

lemma empty_tx_log_abs: "tx_abs (empty_tx_log n) = (\<lambda>_. [])"
  by (simp add: tx_abs_def empty_tx_log_def fun_eq_iff)

text \<open>
  C25: Inserting an entry under a non-negative sequence number into a well-formed log succeeds, keeps
  the log well formed, and afterwards \<open>lookup\<close> and \<open>rev_lookup\<close> see the new entry at that number and
  what they saw before at every other one.
\<close>

theorem insert_then_lookup:
  assumes "seq_wf s" and "seq_key k" and "seq_key k'"
  shows "\<exists>s'. insert_log s k d = Some s' \<and> seq_wf s' \<and>
    lookup u s' k' = (if k' = k then Some d else lookup u s k') \<and>
    rev_lookup s' k' = (if k' = k then Some 1 else rev_lookup s k')"
proof -
  obtain s' where "insert_log s k d = Some s'" "seq_wf s'" "seq_abs s' = (seq_abs s)(k \<mapsto> d)"
    using insert_log_abs [OF assms(1,2)] by blast
  then show ?thesis using assms by (simp add: lookup_abs rev_lookup_abs)
qed

definition sample_data :: single_data where
  "sample_data = \<lparr>sd_address = 4096, sd_offset = 64, sd_data = Blk 0, sd_size = 2, sd_sequence_number = 7,
     sd_version = 1, sd_data_type = 0, sd_old_data = [Blk 1, Blk 1, Blk 1], sd_old_size = [2, 2, 2],
     sd_old_checkpoint_entry = 0, sd_new_checkpoint_entry = 0, sd_sorted_pmem_address = 8192, sd_tx_id = 3\<rparr>"

theorem insert_then_lookup_witness:
  "\<exists>s'. insert_log (empty_seq_log 100 100) 7 sample_data = Some s' \<and> seq_wf s' \<and>
    lookup sample_data s' 107 = lookup sample_data (empty_seq_log 100 100) 107 \<and>
    rev_lookup s' 107 = rev_lookup (empty_seq_log 100 100) 107"
proof -
  have "seq_wf (empty_seq_log 100 100)" by (rule empty_seq_log_wf) simp_all
  from insert_then_lookup [OF this, of 7 107 sample_data sample_data] show ?thesis
    by (simp add: seq_key_def)
qed

text \<open>
  On a well-formed log the whole-log scans compute what their names say: \<open>count_higher\<close> the number
  of sequence numbers above the bound, \<open>find_highest_seq_num\<close> the greatest one (-1 for an empty log), and
  \<open>address_lookup\<close> exactly the sequence numbers whose entry has the address, each once, with their count.
\<close>

theorem log_scans:
  assumes "seq_wf s"
  shows "count_higher s q = Some (card {k \<in> dom (seq_abs s). k > q}) \<and>
    find_highest_seq_num s = Some (Max (insert (- 1) (dom (seq_abs s)))) \<and>
    (\<exists>ks. address_lookup s a = Some (length ks, ks) \<and> distinct ks \<and>
       set ks = {k. \<exists>d. seq_abs s k = Some d \<and> sd_address d = a})"
proof -
  let ?ns = "concat (sl_list s)"
  have dist: "distinct (map sn_sequence_number ?ns)" by (rule seq_wfD [OF assms])
  have nodes: "seq_nodes s = Some ?ns" by (rule seq_nodes_wf [OF assms])
  have "{k \<in> dom (seq_abs s). k > q} = sn_sequence_number ` set (filter (\<lambda>n. sn_sequence_number n > q) ?ns)"
    unfolding dom_seq_abs by auto
  also have "card \<dots> = length (filter (\<lambda>n. sn_sequence_number n > q) ?ns)"
  proof -
    have "distinct (map sn_sequence_number (filter (\<lambda>n. sn_sequence_number n > q) ?ns))"
      using dist by (rule distinct_map_filter)
    then show ?thesis by (metis distinct_card length_map list.set_map)
  qed
  finally have 1: "count_higher s q = Some (card {k \<in> dom (seq_abs s). k > q})"
    using nodes by (simp add: count_higher_def fold_count)
  have 2: "find_highest_seq_num s = Some (Max (insert (- 1) (dom (seq_abs s))))"
    unfolding find_highest_seq_num_def nodes dom_seq_abs by (simp add: fold_highest)
  let ?hits = "map sn_sequence_number (filter (\<lambda>n. a = sd_address (sn_ordered_data n)) ?ns)"
  have "address_lookup s a = Some (length ?hits, ?hits)"
    using nodes by (simp add: address_lookup_def fold_address_lookup Let_def)
  moreover have "distinct ?hits" using dist by (rule distinct_map_filter)
  moreover have "set ?hits = {k. \<exists>d. seq_abs s k = Some d \<and> sd_address d = a}"
    unfolding seq_abs_node [OF assms] by auto
  ultimately show ?thesis using 1 2 by blast
qed

theorem log_scans_witness:
  "count_higher (empty_seq_log 100 100) 3 = Some (card {k \<in> dom (seq_abs (empty_seq_log 100 100)). k > 3}) \<and>
   find_highest_seq_num (empty_seq_log 100 100) = Some (- 1)"
proof -
  have "seq_wf (empty_seq_log 100 100)" by (rule empty_seq_log_wf) simp_all
  from log_scans [OF this, of 3 0] show ?thesis by (simp add: empty_seq_log_abs)
qed

text \<open>
  C31: A negative sequence number is not a valid key: unless the remainder happens to be zero, \<open>hashCode\<close>
  yields a negative index and every operation on the log accesses memory before the bucket array.
\<close>

theorem negative_key_undefined:
  assumes "sl_size s = length (sl_list s)" and "0 < sl_size s" and "sl_size s < 2 ^ 31"
    and "- (2 ^ 31) \<le> k" and "k < 0" and "(2 ^ 64 + k) mod int (sl_size s) \<noteq> 0"
  shows "(\<exists>i < 0. hashCode s k = Some i) \<and> lookup u s k = None \<and> rev_lookup s k = None \<and>
    insert_log s k d = None \<and> lookup_modify s k a = None \<and> lookup_undo_save s k a n m = None"
proof -
  let ?r = "(2 ^ 64 + k) mod int (sl_size s)"
  have h: "hashCode s k = Some (- ?r)"
    unfolding hashCode_def using assms by (intro hash_index_negative) simp_all
  have "0 \<le> ?r" using assms(2) by simp
  then have "- ?r < 0" using assms(6) by linarith
  moreover from this have "chain_at (sl_list s) (- ?r) = None" by (simp only: chain_at_def) simp
  ultimately show ?thesis
    unfolding lookup_def rev_lookup_def insert_log_def lookup_modify_def lookup_undo_save_def
    by (auto simp: h)
qed

theorem negative_key_undefined_witness:
  "lookup sample_data (empty_seq_log 100 100) (- 1) = None"
proof -
  have "(2 ^ 64 + - 1) mod int (sl_size (empty_seq_log 100 100)) \<noteq> 0"
    by (simp add: empty_seq_log_def)
  from negative_key_undefined [of "empty_seq_log 100 100" "- 1" sample_data sample_data 0 0
      "\<lparr>heap = [], pm = Map.empty, world = ()\<rparr>", OF _ _ _ _ _ this]
  show ?thesis by (simp add: empty_seq_log_def)
qed

text \<open>
  The transaction log never forgets: inserting succeeds, keeps the log well formed, and puts the new
  entry in front of the earlier ones of the same transaction without touching other transactions, so
  that \<open>tx_lookup\<close> returns the entry inserted last.
\<close>

theorem tx_insert_then_lookup:
  assumes "tx_wf t" and "seq_key k"
  shows "\<exists>t'. tx_insert t k d = Some t' \<and> tx_wf t' \<and> tx_abs t' = (tx_abs t)(k := d # tx_abs t k) \<and>
    tx_lookup u t' k = Some d"
  using tx_insert_abs [OF assms, of d] assms(2) by (auto simp: tx_lookup_abs)

theorem tx_insert_then_lookup_witness:
  "\<exists>t'. tx_insert (empty_tx_log 100) 5 sample_data = Some t' \<and> tx_wf t' \<and>
    tx_abs t' = (\<lambda>_. [])(5 := [sample_data]) \<and> tx_lookup sample_data t' 5 = Some sample_data"
proof -
  have "tx_wf (empty_tx_log 100)" by (rule empty_tx_log_wf) simp_all
  from tx_insert_then_lookup [OF this, of 5 sample_data sample_data] show ?thesis
    by (simp add: seq_key_def empty_tx_log_abs)
qed

end
