(* ===== verification/CheckpointLog.thy ===== *)
theory CheckpointLog
  imports SeqLog
begin

text \<open>
  The checkpoint log (\<open>reactor/include/checkpoint.h\<close>): for every persistent address up to
  \<open>MAX_VERSIONS\<close> logged versions of its contents, hashed by pool offset. Modelled here are the search by
  offset (\<open>reactor/lib/rollback.c\<close>) and the two traversals that build the sequence log and the
  transaction log from it (\<open>order_by_sequence_num\<close>, \<open>order_by_tx_id\<close> in \<open>reactor/lib/checkpoint.c\<close>),
  with every \<open>malloc\<close> and \<open>memcpy\<close> they perform. The lemmas determine the entries and the heap they
  produce exactly; the properties say which logged version is found under which sequence number and
  that each entry owns private copies of the bytes it needs for reversion.
\<close>

section \<open>Data\<close>

record checkpoint_data =
  cd_address :: addr
  cd_offset :: addr
  cd_data :: "ptr list"
  cd_size :: "nat list"
  cd_version :: int
  cd_data_type :: int
  cd_sequence_number :: "int list"
  cd_old_checkpoint_entry :: addr
  cd_new_checkpoint_entry :: addr
  cd_free_flag :: int
  cd_tx_id :: "int list"

record node =
  nd_offset :: addr
  nd_c_data :: checkpoint_data

record checkpoint_log =
  cl_size :: nat
  cl_variable_count :: int
  cl_list :: "node list list"

section \<open>Search by offset\<close>

text \<open>The test \<open>offset < 0\<close> is false for an unsigned offset.\<close>

definition checkpoint_hash :: "nat \<Rightarrow> addr \<Rightarrow> int option" where
  "checkpoint_hash n offset = (if n = 0 then None else Some (to_int32 (uint offset mod int n)))"

definition checkpoint_hashcode :: "checkpoint_log \<Rightarrow> addr \<Rightarrow> int option" where
  "checkpoint_hashcode c_log offset = checkpoint_hash (cl_size c_log) offset"

fun node_chain_find :: "addr \<Rightarrow> node list \<Rightarrow> node option" where
  "node_chain_find old_off [] = None"
| "node_chain_find old_off (temp # rest) =
     (if nd_offset temp = old_off then Some temp else node_chain_find old_off rest)"

text \<open>The outer option is undefined behaviour, the inner one the pointer that may be \<open>NULL\<close>.\<close>

definition search_for_offset :: "addr \<Rightarrow> checkpoint_log \<Rightarrow> node option option" where
  "search_for_offset old_off c_log = do {
     pos \<leftarrow> checkpoint_hashcode c_log old_off;
     chain \<leftarrow> chain_at (cl_list c_log) pos;
     Some (node_chain_find old_off chain)
   }"

section \<open>Building the sequence log and the transaction log\<close>

text \<open>Access to one of the \<open>MAX_VERSIONS\<close> slots of an array field.\<close>

definition slot :: "'a list \<Rightarrow> nat \<Rightarrow> 'a option" where
  "slot xs i = (if i < length xs then Some (xs ! i) else None)"

text \<open>\<open>p = malloc(n); memcpy(p, src, n)\<close>.\<close>

definition copy_buffer :: "ptr \<Rightarrow> nat \<Rightarrow> 'w cmem \<Rightarrow> (ptr \<times> 'w cmem) option" where
  "copy_buffer src n m =
     (let (q, m1) = malloc n m in map_option (\<lambda>m2. (q, m2)) (memcpy q src n m1))"

text \<open>One round of \<open>for (int k = 0; k < j; k++)\<close>.\<close>

definition copy_old_version ::
    "checkpoint_data \<Rightarrow> nat \<Rightarrow> single_data \<times> 'w cmem \<Rightarrow> (single_data \<times> 'w cmem) option" where
  "copy_old_version c k = (\<lambda>(od, m). do {
     n \<leftarrow> slot (cd_size c) k;
     src \<leftarrow> slot (cd_data c) k;
     (q, m') \<leftarrow> copy_buffer src n m;
     _ \<leftarrow> slot (sd_old_data od) k;
     _ \<leftarrow> slot (sd_old_size od) k;
     Some (od\<lparr>sd_old_data := (sd_old_data od)[k := q], sd_old_size := (sd_old_size od)[k := n]\<rparr>, m')
   })"

text \<open>
  The body of the version loop up to the insertion, the same in both traversals. The local variable
  \<open>ordered_data\<close> is declared outside the loops, so fields that are not assigned keep earlier values.
\<close>

definition fill_ordered_data ::
    "node \<Rightarrow> nat \<Rightarrow> single_data \<times> 'w cmem \<Rightarrow> (single_data \<times> 'w cmem) option" where
  "fill_ordered_data temp j = (\<lambda>(od, m). do {
     let c = nd_c_data temp;
     seq_num \<leftarrow> slot (cd_sequence_number c) j;
     n \<leftarrow> slot (cd_size c) j;
     src \<leftarrow> slot (cd_data c) j;
     (q, m1) \<leftarrow> copy_buffer src n m;
     tx \<leftarrow> slot (cd_tx_id c) j;
     let od1 = od\<lparr>sd_address := cd_address c, sd_offset := nd_offset temp, sd_data := q, sd_size := n,
       sd_version := int j, sd_sequence_number := seq_num,
       sd_old_checkpoint_entry := cd_old_checkpoint_entry c, sd_tx_id := tx\<rparr>;
     ofold (copy_old_version c) [0..<j] (od1, m1)
   })"

text \<open>The versions \<open>j = 0, ..., data_index\<close> of a node.\<close>

definition version_indices :: "node \<Rightarrow> nat list" where
  "version_indices temp = [0..<nat (cd_version (nd_c_data temp) + 1)]"

type_synonym 'w order_state = "'w cmem \<times> seq_log \<times> nat \<times> single_data"

definition order_seq_version :: "node \<Rightarrow> nat \<Rightarrow> 'w order_state \<Rightarrow> 'w order_state option" where
  "order_seq_version temp j = (\<lambda>(m, s_log, total_size, od). do {
     (od', m') \<leftarrow> fill_ordered_data temp j (od, m);
     s_log' \<leftarrow> insert_log s_log (sd_sequence_number od') od';
     Some (m', s_log', total_size + 1, od')
   })"

definition order_by_sequence_num :: "checkpoint_log \<Rightarrow> 'w order_state \<Rightarrow> 'w order_state option" where
  "order_by_sequence_num c_log st = do {
     nodes \<leftarrow> chains_upto (int_loop_bound (cl_size c_log)) (cl_list c_log);
     ofold (\<lambda>temp. ofold (order_seq_version temp) (version_indices temp)) nodes st
   }"

type_synonym 'w order_tx_state = "'w cmem \<times> tx_log \<times> single_data"

definition order_tx_version :: "node \<Rightarrow> nat \<Rightarrow> 'w order_tx_state \<Rightarrow> 'w order_tx_state option" where
  "order_tx_version temp j = (\<lambda>(m, t_log, od). do {
     (od', m') \<leftarrow> fill_ordered_data temp j (od, m);
     t_log' \<leftarrow> tx_insert t_log (sd_tx_id od') od';
     Some (m', t_log', od')
   })"

definition order_by_tx_id :: "checkpoint_log \<Rightarrow> 'w order_tx_state \<Rightarrow> 'w order_tx_state option" where
  "order_by_tx_id c_log st = do {
     nodes \<leftarrow> chains_upto (int_loop_bound (cl_size c_log)) (cl_list c_log);
     ofold (\<lambda>temp. ofold (order_tx_version temp) (version_indices temp)) nodes st
   }"

section \<open>Well-formed checkpoint logs\<close>

text \<open>
  A node has three slots per array, a version below \<open>MAX_VERSIONS\<close>, and in the slots up to its version
  pointers into the mapped checkpoint file that can be read for the recorded size.
\<close>

definition node_ok :: "(addr \<Rightarrow> byte option) \<Rightarrow> node \<Rightarrow> bool" where
  "node_ok p temp = (let c = nd_c_data temp in
     length (cd_data c) = MAX_VERSIONS \<and> length (cd_size c) = MAX_VERSIONS \<and>
     length (cd_sequence_number c) = MAX_VERSIONS \<and> length (cd_tx_id c) = MAX_VERSIONS \<and>
     0 \<le> cd_version c \<and> cd_version c < int MAX_VERSIONS \<and>
     list_all (\<lambda>j. case cd_data c ! j of Mapped a \<Rightarrow> mapped_range p a (cd_size c ! j) | Blk _ \<Rightarrow> False)
       (version_indices temp))"

definition clog_wf :: "(addr \<Rightarrow> byte option) \<Rightarrow> checkpoint_log \<Rightarrow> bool" where
  "clog_wf p c_log \<longleftrightarrow> cl_size c_log = length (cl_list c_log) \<and> 0 < cl_size c_log \<and> cl_size c_log < 2 ^ 31 \<and>
     chains_ok (checkpoint_hash (cl_size c_log)) nd_offset (cl_list c_log) \<and>
     list_all (node_ok p) (concat (cl_list c_log))"

definition clog_nodes :: "checkpoint_log \<Rightarrow> node list" where
  "clog_nodes c_log = concat (cl_list c_log)"

text \<open>All logged versions, in the order of the traversals.\<close>

definition clog_versions :: "checkpoint_log \<Rightarrow> (node \<times> nat) list" where
  "clog_versions c_log = concat (map (\<lambda>temp. map (Pair temp) (version_indices temp)) (clog_nodes c_log))"

lemma clog_wfD:
  assumes "clog_wf p c"
  shows "cl_size c = length (cl_list c)" and "0 < length (cl_list c)" and "length (cl_list c) < 2 ^ 31"
    and "chains_ok (checkpoint_hash (length (cl_list c))) nd_offset (cl_list c)"
    and "\<And>n. n \<in> set (clog_nodes c) \<Longrightarrow> node_ok p n"
  using assms unfolding clog_wf_def clog_nodes_def list_all_iff by (metis, metis, metis, metis, blast)

interpretation ckpt_tbl: hash_chain checkpoint_hash nd_offset "\<lambda>n _. 0 < n \<and> n < 2 ^ 31"
proof unfold_locales
  fix n :: nat and k :: addr
  assume n: "0 < n \<and> n < 2 ^ 31"
  let ?i = "unat k mod n"
  have "int n < 2 ^ 31" using n by simp
  moreover have "uint k mod int n = int ?i" by (simp add: zmod_int)
  moreover have "int ?i < int n" using n by simp
  ultimately have "to_int32 (uint k mod int n) = int ?i"
    by (subst to_int32_id) linarith+
  then show "\<exists>i<n. checkpoint_hash n k = Some (int i)"
    using n by (auto simp: checkpoint_hash_def intro!: exI [of _ ?i])
qed

lemma node_chain_find_find: "node_chain_find off c = find (\<lambda>n. nd_offset n = off) c"
  by (induction c) auto

lemma search_for_offset_find:
  assumes "clog_wf p c_log"
  shows "search_for_offset off c_log = Some (find (\<lambda>n. nd_offset n = off) (clog_nodes c_log))"
proof (rule ckpt_tbl.bucket_obtain [OF clog_wfD(4) [OF assms]])
  show "0 < length (cl_list c_log) \<and> length (cl_list c_log) < 2 ^ 31"
    using clog_wfD(2,3) [OF assms] by blast
  fix i
  assume "i < length (cl_list c_log)" and "checkpoint_hash (length (cl_list c_log)) off = Some (int i)"
    and "filter (\<lambda>x. nd_offset x = off) (concat (cl_list c_log)) =
         filter (\<lambda>x. nd_offset x = off) (cl_list c_log ! i)"
  then show ?thesis
    using clog_wfD(1) [OF assms]
    by (simp add: search_for_offset_def checkpoint_hashcode_def node_chain_find_find clog_nodes_def
        find_conv_filter)
qed

section \<open>What the traversals produce\<close>

text \<open>The bytes logged as version \<open>j\<close> of a node.\<close>

definition version_bytes :: "(addr \<Rightarrow> byte option) \<Rightarrow> node \<Rightarrow> nat \<Rightarrow> byte list" where
  "version_bytes p temp j = (case cd_data (nd_c_data temp) ! j of
      Mapped a \<Rightarrow> the (read_mapped p a (cd_size (nd_c_data temp) ! j)) | Blk _ \<Rightarrow> [])"

text \<open>The blocks allocated for one entry, the first of which is block \<open>b\<close>, and the entry itself.\<close>

definition entry_blocks :: "(addr \<Rightarrow> byte option) \<Rightarrow> node \<times> nat \<Rightarrow> byte list list" where
  "entry_blocks p = (\<lambda>(temp, j). version_bytes p temp j # map (version_bytes p temp) [0..<j])"

definition entry_of :: "nat \<Rightarrow> node \<times> nat \<Rightarrow> single_data \<Rightarrow> single_data" where
  "entry_of b = (\<lambda>(temp, j) od. let c = nd_c_data temp in
     od\<lparr>sd_address := cd_address c, sd_offset := nd_offset temp, sd_data := Blk b, sd_size := cd_size c ! j,
       sd_version := int j, sd_sequence_number := cd_sequence_number c ! j,
       sd_old_checkpoint_entry := cd_old_checkpoint_entry c, sd_tx_id := cd_tx_id c ! j,
       sd_old_data := map (\<lambda>k. Blk (b + 1 + k)) [0..<j] @ drop j (sd_old_data od),
       sd_old_size := take j (cd_size c) @ drop j (sd_old_size od)\<rparr>)"

fun entries_of :: "nat \<Rightarrow> (node \<times> nat) list \<Rightarrow> single_data \<Rightarrow> single_data list" where
  "entries_of b [] od = []"
| "entries_of b (v # vs) od = entry_of b v od # entries_of (b + 1 + snd v) vs (entry_of b v od)"

definition last_entry :: "single_data list \<Rightarrow> single_data \<Rightarrow> single_data" where
  "last_entry ds od = (if ds = [] then od else last ds)"

lemma node_ok_version:
  assumes "node_ok p temp" and "j \<in> set (version_indices temp)"
  obtains a where "cd_data (nd_c_data temp) ! j = Mapped a"
    and "read_mapped p a (cd_size (nd_c_data temp) ! j) = Some (version_bytes p temp j)"
    and "length (version_bytes p temp j) = cd_size (nd_c_data temp) ! j"
proof (cases "cd_data (nd_c_data temp) ! j")
  case (Mapped a)
  then have "mapped_range p a (cd_size (nd_c_data temp) ! j)"
    using assms by (auto simp: node_ok_def Let_def list_all_iff)
  from read_mapped_total [OF this] show ?thesis
    using Mapped by (auto intro!: that simp: version_bytes_def)
qed (use assms in \<open>auto simp: node_ok_def Let_def list_all_iff\<close>)

lemma node_ok_index:
  assumes "node_ok p temp" and "j \<in> set (version_indices temp)"
  shows "j < 3" and "k \<le> j \<Longrightarrow> k \<in> set (version_indices temp)"
    and "length (cd_data (nd_c_data temp)) = 3" and "length (cd_size (nd_c_data temp)) = 3"
    and "length (cd_sequence_number (nd_c_data temp)) = 3" and "length (cd_tx_id (nd_c_data temp)) = 3"
  using assms by (auto simp: node_ok_def version_indices_def MAX_VERSIONS_def Let_def)

lemma copy_buffer_mapped:
  assumes "read_mapped (pm m) a n = Some bs"
  shows "copy_buffer (Mapped a) n m = Some (Blk (length (heap m)), m\<lparr>heap := heap m @ [bs]\<rparr>)"
proof -
  have "length bs = n" using assms by (simp add: read_mapped_Some)
  then show ?thesis
    using assms by (simp add: copy_buffer_def malloc_def memcpy_def)
qed

lemma copy_old_versions:
  assumes ok: "node_ok (pm m) temp" and j: "j \<in> set (version_indices temp)" and "i \<le> j"
    and len: "length (sd_old_data od) = 3" "length (sd_old_size od) = 3"
  defines "c \<equiv> nd_c_data temp" and "b \<equiv> length (heap m)"
  shows "ofold (copy_old_version c) [0..<i] (od, m) =
    Some (od\<lparr>sd_old_data := map (\<lambda>k. Blk (b + k)) [0..<i] @ drop i (sd_old_data od),
             sd_old_size := take i (cd_size c) @ drop i (sd_old_size od)\<rparr>,
          m\<lparr>heap := heap m @ map (version_bytes (pm m) temp) [0..<i]\<rparr>)"
  using \<open>i \<le> j\<close>
proof (induction i)
  case (Suc i)
  have i: "i < 3" and iv: "i \<in> set (version_indices temp)"
    and lens: "length (cd_data c) = 3" "length (cd_size c) = 3"
    using node_ok_index [OF ok j] Suc.prems by (auto simp: c_def)
  obtain a where a: "cd_data c ! i = Mapped a"
    "read_mapped (pm m) a (cd_size c ! i) = Some (version_bytes (pm m) temp i)"
    using node_ok_version [OF ok iv] unfolding c_def by metis
  show ?case
    using Suc.IH Suc.prems i lens a len
    by (simp add: ofold_append copy_old_version_def slot_def b_def copy_buffer_mapped
        list_update_append Cons_nth_drop_Suc [symmetric] take_Suc_conv_app_nth)
qed simp

lemma fill_ordered_data_eq:
  assumes ok: "node_ok (pm m) temp" and j: "j \<in> set (version_indices temp)"
    and len: "length (sd_old_data od) = 3" "length (sd_old_size od) = 3"
  shows "fill_ordered_data temp j (od, m) =
    Some (entry_of (length (heap m)) (temp, j) od,
          m\<lparr>heap := heap m @ entry_blocks (pm m) (temp, j)\<rparr>)"
proof -
  let ?c = "nd_c_data temp"
  obtain a where a: "cd_data ?c ! j = Mapped a"
    "read_mapped (pm m) a (cd_size ?c ! j) = Some (version_bytes (pm m) temp j)"
    using node_ok_version [OF ok j] by metis
  define m1 where "m1 = m\<lparr>heap := heap m @ [version_bytes (pm m) temp j]\<rparr>"
  define od1 where "od1 = od\<lparr>sd_address := cd_address ?c, sd_offset := nd_offset temp,
       sd_data := Blk (length (heap m)), sd_size := cd_size ?c ! j,
       sd_version := int j, sd_sequence_number := cd_sequence_number ?c ! j,
       sd_old_checkpoint_entry := cd_old_checkpoint_entry ?c, sd_tx_id := cd_tx_id ?c ! j\<rparr>"
  have "copy_buffer (Mapped a) (cd_size ?c ! j) m = Some (Blk (length (heap m)), m1)"
    using copy_buffer_mapped [OF a(2)] by (simp add: m1_def)
  then have "fill_ordered_data temp j (od, m) = ofold (copy_old_version ?c) [0..<j] (od1, m1)"
    using node_ok_index [OF ok j] a(1)
    by (simp add: fill_ordered_data_def slot_def Let_def od1_def)
  also have "\<dots> = Some (od1\<lparr>sd_old_data := map (\<lambda>k. Blk (length (heap m1) + k)) [0..<j] @ drop j (sd_old_data od1),
             sd_old_size := take j (cd_size ?c) @ drop j (sd_old_size od1)\<rparr>,
          m1\<lparr>heap := heap m1 @ map (version_bytes (pm m1) temp) [0..<j]\<rparr>)"
    by (rule copy_old_versions [OF _ j]) (use ok len in \<open>simp_all add: m1_def od1_def\<close>)
  finally show ?thesis
    by (simp add: m1_def od1_def entry_of_def entry_blocks_def Let_def)
qed


section \<open>The whole traversals\<close>

lemma ofold_nested:
  "ofold (\<lambda>t. ofold (f t) (g t)) ts s = ofold (\<lambda>(t, j). f t j) (concat (map (\<lambda>t. map (Pair t) (g t)) ts)) s"
proof (induction ts arbitrary: s)
  case (Cons t ts)
  have "ofold (\<lambda>(t, j). f t j) (map (Pair t) js) s = ofold (f t) js s" for js s
    by (induction js arbitrary: s) (auto split: bind_splits)
  then show ?case using Cons.IH by (simp add: ofold_append) (metis ext)
qed simp

lemma entry_of_lengths:
  assumes "node_ok p temp" and "j \<in> set (version_indices temp)"
    and "length (sd_old_data od) = 3" and "length (sd_old_size od) = 3"
  shows "length (sd_old_data (entry_of b (temp, j) od)) = 3" and "length (sd_old_size (entry_of b (temp, j) od)) = 3"
  using assms node_ok_index [OF assms(1,2)] by (simp_all add: entry_of_def Let_def)

lemma entry_blocks_length: "length (entry_blocks p (temp, j)) = 1 + j"
  by (simp add: entry_blocks_def)

lemma clog_versions_ok:
  "clog_wf p c \<Longrightarrow> (temp, j) \<in> set (clog_versions c) \<Longrightarrow> node_ok p temp \<and> j \<in> set (version_indices temp)"
  using clog_wfD(5) by (auto simp: clog_versions_def)

lemma order_seq_versions:
  assumes "\<forall>(temp, j) \<in> set vs. node_ok (pm m) temp \<and> j \<in> set (version_indices temp)"
    and "length (sd_old_data od) = 3" "length (sd_old_size od) = 3"
  shows "ofold (\<lambda>(temp, j). order_seq_version temp j) vs (m, s, t, od) =
    (let ds = entries_of (length (heap m)) vs od in
     map_option (\<lambda>s'. (m\<lparr>heap := heap m @ concat (map (entry_blocks (pm m)) vs)\<rparr>, s', t + length vs, last_entry ds od))
       (ofold (\<lambda>(k, d) l. insert_log l k d) (map (\<lambda>d. (sd_sequence_number d, d)) ds) s))"
  using assms
proof (induction vs arbitrary: m s t od)
  case (Cons v vs)
  obtain temp j where v: "v = (temp, j)" by force
  have ok: "node_ok (pm m) temp" "j \<in> set (version_indices temp)" using Cons.prems(1) v by auto
  let ?d = "entry_of (length (heap m)) (temp, j) od"
  show ?case
    using fill_ordered_data_eq [OF ok Cons.prems(2,3)] Cons.IH Cons.prems(1) entry_of_lengths [OF ok Cons.prems(2,3)]
    by (cases "insert_log s (sd_sequence_number ?d) ?d")
       (auto simp: v order_seq_version_def Let_def entry_blocks_length last_entry_def)
qed (simp add: last_entry_def)

lemma order_tx_versions:
  assumes "\<forall>(temp, j) \<in> set vs. node_ok (pm m) temp \<and> j \<in> set (version_indices temp)"
    and "length (sd_old_data od) = 3" "length (sd_old_size od) = 3"
  shows "ofold (\<lambda>(temp, j). order_tx_version temp j) vs (m, s, od) =
    (let ds = entries_of (length (heap m)) vs od in
     map_option (\<lambda>s'. (m\<lparr>heap := heap m @ concat (map (entry_blocks (pm m)) vs)\<rparr>, s', last_entry ds od))
       (ofold (\<lambda>(k, d) l. tx_insert l k d) (map (\<lambda>d. (sd_tx_id d, d)) ds) s))"
  using assms
proof (induction vs arbitrary: m s od)
  case (Cons v vs)
  obtain temp j where v: "v = (temp, j)" by force
  have ok: "node_ok (pm m) temp" "j \<in> set (version_indices temp)" using Cons.prems(1) v by auto
  let ?d = "entry_of (length (heap m)) (temp, j) od"
  show ?case
    using fill_ordered_data_eq [OF ok Cons.prems(2,3)] Cons.IH Cons.prems(1) entry_of_lengths [OF ok Cons.prems(2,3)]
    by (cases "tx_insert s (sd_tx_id ?d) ?d")
       (auto simp: v order_tx_version_def Let_def entry_blocks_length last_entry_def)
qed (simp add: last_entry_def)


section \<open>Contents and ownership of the entries\<close>

text \<open>The buffers an entry reads or writes in a reversion, and what a faithful entry records.\<close>

definition own_ptrs :: "single_data \<Rightarrow> ptr list" where
  "own_ptrs d = sd_data d # take (nat (sd_version d)) (sd_old_data d)"

definition entry_logs :: "'w cmem \<Rightarrow> node \<times> nat \<Rightarrow> single_data \<Rightarrow> bool" where
  "entry_logs m = (\<lambda>(temp, j) d. let c = nd_c_data temp in
     sd_address d = cd_address c \<and> sd_offset d = nd_offset temp \<and> sd_version d = int j \<and>
     sd_sequence_number d = cd_sequence_number c ! j \<and> sd_tx_id d = cd_tx_id c ! j \<and>
     sd_old_checkpoint_entry d = cd_old_checkpoint_entry c \<and> sd_size d = cd_size c ! j \<and>
     load_bytes m (sd_data d) (sd_size d) = Some (version_bytes (pm m) temp j) \<and>
     length (sd_old_data d) = 3 \<and> length (sd_old_size d) = 3 \<and>
     (\<forall>k < j. sd_old_size d ! k = cd_size c ! k \<and>
        load_bytes m (sd_old_data d ! k) (sd_old_size d ! k) = Some (version_bytes (pm m) temp k)))"

lemma entry_of_own:
  "length (sd_old_data od) = 3 \<Longrightarrow> own_ptrs (entry_of b (temp, j) od) = map Blk [b..<b + 1 + j]"
proof -
  have "map (\<lambda>k. Blk (b + 1 + k)) [0..<j] = map Blk [b + 1..<b + 1 + j]"
    by (intro nth_equalityI) (simp_all del: upt_Suc)
  then show ?thesis
    by (simp add: own_ptrs_def entry_of_def Let_def upt_conv_Cons del: upt_Suc)
qed

lemma entries_own:
  assumes "\<forall>(temp, j) \<in> set vs. node_ok p temp \<and> j \<in> set (version_indices temp)"
    and "length (sd_old_data od) = 3" "length (sd_old_size od) = 3"
  shows "concat (map own_ptrs (entries_of b vs od)) = map Blk [b..<b + length (concat (map (entry_blocks p) vs))]"
  using assms
proof (induction vs arbitrary: b od)
  case (Cons v vs)
  obtain temp j where v: "v = (temp, j)" by force
  have ok: "node_ok p temp" "j \<in> set (version_indices temp)" using Cons.prems(1) v by auto
  let ?n = "length (concat (map (entry_blocks p) vs))"
  have "[b..<b + 1 + j] @ [b + 1 + j..<b + 1 + j + ?n] = [b..<b + 1 + j + ?n]"
    using upt_add_eq_append [of b "b + 1 + j" ?n] by simp
  then show ?case
    using Cons.IH [of "entry_of b v od" "b + 1 + j"] Cons.prems entry_of_lengths [OF ok Cons.prems(2,3)]
      entry_of_own [OF Cons.prems(2), of b temp j]
    by (simp add: v entry_blocks_length add.assoc del: upt_Suc flip: map_append)
qed simp

lemma entry_of_logs:
  assumes ok: "node_ok (pm m) temp" "j \<in> set (version_indices temp)"
    and len: "length (sd_old_data od) = 3" "length (sd_old_size od) = 3"
    and heap: "heap m = pre @ entry_blocks (pm m) (temp, j) @ post" and b: "b = length pre"
  shows "entry_logs m (temp, j) (entry_of b (temp, j) od)"
proof -
  have size: "length (version_bytes (pm m) temp k) = cd_size (nd_c_data temp) ! k" if "k \<le> j" for k
    using node_ok_version [OF ok(1) node_ok_index(2) [OF ok that]] by blast
  have nth: "heap m ! (b + i) = entry_blocks (pm m) (temp, j) ! i" if "i < 1 + j" for i
    using that heap b by (simp add: nth_append entry_blocks_length)
  have "load_bytes m (Blk b) (cd_size (nd_c_data temp) ! j) = Some (version_bytes (pm m) temp j)"
    using nth [of 0] heap b size [of j] by (simp add: entry_blocks_def)
  moreover have "load_bytes m (Blk (b + 1 + k)) (cd_size (nd_c_data temp) ! k) = Some (version_bytes (pm m) temp k)"
    if "k < j" for k
    using nth [of "Suc k"] that heap b size [of k] by (simp add: entry_blocks_def)
  ultimately show ?thesis
    using node_ok_index [OF ok] len by (auto simp: entry_logs_def entry_of_def Let_def nth_append)
qed

lemma entries_logs:
  assumes "\<forall>(temp, j) \<in> set vs. node_ok (pm m) temp \<and> j \<in> set (version_indices temp)"
    and "length (sd_old_data od) = 3" "length (sd_old_size od) = 3"
    and "heap m = pre @ concat (map (entry_blocks (pm m)) vs)" and "b = length pre"
  shows "list_all2 (entry_logs m) vs (entries_of b vs od)"
  using assms
proof (induction vs arbitrary: b od pre)
  case (Cons v vs)
  obtain temp j where v: "v = (temp, j)" by force
  have ok: "node_ok (pm m) temp" "j \<in> set (version_indices temp)" using Cons.prems(1) v by auto
  have "entry_logs m v (entry_of b v od)"
    using entry_of_logs [OF ok Cons.prems(2,3), of pre] Cons.prems(4,5) by (simp add: v)
  moreover have "list_all2 (entry_logs m) vs (entries_of (b + 1 + j) vs (entry_of b v od))"
    using Cons.IH [of "entry_of b v od" "pre @ entry_blocks (pm m) v" "b + 1 + j"]
      entry_of_lengths [OF ok Cons.prems(2,3)] Cons.prems by (simp add: v entry_blocks_length)
  ultimately show ?case by (simp add: v)
qed simp


section \<open>Properties\<close>

text \<open>
  The log a reversion can work on: every entry is stored under its own sequence number, has three slots
  for older versions, and its buffers are readable and belong to no other entry.
\<close>

definition entry_ready :: "'w cmem \<Rightarrow> single_data \<Rightarrow> bool" where
  "entry_ready m d \<longleftrightarrow> length (sd_old_data d) = 3 \<and> length (sd_old_size d) = 3 \<and>
     0 \<le> sd_version d \<and> sd_version d < 3 \<and> distinct (own_ptrs d) \<and>
     list_all (\<lambda>q. case q of Blk _ \<Rightarrow> True | Mapped _ \<Rightarrow> False) (own_ptrs d) \<and>
     load_bytes m (sd_data d) (sd_size d) \<noteq> None \<and>
     (\<forall>k < nat (sd_version d). load_bytes m (sd_old_data d ! k) (sd_old_size d ! k) \<noteq> None)"

definition log_ready :: "'w cmem \<Rightarrow> seq_log \<Rightarrow> bool" where
  "log_ready m s \<longleftrightarrow> seq_wf s \<and>
     (\<forall>k d. seq_abs s k = Some d \<longrightarrow> sd_sequence_number d = k \<and> entry_ready m d) \<and>
     (\<forall>k d k' d'. seq_abs s k = Some d \<and> seq_abs s k' = Some d' \<and> k \<noteq> k' \<longrightarrow>
        set (own_ptrs d) \<inter> set (own_ptrs d') = {})"

definition version_seq :: "node \<times> nat \<Rightarrow> int" where
  "version_seq = (\<lambda>(temp, j). cd_sequence_number (nd_c_data temp) ! j)"

lemma distinct_concat_disjoint:
  "distinct (concat (map f xs)) \<Longrightarrow> x \<in> set xs \<Longrightarrow> y \<in> set xs \<Longrightarrow> x \<noteq> y \<Longrightarrow> set (f x) \<inter> set (f y) = {}"
  by (induction xs) auto

lemma entry_logs_ready:
  assumes "entry_logs m (temp, j) d" and "j < 3" and "distinct (own_ptrs d)"
    and "\<forall>q \<in> set (own_ptrs d). \<exists>b. q = Blk b"
  shows "sd_sequence_number d = version_seq (temp, j) \<and> entry_ready m d"
  using assms by (auto simp: entry_logs_def entry_ready_def version_seq_def Let_def list_all_iff
      simp del: load_bytes.simps)

lemma entries_of_ready:
  assumes ok: "\<forall>(temp, j) \<in> set vs. node_ok (pm m) temp \<and> j \<in> set (version_indices temp)"
    and len: "length (sd_old_data od) = 3" "length (sd_old_size od) = 3"
    and heap: "heap m = pre @ concat (map (entry_blocks (pm m)) vs)"
  defines "ds \<equiv> entries_of (length pre) vs od"
  shows "list_all2 (entry_logs m) vs ds" and "list_all2 (\<lambda>v d. sd_sequence_number d = version_seq v) vs ds"
    and "\<And>d. d \<in> set ds \<Longrightarrow> entry_ready m d"
    and "\<And>d d'. d \<in> set ds \<Longrightarrow> d' \<in> set ds \<Longrightarrow> d \<noteq> d' \<Longrightarrow> set (own_ptrs d) \<inter> set (own_ptrs d') = {}"
proof -
  have own: "concat (map own_ptrs ds) = map Blk [length pre..<length (heap m)]"
    using entries_own [OF ok len, of "length pre"] heap by (simp add: ds_def)
  then have dist: "distinct (concat (map own_ptrs ds))"
    by (simp add: distinct_map inj_on_def)
  have blk: "\<exists>b. q = Blk b" if "d \<in> set ds" "q \<in> set (own_ptrs d)" for d q
  proof -
    have "q \<in> set (concat (map own_ptrs ds))" using that by auto
    then show ?thesis unfolding own by auto
  qed
  show logs: "list_all2 (entry_logs m) vs ds"
    unfolding ds_def by (rule entries_logs [OF ok len heap refl])
  have each: "sd_sequence_number d = version_seq v \<and> entry_ready m d"
    if "(v, d) \<in> set (zip vs ds)" for v d
  proof -
    obtain temp j where v: "v = (temp, j)" by force
    have mem: "v \<in> set vs" "d \<in> set ds" using that by (meson set_zip_leftD set_zip_rightD)+
    then have "j < 3" using ok v node_ok_index(1) by fastforce
    moreover have "entry_logs m (temp, j) d" using logs that v by (auto simp: list_all2_iff)
    moreover have "distinct (own_ptrs d)" using dist mem(2) by (auto simp: distinct_concat_iff)
    ultimately show ?thesis using entry_logs_ready blk [OF mem(2)] v by blast
  qed
  then show "list_all2 (\<lambda>v d. sd_sequence_number d = version_seq v) vs ds"
    using logs by (auto simp: list_all2_iff)
  show "entry_ready m d" if "d \<in> set ds" for d
  proof -
    obtain i where "i < length ds" "d = ds ! i" using \<open>d \<in> set ds\<close> by (metis in_set_conv_nth)
    then have "(vs ! i, d) \<in> set (zip vs ds)" using list_all2_lengthD [OF logs] by (force simp: set_zip)
    then show ?thesis using each by blast
  qed
  show "set (own_ptrs d) \<inter> set (own_ptrs d') = {}" if "d \<in> set ds" "d' \<in> set ds" "d \<noteq> d'" for d d'
    by (rule distinct_concat_disjoint [OF dist that])
qed


lemma order_by_sequence_num_eq:
  assumes "clog_wf (pm m) c" and "length (sd_old_data od) = 3" "length (sd_old_size od) = 3"
  shows "order_by_sequence_num c (m, s, t, od) =
    (let vs = clog_versions c; ds = entries_of (length (heap m)) vs od in
     map_option (\<lambda>s'. (m\<lparr>heap := heap m @ concat (map (entry_blocks (pm m)) vs)\<rparr>, s', t + length vs, last_entry ds od))
       (ofold (\<lambda>(k, d) l. insert_log l k d) (map (\<lambda>d. (sd_sequence_number d, d)) ds) s))"
proof -
  have "order_by_sequence_num c (m, s, t, od) = ofold (\<lambda>(temp, j). order_seq_version temp j) (clog_versions c) (m, s, t, od)"
    using clog_wfD(1,3) [OF assms(1)]
    by (simp add: order_by_sequence_num_def int_loop_bound_id ofold_nested clog_versions_def clog_nodes_def)
  moreover have "\<forall>(temp, j) \<in> set (clog_versions c). node_ok (pm m) temp \<and> j \<in> set (version_indices temp)"
    using clog_versions_ok [OF assms(1)] by blast
  ultimately show ?thesis by (simp only: order_seq_versions [OF _ assms(2,3)] Let_def)
qed

lemma order_by_tx_id_eq:
  assumes "clog_wf (pm m) c" and "length (sd_old_data od) = 3" "length (sd_old_size od) = 3"
  shows "order_by_tx_id c (m, t, od) =
    (let vs = clog_versions c; ds = entries_of (length (heap m)) vs od in
     map_option (\<lambda>t'. (m\<lparr>heap := heap m @ concat (map (entry_blocks (pm m)) vs)\<rparr>, t', last_entry ds od))
       (ofold (\<lambda>(k, d) l. tx_insert l k d) (map (\<lambda>d. (sd_tx_id d, d)) ds) t))"
proof -
  have "order_by_tx_id c (m, t, od) = ofold (\<lambda>(temp, j). order_tx_version temp j) (clog_versions c) (m, t, od)"
    using clog_wfD(1,3) [OF assms(1)]
    by (simp add: order_by_tx_id_def int_loop_bound_id ofold_nested clog_versions_def clog_nodes_def)
  moreover have "\<forall>(temp, j) \<in> set (clog_versions c). node_ok (pm m) temp \<and> j \<in> set (version_indices temp)"
    using clog_versions_ok [OF assms(1)] by blast
  ultimately show ?thesis by (simp only: order_tx_versions [OF _ assms(2,3)] Let_def)
qed

lemma sequence_log_built:
  assumes wf: "clog_wf (pm m) c" and s: "seq_wf s" "seq_abs s = Map.empty"
    and len: "length (sd_old_data od) = 3" "length (sd_old_size od) = 3"
    and dist: "distinct (map version_seq (clog_versions c))"
    and keys: "\<forall>v \<in> set (clog_versions c). seq_key (version_seq v)"
  shows "\<exists>m' s' od'. order_by_sequence_num c (m, s, t, od) = Some (m', s', t + length (clog_versions c), od') \<and>
    (\<exists>blocks. m' = m\<lparr>heap := heap m @ blocks\<rparr>) \<and> sl_size s' = sl_size s \<and> log_ready m' s' \<and>
    dom (seq_abs s') = version_seq ` set (clog_versions c) \<and>
    (\<forall>v \<in> set (clog_versions c). \<exists>d. seq_abs s' (version_seq v) = Some d \<and> entry_logs m' v d)"
proof -
  let ?vs = "clog_versions c"
  define m' where "m' = m\<lparr>heap := heap m @ concat (map (entry_blocks (pm m)) ?vs)\<rparr>"
  define ds where "ds = entries_of (length (heap m)) ?vs od"
  have ok: "\<forall>(temp, j) \<in> set ?vs. node_ok (pm m') temp \<and> j \<in> set (version_indices temp)"
    using clog_versions_ok [OF wf] by (auto simp: m'_def)
  have "heap m' = heap m @ concat (map (entry_blocks (pm m')) ?vs)" by (simp add: m'_def)
  note ready = entries_of_ready [OF ok len this, folded ds_def]
  have seqs: "map sd_sequence_number ds = map version_seq ?vs"
    using ready(2) by (auto simp: list_all2_conv_all_nth intro: nth_equalityI)
  let ?kvs = "map (\<lambda>d. (sd_sequence_number d, d)) ds"
  have "\<forall>(k, d) \<in> set ?kvs. seq_key k"
  proof clarsimp
    fix d assume "d \<in> set ds"
    then have "sd_sequence_number d \<in> version_seq ` set ?vs" by (metis seqs image_eqI set_map)
    then show "seq_key (sd_sequence_number d)" using keys by auto
  qed
  moreover have "distinct (map fst ?kvs)" using seqs dist by (simp add: comp_def)
  ultimately obtain s' where s': "ofold (\<lambda>(k, d) l. insert_log l k d) ?kvs s = Some s'" "seq_wf s'"
    "\<forall>k d. seq_abs s' k = Some d \<longleftrightarrow> (k, d) \<in> set ?kvs"
    using seq_map.ins_all_distinct [OF s(1), of ?kvs] s(2) by fastforce
  have run: "order_by_sequence_num c (m, s, t, od) = Some (m', s', t + length ?vs, last_entry ds od)"
    using order_by_sequence_num_eq [OF wf len] s'(1) by (simp add: Let_def m'_def ds_def)
  have abs: "seq_abs s' k = Some d \<longleftrightarrow> d \<in> set ds \<and> k = sd_sequence_number d" for k d
    using s'(3) by auto
  have "log_ready m' s'"
    unfolding log_ready_def using s'(2) abs ready(3,4) by metis
  moreover have "dom (seq_abs s') = version_seq ` set ?vs"
  proof -
    have "dom (seq_abs s') = set (map sd_sequence_number ds)" using abs by (auto simp: dom_def)
    then show ?thesis unfolding seqs by simp
  qed
  moreover have "\<exists>d. seq_abs s' (version_seq v) = Some d \<and> entry_logs m' v d" if "v \<in> set ?vs" for v
  proof -
    obtain i where i: "i < length ?vs" "v = ?vs ! i" using \<open>v \<in> set ?vs\<close> by (metis in_set_conv_nth)
    have "entry_logs m' v (ds ! i)" and n: "sd_sequence_number (ds ! i) = version_seq v"
      unfolding i(2) by (rule list_all2_nthD [OF ready(1) i(1)], rule list_all2_nthD [OF ready(2) i(1)])
    moreover have "ds ! i \<in> set ds" using i(1) list_all2_lengthD [OF ready(1)] by simp
    then have "seq_abs s' (version_seq v) = Some (ds ! i)" using abs [of "version_seq v" "ds ! i"] n by simp
    ultimately show ?thesis by (intro exI [of _ "ds ! i"]) simp
  qed
  ultimately show ?thesis using run insert_all_size [OF s'(1)] by (intro exI [of _ m'] exI [of _ s']) (auto simp: m'_def)
qed


text \<open>
  C10: On a well-formed checkpoint log whose logged versions carry distinct non-negative sequence
  numbers, \<open>order_by_sequence_num\<close> never leaves its buffers, counts every logged version, leaves persistent
  memory as it is, and fills the empty sequence log with exactly one faithful entry per version: address,
  offset, sizes, transaction and a private copy of the bytes of this and of every older version.
\<close>

theorem order_by_sequence_num_builds_log:
  assumes wf: "clog_wf (pm m) c" and s: "seq_wf s" "seq_abs s = Map.empty"
    and len: "length (sd_old_data od) = 3" "length (sd_old_size od) = 3"
    and dist: "distinct (map version_seq (clog_versions c))"
    and keys: "\<forall>v \<in> set (clog_versions c). seq_key (version_seq v)"
  shows "\<exists>m' s' od'. order_by_sequence_num c (m, s, t, od) = Some (m', s', t + length (clog_versions c), od') \<and>
    pm m' = pm m \<and> world m' = world m \<and> log_ready m' s' \<and>
    dom (seq_abs s') = version_seq ` set (clog_versions c) \<and>
    (\<forall>v \<in> set (clog_versions c). \<exists>d. seq_abs s' (version_seq v) = Some d \<and> entry_logs m' v d)"
  using sequence_log_built [OF assms, of t] by fastforce

definition sample_clog :: checkpoint_log where
  "sample_clog = (let
     c1 = \<lparr>cd_address = 4096, cd_offset = 4096, cd_data = [Mapped 0, Mapped 8, Mapped 0], cd_size = [2, 2, 0],
       cd_version = 1, cd_data_type = 0, cd_sequence_number = [3, 5, 0], cd_old_checkpoint_entry = 0,
       cd_new_checkpoint_entry = 0, cd_free_flag = 0, cd_tx_id = [1, 2, 0]\<rparr>;
     c2 = c1\<lparr>cd_address := 8192, cd_offset := 8192, cd_data := [Mapped 16, Mapped 0, Mapped 0], cd_size := [1, 0, 0],
       cd_version := 0, cd_sequence_number := [4, 0, 0], cd_tx_id := [2, 0, 0]\<rparr>
   in \<lparr>cl_size = 2, cl_variable_count = 2,
       cl_list = [[\<lparr>nd_offset = 4096, nd_c_data = c1\<rparr>, \<lparr>nd_offset = 8192, nd_c_data = c2\<rparr>], []]\<rparr>)"

definition sample_mem :: "unit cmem" where
  "sample_mem = \<lparr>heap = [], pm = (\<lambda>x. if x < 32 then Some (ucast x) else None), world = ()\<rparr>"

lemma upto_small: "[0..<2] = [0, Suc 0]" "[0..<Suc 0] = [0]" "[0..<Suc (Suc 0)] = [0, Suc 0]"
  by (simp_all add: upt_rec)

lemma sample_clog_wf: "clog_wf (pm sample_mem) sample_clog"
proof -
  have "chains_ok (checkpoint_hash 2) nd_offset (cl_list sample_clog)"
    by (simp add: sample_clog_def chains_ok_def checkpoint_hash_def to_int32_def Let_def less_Suc_eq numeral_2_eq_2)
  moreover have "list_all (node_ok (pm sample_mem)) (concat (cl_list sample_clog))"
    by (simp add: sample_clog_def sample_mem_def node_ok_def version_indices_def MAX_VERSIONS_def mapped_range_def
        Let_def upto_small)
  ultimately show ?thesis by (simp add: clog_wf_def) (simp add: sample_clog_def Let_def)
qed

lemma sample_clog_versions: "map version_seq (clog_versions sample_clog) = [3, 5, 4]"
  by (simp add: sample_clog_def clog_versions_def clog_nodes_def version_indices_def version_seq_def
      Let_def upto_small)

theorem order_by_sequence_num_builds_log_witness:
  "\<exists>m' s' od'. order_by_sequence_num sample_clog (sample_mem, empty_seq_log 100 100, 0, sample_data)
      = Some (m', s', 3, od') \<and> log_ready m' s' \<and> dom (seq_abs s') = {3, 4, 5}"
proof -
  have wf: "seq_wf (empty_seq_log 100 100)" by (rule empty_seq_log_wf) simp_all
  have n: "length (clog_versions sample_clog) = 3"
    using arg_cong [OF sample_clog_versions, of length] by simp
  have k: "version_seq ` set (clog_versions sample_clog) = {3, 4, 5}"
    using arg_cong [OF sample_clog_versions, of set] by auto
  then have keys: "\<forall>v \<in> set (clog_versions sample_clog). seq_key (version_seq v)"
    by (auto simp: seq_key_def dest!: equalityD1)
  have dist: "distinct (map version_seq (clog_versions sample_clog))"
    unfolding sample_clog_versions by simp
  from order_by_sequence_num_builds_log [OF sample_clog_wf wf empty_seq_log_abs _ _ dist keys, of sample_data 0]
  show ?thesis unfolding n k by (auto simp: sample_data_def)
qed

lemma tx_log_built:
  assumes wf: "clog_wf (pm m) c" and t: "tx_wf t" "tx_abs t = (\<lambda>_. [])"
    and len: "length (sd_old_data od) = 3" "length (sd_old_size od) = 3"
    and keys: "\<forall>(temp, j) \<in> set (clog_versions c). seq_key (cd_tx_id (nd_c_data temp) ! j)"
  shows "\<exists>m' t' od'. order_by_tx_id c (m, t, od) = Some (m', t', od') \<and> (\<exists>blocks. m' = m\<lparr>heap := heap m @ blocks\<rparr>) \<and> tl_size t' = tl_size t \<and> tx_wf t' \<and>
    (\<forall>k. list_all2 (entry_logs m') (rev (filter (\<lambda>(temp, j). cd_tx_id (nd_c_data temp) ! j = k) (clog_versions c)))
       (tx_abs t' k))"
proof -
  let ?vs = "clog_versions c"
  define m' where "m' = m\<lparr>heap := heap m @ concat (map (entry_blocks (pm m)) ?vs)\<rparr>"
  define ds where "ds = entries_of (length (heap m)) ?vs od"
  have ok: "\<forall>(temp, j) \<in> set ?vs. node_ok (pm m') temp \<and> j \<in> set (version_indices temp)"
    using clog_versions_ok [OF wf] by (auto simp: m'_def)
  have "heap m' = heap m @ concat (map (entry_blocks (pm m')) ?vs)" by (simp add: m'_def)
  note logs = entries_of_ready(1) [OF ok len this, folded ds_def]
  let ?kvs = "map (\<lambda>d. (sd_tx_id d, d)) ds"
  have tx: "sd_tx_id d = (\<lambda>(temp, j). cd_tx_id (nd_c_data temp) ! j) v" if "entry_logs m' v d" for v d
    using that by (auto simp: entry_logs_def Let_def split: prod.splits)
  have "\<forall>d \<in> set ds. seq_key (sd_tx_id d)"
  proof
    fix d assume "d \<in> set ds"
    then obtain v where "v \<in> set ?vs" "entry_logs m' v d"
      using logs by (metis in_set_conv_nth list_all2_conv_all_nth)
    then show "seq_key (sd_tx_id d)" using tx keys by fastforce
  qed
  then obtain t' where t': "ofold (\<lambda>(k, d) l. tx_insert l k d) ?kvs t = Some t'" "tx_wf t'"
    "\<forall>k. tx_abs t' k = rev (map snd (filter (\<lambda>kv. fst kv = k) ?kvs)) @ tx_abs t k"
    using tx_map.ins_all [OF t(1), of ?kvs] by auto
  have run: "order_by_tx_id c (m, t, od) = Some (m', t', last_entry ds od)"
    using order_by_tx_id_eq [OF wf len] t'(1) by (simp add: Let_def m'_def ds_def)
  have "list_all2 (entry_logs m') (rev (filter (\<lambda>(temp, j). cd_tx_id (nd_c_data temp) ! j = k) ?vs)) (tx_abs t' k)" for k
  proof -
    have "tx_abs t' k = rev (filter (\<lambda>d. sd_tx_id d = k) ds)"
      using t'(3) t(2) by (simp add: filter_map comp_def)
    moreover have "list_all2 (entry_logs m') (filter (\<lambda>(temp, j). cd_tx_id (nd_c_data temp) ! j = k) ?vs)
        (filter (\<lambda>d. sd_tx_id d = k) ds)"
      using logs by (induction rule: list_all2_induct) (auto dest: tx)
    ultimately show ?thesis by simp
  qed
  then show ?thesis using run t'(2) tx_insert_all_size [OF t'(1)] by (intro exI [of _ m'] exI [of _ t']) (auto simp: m'_def)
qed

text \<open>
  On a well-formed checkpoint log \<open>order_by_tx_id\<close> never leaves its buffers and stacks, for each
  transaction, exactly the entries of the versions logged in it, the last one visited first, each with
  private copies of the bytes.
\<close>

theorem order_by_tx_id_builds_log:
  assumes wf: "clog_wf (pm m) c" and t: "tx_wf t" "tx_abs t = (\<lambda>_. [])"
    and len: "length (sd_old_data od) = 3" "length (sd_old_size od) = 3"
    and keys: "\<forall>(temp, j) \<in> set (clog_versions c). seq_key (cd_tx_id (nd_c_data temp) ! j)"
  shows "\<exists>m' t' od'. order_by_tx_id c (m, t, od) = Some (m', t', od') \<and> pm m' = pm m \<and> tx_wf t' \<and>
    (\<forall>k. list_all2 (entry_logs m') (rev (filter (\<lambda>(temp, j). cd_tx_id (nd_c_data temp) ! j = k) (clog_versions c)))
       (tx_abs t' k))"
  using tx_log_built [OF assms] by fastforce

theorem order_by_tx_id_builds_log_witness:
  "\<exists>m' t' od'. order_by_tx_id sample_clog (sample_mem, empty_tx_log 100, sample_data) = Some (m', t', od') \<and>
    pm m' = pm sample_mem \<and> tx_wf t' \<and> length (tx_abs t' 2) = 2 \<and> length (tx_abs t' 1) = 1"
proof -
  have wf: "tx_wf (empty_tx_log 100)" by (rule empty_tx_log_wf) simp_all
  let ?of = "\<lambda>k. filter (\<lambda>(temp, j). cd_tx_id (nd_c_data temp) ! j = k) (clog_versions sample_clog)"
  have keys: "\<forall>(temp, j) \<in> set (clog_versions sample_clog). seq_key (cd_tx_id (nd_c_data temp) ! j)"
    by (simp add: sample_clog_def clog_versions_def clog_nodes_def version_indices_def Let_def upto_small seq_key_def)
  have n: "length (?of 2) = 2" "length (?of 1) = 1"
    by (simp_all add: sample_clog_def clog_versions_def clog_nodes_def version_indices_def Let_def upto_small)
  obtain m' t' od' where "order_by_tx_id sample_clog (sample_mem, empty_tx_log 100, sample_data) = Some (m', t', od')"
    "pm m' = pm sample_mem" "tx_wf t'" "\<forall>k. list_all2 (entry_logs m') (rev (?of k)) (tx_abs t' k)"
    using order_by_tx_id_builds_log [OF sample_clog_wf wf empty_tx_log_abs _ _ keys, of sample_data]
    by (auto simp: sample_data_def)
  then show ?thesis using n by (metis length_rev list_all2_lengthD)
qed

text \<open>
  On a well-formed checkpoint log \<open>search_for_offset\<close> always returns: \<open>NULL\<close> exactly when no node has
  the offset, otherwise a node of the log with that offset.
\<close>

theorem search_for_offset_correct:
  assumes "clog_wf p c"
  shows "\<exists>r. search_for_offset off c = Some r \<and>
    (r = None \<longleftrightarrow> off \<notin> nd_offset ` set (clog_nodes c)) \<and>
    (\<forall>n. r = Some n \<longrightarrow> n \<in> set (clog_nodes c) \<and> nd_offset n = off)"
  unfolding search_for_offset_find [OF assms] by (auto simp: find_None_iff find_Some_iff)

theorem search_for_offset_correct_witness:
  "\<exists>n. search_for_offset 8192 sample_clog = Some (Some n) \<and> nd_offset n = 8192"
proof -
  have "8192 \<in> nd_offset ` set (clog_nodes sample_clog)"
    by (simp add: sample_clog_def clog_nodes_def Let_def)
  then show ?thesis using search_for_offset_correct [OF sample_clog_wf, of 8192] by auto
qed

end
