(* ===== verification/Rollback.thy ===== *)
theory Rollback
  imports CheckpointLog
begin

text \<open>
  The reverter (\<open>reactor/lib/rollback.c\<close>): it writes older logged versions of persistent data back into the
  pool, remembers what it overwrites so that a reversion can be undone, relocates the entries after
  the pool has been reopened, and re-executes the failed program. The PMDK library and the re-executed
  system are parameters: functions on the memory whose \<open>world\<close> field is their own state. Indices into
  \<open>int\<close> arrays and version slots are checked, \<^term>\<open>None\<close> is an access outside.
\<close>

section \<open>Sorting the sequence numbers\<close>

definition MAX_COARSE_ATTEMPTS :: int where "MAX_COARSE_ATTEMPTS = 5"
definition COARSE_GRAIN_NAIVE :: int where "COARSE_GRAIN_NAIVE = 1"
definition COARSE_GRAIN_SEQUENCE :: int where "COARSE_GRAIN_SEQUENCE = 2"
definition FINE_GRAIN :: int where "FINE_GRAIN = 3"

definition reverse_cmpfunc :: "int \<Rightarrow> int \<Rightarrow> int" where
  "reverse_cmpfunc a b = to_int32 (b - a)"

text \<open>
  The C library's \<open>qsort\<close>. Its algorithm is unspecified; for a comparison under which only equal elements
  are equivalent every algorithm gives the list that insertion gives.
\<close>

fun qsort_insert :: "('a \<Rightarrow> 'a \<Rightarrow> int) \<Rightarrow> 'a \<Rightarrow> 'a list \<Rightarrow> 'a list" where
  "qsort_insert cmp x [] = [x]"
| "qsort_insert cmp x (y # ys) = (if cmp x y \<le> 0 then x # y # ys else y # qsort_insert cmp x ys)"

definition qsort :: "('a \<Rightarrow> 'a \<Rightarrow> int) \<Rightarrow> 'a list \<Rightarrow> 'a list" where
  "qsort cmp xs = foldr (qsort_insert cmp) xs []"

text \<open>The result is the filled array and \<open>*new_total\<close>.\<close>

definition decision_func_sequence_array ::
    "int list \<Rightarrow> int \<Rightarrow> int list \<Rightarrow> int \<Rightarrow> (int list \<times> int) option" where
  "decision_func_sequence_array old_seq_numbers old_total new_seq_numbers new_total = do {
     (nw, total) \<leftarrow> ofold (\<lambda>i (nw, total). do {
         x \<leftarrow> slot old_seq_numbers i;
         _ \<leftarrow> slot nw i;
         Some (nw[i := x], total + 1)
       }) [0..<nat old_total] (new_seq_numbers, new_total);
     if 0 \<le> total \<and> nat total \<le> length nw
     then Some (qsort reverse_cmpfunc (take (nat total) nw) @ drop (nat total) nw, total)
     else None
   }"

section \<open>Reverting and undoing one entry\<close>

text \<open>A slot addressed by a C \<open>int\<close>.\<close>

definition int_slot :: "'a list \<Rightarrow> int \<Rightarrow> 'a option" where
  "int_slot xs i = (if 0 \<le> i then slot xs (nat i) else None)"

definition revert_by_sequence_number_checkpoint ::
    "checkpoint_data \<Rightarrow> int \<Rightarrow> single_data \<Rightarrow> 'w cmem \<Rightarrow> 'w cmem option" where
  "revert_by_sequence_number_checkpoint old_check_data rollback_version search_data m = do {
     p \<leftarrow> int_slot (cd_data old_check_data) rollback_version;
     n \<leftarrow> int_slot (cd_size old_check_data) rollback_version;
     memcpy (Mapped (sd_sorted_pmem_address search_data)) p n m
   }"

definition revert_by_sequence_number ::
    "single_data \<Rightarrow> int \<Rightarrow> int \<Rightarrow> seq_log \<Rightarrow> 'w cmem \<Rightarrow> 'w cmem option" where
  "revert_by_sequence_number search_data seq_num rollback_version s_log m = do {
     m1 \<leftarrow> lookup_undo_save s_log seq_num (sd_sorted_pmem_address search_data) (sd_size search_data) m;
     p \<leftarrow> int_slot (sd_old_data search_data) rollback_version;
     n \<leftarrow> int_slot (sd_old_size search_data) rollback_version;
     memcpy (Mapped (sd_sorted_pmem_address search_data)) p n m1
   }"

definition undo_by_sequence_number :: "single_data \<Rightarrow> int \<Rightarrow> 'w cmem \<Rightarrow> 'w cmem option" where
  "undo_by_sequence_number search_data seq_num m =
     (let rollback_version = sd_version search_data - 1 in
      if rollback_version < 0 then Some m
      else memcpy (Mapped (sd_sorted_pmem_address search_data)) (sd_data search_data) (sd_size search_data) m)"

definition revert_by_sequence_number_nonslice ::
    "addr \<Rightarrow> single_data \<Rightarrow> int \<Rightarrow> int \<Rightarrow> addr \<Rightarrow> 'w cmem \<Rightarrow> 'w cmem option" where
  "revert_by_sequence_number_nonslice old_pop ordered_data seq_num rollback_version pop m =
     (if rollback_version < 0 then Some m
      else do {
        let pmem_address = sd_address ordered_data - old_pop + pop;
        p \<leftarrow> int_slot (sd_old_data ordered_data) rollback_version;
        n \<leftarrow> int_slot (sd_old_size ordered_data) rollback_version;
        memcpy (Mapped pmem_address) p n m
      })"

section \<open>Reverting many entries\<close>

text \<open>
  The body of the loop in \<open>revert_by_sequence_number_array\<close>. \<open>uninit\<close> is the indeterminate content of the
  local variable that \<open>lookup\<close> returns for an absent key.
\<close>

definition revert_one :: "single_data \<Rightarrow> seq_log \<Rightarrow> checkpoint_log \<Rightarrow> int \<Rightarrow> 'w cmem \<Rightarrow> 'w cmem option" where
  "revert_one uninit s_log c_log seq_num m = do {
     search_data \<leftarrow> lookup uninit s_log seq_num;
     if sd_sequence_number search_data = - 1 then Some m
     else let rollback_version = sd_version search_data - 1 in
       if rollback_version < 0 then
         (if sd_old_checkpoint_entry search_data \<noteq> 0 then do {
            r \<leftarrow> search_for_offset (sd_old_checkpoint_entry search_data) c_log;
            (case r of
               Some c_node \<Rightarrow> revert_by_sequence_number_checkpoint (nd_c_data c_node)
                 (cd_version (nd_c_data c_node)) search_data m
             | None \<Rightarrow> Some m)
          } else Some m)
       else revert_by_sequence_number search_data seq_num rollback_version s_log m
   }"

definition revert_by_sequence_number_array ::
    "single_data \<Rightarrow> seq_log \<Rightarrow> int list \<Rightarrow> int \<Rightarrow> checkpoint_log \<Rightarrow> 'w cmem \<Rightarrow> 'w cmem option" where
  "revert_by_sequence_number_array uninit s_log seq_numbers total_seq_num c_log m =
     ofold (\<lambda>i m. do { k \<leftarrow> slot seq_numbers i; revert_one uninit s_log c_log k m }) [0..<nat total_seq_num] m"

text \<open>
  \<open>revert_by_transaction\<close>: all nodes in the bucket of the entry's transaction are visited, whatever their
  transaction is; \<open>already_reverted\<close> is reset after each node.
\<close>

definition revert_tx_node ::
    "single_data \<Rightarrow> seq_log \<Rightarrow> int list \<Rightarrow> int \<Rightarrow> tx_node \<Rightarrow> 'w cmem \<Rightarrow> 'w cmem option" where
  "revert_tx_node uninit s_log seq_numbers total_seq_num t_temp m = (let d = tn_ordered_data t_temp in do {
     already_reverted \<leftarrow> ofold (\<lambda>j flag. do {
         k \<leftarrow> slot seq_numbers j;
         Some (if sd_sequence_number d = k then True else flag)
       }) [0..<nat total_seq_num] False;
     if sd_version d \<noteq> 0 \<and> \<not> already_reverted
     then do {
       search_data \<leftarrow> lookup uninit s_log (sd_sequence_number d);
       revert_by_sequence_number search_data (sd_sequence_number d) (sd_version d - 1) s_log m
     }
     else Some m
   })"

definition revert_by_transaction ::
    "single_data \<Rightarrow> tx_log \<Rightarrow> int list \<Rightarrow> int \<Rightarrow> seq_log \<Rightarrow> 'w cmem \<Rightarrow> 'w cmem option" where
  "revert_by_transaction uninit t_log seq_numbers total_seq_num s_log m =
     ofold (\<lambda>i m. do {
         k \<leftarrow> slot seq_numbers i;
         search_data \<leftarrow> lookup uninit s_log k;
         pos \<leftarrow> txhashCode t_log (sd_tx_id search_data);
         t_list \<leftarrow> chain_at (tl_list t_log) pos;
         ofold (revert_tx_node uninit s_log seq_numbers total_seq_num) t_list m
       }) [0..<nat total_seq_num] m"

text \<open>\<open>undo_by_sequence_number_array\<close> of \<open>reactor/lib/core.cpp\<close>.\<close>

definition undo_one :: "single_data \<Rightarrow> seq_log \<Rightarrow> int \<Rightarrow> 'w cmem \<Rightarrow> 'w cmem option" where
  "undo_one uninit s_log seq_num m = do {
     search_data \<leftarrow> lookup uninit s_log seq_num;
     undo_by_sequence_number search_data seq_num m
   }"

definition undo_by_sequence_number_array ::
    "single_data \<Rightarrow> seq_log \<Rightarrow> int list \<Rightarrow> 'w cmem \<Rightarrow> 'w cmem option" where
  "undo_by_sequence_number_array uninit s_log seq_list m = ofold (undo_one uninit s_log) seq_list m"

section \<open>Addresses\<close>

definition map_bucket :: "nat \<Rightarrow> (single_data \<Rightarrow> single_data) \<Rightarrow> seq_log \<Rightarrow> seq_log option" where
  "map_bucket i f s_log = do {
     chain \<leftarrow> slot (sl_list s_log) i;
     Some (s_log\<lparr>sl_list := (sl_list s_log)[i := map (\<lambda>temp. temp\<lparr>sn_ordered_data := f (sn_ordered_data temp)\<rparr>) chain]\<rparr>)
   }"

text \<open>The parameters \<open>addresses\<close>, \<open>total_size\<close> and \<open>sorted_pmem_addresses\<close> are not used.\<close>

definition sort_by_sequence_number ::
    "int \<Rightarrow> addr list \<Rightarrow> addr list \<Rightarrow> seq_log \<Rightarrow> seq_log option" where
  "sort_by_sequence_number num_data pmem_addresses offsets s_log =
     ofold (\<lambda>i. ofold (\<lambda>j s_log. do {
         off \<leftarrow> slot offsets j;
         a \<leftarrow> slot pmem_addresses j;
         map_bucket i (\<lambda>d. if sd_offset d = off then d\<lparr>sd_sorted_pmem_address := a\<rparr> else d) s_log
       }) [0..<nat num_data]) [0..<int_loop_bound (sl_size s_log)] s_log"

text \<open>
  \<open>redo_pmem_addresses\<close>: \<open>pmemobj_open\<close> maps the pool again, \<^term>\<open>None\<close> is a failure. The result is the
  pool address, the log and the memory.
\<close>

definition redo_pmem_addresses ::
    "('w cmem \<Rightarrow> addr option \<times> 'w cmem) \<Rightarrow> seq_log \<Rightarrow> 'w cmem \<Rightarrow> (addr option \<times> seq_log \<times> 'w cmem) option" where
  "redo_pmem_addresses pmemobj_open s_log m = (case pmemobj_open m of
      (None, m') \<Rightarrow> Some (None, s_log, m')
    | (Some pop, m') \<Rightarrow> do {
        s_log' \<leftarrow> ofold (\<lambda>i. map_bucket i (\<lambda>d. d\<lparr>sd_sorted_pmem_address := pop + sd_offset d\<rparr>))
          [0..<int_loop_bound (sl_size s_log)] s_log;
        Some (Some pop, s_log', m')
      })"

section \<open>Re-execution\<close>

text \<open>\<open>lookup\<close>'s result is used without a test for an absent key.\<close>

definition seq_coarse_grain_reversion ::
    "single_data \<Rightarrow> int \<Rightarrow> addr \<Rightarrow> addr \<Rightarrow> seq_log \<Rightarrow> 'w cmem \<Rightarrow> 'w cmem option" where
  "seq_coarse_grain_reversion uninit seq_num pop old_pop s_log m = do {
     revert_data \<leftarrow> lookup uninit s_log seq_num;
     let rollback_version = sd_version revert_data - 1;
     if rollback_version < 0 then Some m
     else revert_by_sequence_number_nonslice old_pop revert_data seq_num rollback_version pop m
   }"

text \<open>
  The world the reactor runs in: \<open>system(reexecution_cmd)\<close> with its wait status, \<open>system("./killScript")\<close>,
  opening and closing the pool.
\<close>

record 'w environment =
  env_system :: "'w cmem \<Rightarrow> int \<times> 'w cmem"
  env_kill :: "'w cmem \<Rightarrow> 'w cmem"
  env_open :: "'w cmem \<Rightarrow> addr option \<times> 'w cmem"
  env_close :: "addr \<Rightarrow> 'w cmem \<Rightarrow> 'w cmem"

text \<open>\<open>WIFEXITED\<close> and \<open>WEXITSTATUS\<close> of \<open>sys/wait.h\<close>.\<close>

definition WIFEXITED :: "int \<Rightarrow> bool" where
  "WIFEXITED status \<longleftrightarrow> status mod 128 = 0"

definition WEXITSTATUS :: "int \<Rightarrow> int" where
  "WEXITSTATUS status = status div 256 mod 256"

definition reexecute_flag :: "int \<Rightarrow> bool" where
  "reexecute_flag ret_val \<longleftrightarrow> WIFEXITED ret_val \<and> WEXITSTATUS ret_val \<noteq> 0"

text \<open>The pool is opened a second time after the kill script if the first attempt fails; \<open>NULL\<close> is 0.\<close>

definition reopen :: "'w environment \<Rightarrow> seq_log \<Rightarrow> 'w cmem \<Rightarrow> (addr \<times> seq_log \<times> 'w cmem) option" where
  "reopen env s_log m = do {
     (p, s1, m1) \<leftarrow> redo_pmem_addresses (env_open env) s_log m;
     (case p of
        Some pop \<Rightarrow> Some (pop, s1, m1)
      | None \<Rightarrow> do {
          (q, s2, m2) \<leftarrow> redo_pmem_addresses (env_open env) s1 (env_kill env m1);
          Some (case q of Some pop \<Rightarrow> pop | None \<Rightarrow> 0, s2, m2)
        })
   }"

partial_function (option) re_execute ::
    "'w environment \<Rightarrow> single_data \<Rightarrow> int \<Rightarrow> int \<Rightarrow> int \<Rightarrow> addr \<Rightarrow> seq_log \<Rightarrow> 'w cmem \<Rightarrow>
     (int \<times> seq_log \<times> 'w cmem) option" where
  "re_execute env uninit coarse_grained_tries reversion_type seq_num old_pop s_log m = (
     let (ret_val, m1) = env_system env m in
     if coarse_grained_tries = MAX_COARSE_ATTEMPTS then Some (- 1, s_log, m1)
     else if \<not> reexecute_flag ret_val then Some (1, s_log, m1)
     else do {
       (pop, s2, m2) \<leftarrow> reopen env s_log m1;
       if reversion_type = COARSE_GRAIN_NAIVE then do {
         (_, s3, m3) \<leftarrow> re_execute env uninit coarse_grained_tries reversion_type (seq_num - 1) old_pop s2
            (env_close env pop m2);
         Some (1, s3, m3)
       }
       else if reversion_type = COARSE_GRAIN_SEQUENCE then
         (if seq_num < 0 then Some (- 1, s2, m2)
          else do {
            m3 \<leftarrow> seq_coarse_grain_reversion uninit seq_num pop old_pop s2 m2;
            (_, s4, m4) \<leftarrow> re_execute env uninit coarse_grained_tries reversion_type (seq_num - 1) old_pop s2
              (env_close env pop m3);
            Some (1, s4, m4)
          })
       else Some (- 1, s2, env_close env pop m2)
     })"

declare re_execute.simps [code]


section \<open>Memories of the same shape\<close>

definition same_shape :: "'w cmem \<Rightarrow> 'w cmem \<Rightarrow> bool" where
  "same_shape m m' \<longleftrightarrow> length (heap m') = length (heap m) \<and> (\<forall>b. length (heap m' ! b) = length (heap m ! b)) \<and>
     (\<forall>x. pm m' x = None \<longleftrightarrow> pm m x = None) \<and> world m' = world m"

lemma same_shape_refl: "same_shape m m"
  by (simp add: same_shape_def)

lemma same_shape_trans: "same_shape m m' \<Longrightarrow> same_shape m' m'' \<Longrightarrow> same_shape m m''"
  by (simp add: same_shape_def)

lemma memcpy_same_shape: "memcpy dst src n m = Some m' \<Longrightarrow> same_shape m m'"
  by (simp add: same_shape_def memcpy_frame(1-3,6))

lemma same_shape_mapped: "same_shape m m' \<Longrightarrow> mapped_range (pm m') a n = mapped_range (pm m) a n"
  by (simp add: same_shape_def mapped_range_iff)

lemma same_shape_load:
  "same_shape m m' \<Longrightarrow> (load_bytes m' q n = None) = (load_bytes m q n = None)"
proof (cases q)
  case (Mapped a)
  assume sh: "same_shape m m'"
  then show ?thesis using same_shape_mapped [OF sh] Mapped by (simp add: read_mapped_None)
qed (auto simp: same_shape_def)

lemma log_ready_same_shape: "same_shape m m' \<Longrightarrow> log_ready m s \<Longrightarrow> log_ready m' s"
  by (simp add: log_ready_def entry_ready_def same_shape_load)

lemma log_readyD:
  assumes "log_ready m s" and "seq_abs s k = Some d"
  shows "seq_wf s" and "sd_sequence_number d = k" and "entry_ready m d"
  using assms by (simp_all add: log_ready_def)

lemma log_ready_key: "log_ready m s \<Longrightarrow> seq_abs s k = Some d \<Longrightarrow> seq_key k"
  using seq_wfD(7) seq_abs_node unfolding log_ready_def seq_key_def by metis

lemma entry_ready_slots:
  assumes "entry_ready m d" and "1 \<le> sd_version d"
  defines "v \<equiv> sd_version d - 1"
  obtains b b' where "sd_data d = Blk b" and "b < length (heap m)" and "sd_size d \<le> length (heap m ! b)"
    and "int_slot (sd_old_data d) v = Some (Blk b')" and "int_slot (sd_old_size d) v = Some (sd_old_size d ! nat v)"
    and "b' < length (heap m)" and "sd_old_size d ! nat v \<le> length (heap m ! b')" and "b \<noteq> b'"
    and "Blk b' \<in> set (own_ptrs d)"
proof -
  have v: "nat v < nat (sd_version d)" "0 \<le> v" "nat v < 3" "nat (sd_version d) \<le> length (sd_old_data d)"
    using assms by (auto simp: entry_ready_def)
  obtain b where b: "sd_data d = Blk b" using assms(1) by (auto simp: entry_ready_def own_ptrs_def split: ptr.splits)
  have mem: "sd_old_data d ! nat v \<in> set (take (nat (sd_version d)) (sd_old_data d))"
    using v by (auto simp: in_set_conv_nth intro!: exI [of _ "nat v"])
  then obtain b' where b': "sd_old_data d ! nat v = Blk b'"
    using assms(1) by (auto simp: entry_ready_def own_ptrs_def list_all_iff split: ptr.splits)
  have "Blk b \<noteq> Blk b'"
    using assms(1) mem b b' unfolding entry_ready_def own_ptrs_def by (metis distinct.simps(2))
  moreover have "load_bytes m (Blk b) (sd_size d) \<noteq> None" "load_bytes m (Blk b') (sd_old_size d ! nat v) \<noteq> None"
    using assms(1) b b' v(1) unfolding entry_ready_def by metis+
  moreover have "int_slot (sd_old_data d) v = Some (Blk b')" "int_slot (sd_old_size d) v = Some (sd_old_size d ! nat v)"
    using assms(1) v b' by (auto simp: int_slot_def slot_def entry_ready_def)
  moreover have "Blk b' \<in> set (own_ptrs d)" using mem b' by (simp add: own_ptrs_def)
  ultimately show thesis by (intro that) (use b in \<open>auto split: if_splits\<close>)
qed

section \<open>The effect of a reversion and of its undoing\<close>

text \<open>
  Reverting an entry that has an older version saves the bytes it is about to overwrite in the entry's
  own buffer and writes the older version; no other buffer changes.
\<close>

lemma revert_one_effect:
  assumes ready: "log_ready m s" and d: "seq_abs s k = Some d" and v: "1 \<le> sd_version d"
    and mapped: "mapped_range (pm m) (sd_sorted_pmem_address d) (sd_size d)"
      "mapped_range (pm m) (sd_sorted_pmem_address d) (sd_old_size d ! nat (sd_version d - 1))"
  shows "\<exists>bs w m'. revert_one u s c k m = Some m' \<and> same_shape m m' \<and>
    read_mapped (pm m) (sd_sorted_pmem_address d) (sd_size d) = Some bs \<and>
    load_bytes m (sd_old_data d ! nat (sd_version d - 1)) (sd_old_size d ! nat (sd_version d - 1)) = Some w \<and>
    pm m' = put_mapped (pm m) (sd_sorted_pmem_address d) w \<and>
    load_bytes m' (sd_data d) (sd_size d) = Some bs \<and>
    (\<forall>b n. Blk b \<noteq> sd_data d \<longrightarrow> load_bytes m' (Blk b) n = load_bytes m (Blk b) n)"
proof -
  note key = log_ready_key [OF ready d]
  note rd = log_readyD [OF ready d]
  have nk: "k \<noteq> - 1" using key by (auto simp: seq_key_def)
  obtain b b' where bb: "sd_data d = Blk b" "b < length (heap m)" "sd_size d \<le> length (heap m ! b)"
    "int_slot (sd_old_data d) (sd_version d - 1) = Some (Blk b')"
    "int_slot (sd_old_size d) (sd_version d - 1) = Some (sd_old_size d ! nat (sd_version d - 1))"
    "b' < length (heap m)" "sd_old_size d ! nat (sd_version d - 1) \<le> length (heap m ! b')" "b \<noteq> b'"
    by (rule entry_ready_slots [OF rd(3) v])
  obtain bs where bs: "read_mapped (pm m) (sd_sorted_pmem_address d) (sd_size d) = Some bs" "length bs = sd_size d"
    using read_mapped_total [OF mapped(1)] by blast
  let ?n = "sd_old_size d ! nat (sd_version d - 1)" and ?a = "sd_sorted_pmem_address d"
  define m1 where "m1 = m\<lparr>heap := (heap m)[b := bs @ drop (sd_size d) (heap m ! b)]\<rparr>"
  have save: "memcpy (sd_data d) (Mapped ?a) (sd_size d) m = Some m1"
    unfolding bb(1) m1_def by (rule memcpy_to_block) (use bs bb in auto)
  have w: "load_bytes m (Blk b') ?n = Some (take ?n (heap m ! b'))" using bb by simp
  then have "memcpy (Mapped ?a) (Blk b') ?n m1 = Some (m1\<lparr>pm := put_mapped (pm m1) ?a (take ?n (heap m ! b'))\<rparr>)"
    using bb mapped(2) by (intro memcpy_to_mapped) (auto simp: m1_def)
  moreover have "revert_one u s c k m = memcpy (Mapped ?a) (Blk b') ?n m1"
    using lookup_abs [OF rd(1) key] lookup_undo_save_abs [OF rd(1) key, of _ _ m] d v rd(2) bb(4,5) save nk
    by (simp add: revert_one_def revert_by_sequence_number_def Let_def)
  ultimately have run: "revert_one u s c k m = Some (m1\<lparr>pm := put_mapped (pm m) ?a (take ?n (heap m ! b'))\<rparr>)"
    by (simp add: m1_def)
  moreover have "same_shape m (m1\<lparr>pm := put_mapped (pm m) ?a (take ?n (heap m ! b'))\<rparr>)"
    using memcpy_same_shape [OF save] mapped(2) bb
    by (simp add: same_shape_def m1_def put_mapped_domain_eq min_def)
  ultimately show ?thesis
    using bs w bb by (auto simp: m1_def int_slot_def slot_def split: if_splits)
qed


lemma undo_one_effect:
  assumes ready: "log_ready m s" and d: "seq_abs s k = Some d" and v: "1 \<le> sd_version d"
    and bs: "load_bytes m (sd_data d) (sd_size d) = Some bs"
    and mapped: "mapped_range (pm m) (sd_sorted_pmem_address d) (sd_size d)"
  shows "undo_one u s k m = Some (m\<lparr>pm := put_mapped (pm m) (sd_sorted_pmem_address d) bs\<rparr>)"
proof -
  have "undo_one u s k m = memcpy (Mapped (sd_sorted_pmem_address d)) (sd_data d) (sd_size d) m"
    using lookup_abs [OF log_readyD(1) [OF ready d] log_ready_key [OF ready d], of u] d v
    by (simp add: undo_one_def undo_by_sequence_number_def)
  then show ?thesis using memcpy_to_mapped [OF bs mapped] by simp
qed

lemma first_version_effect:
  assumes ready: "log_ready m s" and d: "seq_abs s k = Some d" and v: "\<not> 1 \<le> sd_version d"
  shows "sd_old_checkpoint_entry d = 0 \<Longrightarrow> revert_one u s c k m = Some m" and "undo_one u s k m = Some m"
proof -
  have "lookup u s k = Some d"
    using lookup_abs [OF log_readyD(1) [OF ready d] log_ready_key [OF ready d], of u] d by simp
  then show "sd_old_checkpoint_entry d = 0 \<Longrightarrow> revert_one u s c k m = Some m" and "undo_one u s k m = Some m"
    using v by (simp_all add: revert_one_def undo_one_def undo_by_sequence_number_def Let_def)
qed

section \<open>Reversions that can be undone\<close>

text \<open>
  The contract of an action log: an action records in \<open>saved\<close> how to get from the observation after it
  to the one before it, later actions and undo steps on other keys keep the record. Then undoing in
  the opposite order restores what was observed at the start.
\<close>

locale undo_log =
  fixes act :: "'k \<Rightarrow> 's \<Rightarrow> 's option"
    and rewind :: "'k \<Rightarrow> 's \<Rightarrow> 's option"
    and obs :: "'s \<Rightarrow> 'o"
    and inv :: "'s \<Rightarrow> bool"
    and ok :: "'k \<Rightarrow> bool"
    and saved :: "'k \<Rightarrow> 'o \<Rightarrow> 'o \<Rightarrow> 's \<Rightarrow> bool"
  assumes act_saves: "inv s \<Longrightarrow> ok k \<Longrightarrow> \<exists>t. act k s = Some t \<and> inv t \<and> saved k (obs s) (obs t) t"
    and act_keeps: "inv s \<Longrightarrow> ok j \<Longrightarrow> ok k \<Longrightarrow> act j s = Some t \<Longrightarrow> j \<noteq> k \<Longrightarrow> saved k x y s \<Longrightarrow> saved k x y t"
    and back_restores: "inv s \<Longrightarrow> ok k \<Longrightarrow> saved k x (obs s) s \<Longrightarrow> \<exists>t. rewind k s = Some t \<and> inv t \<and> obs t = x"
    and back_inv: "inv s \<Longrightarrow> ok j \<Longrightarrow> rewind j s = Some t \<Longrightarrow> inv t"
    and back_keeps: "inv s \<Longrightarrow> ok j \<Longrightarrow> ok k \<Longrightarrow> rewind j s = Some t \<Longrightarrow> j \<noteq> k \<Longrightarrow> saved k x y s \<Longrightarrow> saved k x y t"
begin

lemma fold_act_keeps:
  assumes "ofold act ks s = Some t" and "inv s" and "k \<notin> set ks" and "ok k" and "\<forall>j \<in> set ks. ok j" and "saved k x y s"
  shows "saved k x y t \<and> inv t"
  using assms
proof (induction ks arbitrary: s)
  case (Cons j ks)
  then obtain s1 where s1: "act j s = Some s1" "ofold act ks s1 = Some t" by (auto split: bind_splits)
  have "inv s1" using act_saves [OF Cons.prems(2), of j] Cons.prems(5) s1(1) by auto
  moreover have "saved k x y s1" using act_keeps [OF Cons.prems(2) _ _ s1(1)] Cons.prems by auto
  ultimately show ?case using Cons.IH [OF s1(2)] Cons.prems by simp
qed simp

lemma fold_back_keeps:
  assumes "ofold rewind ks s = Some t" and "inv s" and "k \<notin> set ks" and "ok k" and "\<forall>j \<in> set ks. ok j" and "saved k x y s"
  shows "saved k x y t"
  using assms
proof (induction ks arbitrary: s)
  case (Cons j ks)
  then obtain s1 where s1: "rewind j s = Some s1" "ofold rewind ks s1 = Some t" by (auto split: bind_splits)
  have "inv s1" using back_inv [OF Cons.prems(2) _ s1(1)] Cons.prems(5) by simp
  moreover have "saved k x y s1" using back_keeps [OF Cons.prems(2) _ _ s1(1)] Cons.prems by auto
  ultimately show ?case using Cons.IH [OF s1(2)] Cons.prems by simp
qed simp

lemma undo_restores:
  assumes "inv s" and "distinct ks" and "\<forall>k \<in> set ks. ok k"
  shows "\<exists>t u. ofold act ks s = Some t \<and> inv t \<and> ofold rewind (rev ks) t = Some u \<and> inv u \<and> obs u = obs s"
  using assms
proof (induction ks arbitrary: s)
  case (Cons k ks)
  obtain s1 where s1: "act k s = Some s1" "inv s1" "saved k (obs s) (obs s1) s1"
    using act_saves [OF Cons.prems(1), of k] Cons.prems(3) by auto
  obtain t u where tu: "ofold act ks s1 = Some t" "inv t" "ofold rewind (rev ks) t = Some u" "inv u" "obs u = obs s1"
    using Cons.IH [OF s1(2)] Cons.prems by auto
  have "saved k (obs s) (obs s1) t" using fold_act_keeps [OF tu(1) s1(2)] s1(3) Cons.prems by auto
  then have "saved k (obs s) (obs s1) u"
    using fold_back_keeps [OF tu(3,2)] Cons.prems by auto
  then obtain v where "rewind k u = Some v" "inv v" "obs v = obs s"
    using back_restores [OF tu(4), of k "obs s"] tu(5) Cons.prems(3) by auto
  then show ?case using s1(1) tu by (auto simp: ofold_append)
qed auto

end

text \<open>
  What a set of sequence numbers needs for its reversion to be undoable: logged entries, whose
  addresses are mapped, and whose older version is not larger than the newer one, because \<open>undo\<close>
  writes back only as many bytes as the newer version has.
\<close>

definition undoable_entry :: "(addr \<Rightarrow> byte option) \<Rightarrow> single_data \<Rightarrow> bool" where
  "undoable_entry p d \<longleftrightarrow> (if 1 \<le> sd_version d
     then mapped_range p (sd_sorted_pmem_address d) (sd_size d) \<and>
       sd_old_size d ! nat (sd_version d - 1) \<le> sd_size d
     else sd_old_checkpoint_entry d = 0)"

definition revert_inv :: "seq_log \<Rightarrow> int set \<Rightarrow> 'w cmem \<Rightarrow> bool" where
  "revert_inv s K m \<longleftrightarrow> log_ready m s \<and> (\<forall>k \<in> K. \<exists>d. seq_abs s k = Some d \<and> undoable_entry (pm m) d)"

definition undo_saved :: "seq_log \<Rightarrow> int \<Rightarrow> (addr \<Rightarrow> byte option) \<Rightarrow> (addr \<Rightarrow> byte option) \<Rightarrow> 'w cmem \<Rightarrow> bool" where
  "undo_saved s k p p' m \<longleftrightarrow> (\<forall>d. seq_abs s k = Some d \<longrightarrow> (if 1 \<le> sd_version d
     then \<exists>bs w. read_mapped p (sd_sorted_pmem_address d) (sd_size d) = Some bs \<and> length w \<le> sd_size d \<and>
       p' = put_mapped p (sd_sorted_pmem_address d) w \<and> load_bytes m (sd_data d) (sd_size d) = Some bs
     else p' = p))"

lemma undoable_same_shape: "same_shape m m' \<Longrightarrow> undoable_entry (pm m') d = undoable_entry (pm m) d"
  by (simp add: undoable_entry_def same_shape_mapped)

lemma revert_inv_same_shape: "same_shape m m' \<Longrightarrow> revert_inv s K m \<Longrightarrow> revert_inv s K m'"
  by (simp add: revert_inv_def undoable_same_shape) (blast intro: log_ready_same_shape)

lemma revert_one_step:
  assumes inv: "revert_inv s K m" and k: "k \<in> K" and d: "seq_abs s k = Some d"
  shows "\<exists>m'. revert_one u s c k m = Some m' \<and> same_shape m m' \<and> undo_saved s k (pm m) (pm m') m' \<and>
    (\<forall>b n. Blk b \<noteq> sd_data d \<longrightarrow> load_bytes m' (Blk b) n = load_bytes m (Blk b) n)"
proof -
  have ready: "log_ready m s" and un: "undoable_entry (pm m) d"
    using inv k d by (auto simp: revert_inv_def)
  show ?thesis
  proof (cases "1 \<le> sd_version d")
    case True
    let ?n = "sd_old_size d ! nat (sd_version d - 1)" and ?a = "sd_sorted_pmem_address d"
    have n: "mapped_range (pm m) ?a (sd_size d)" "mapped_range (pm m) ?a ?n" "?n \<le> sd_size d"
      using un True mapped_range_mono by (auto simp: undoable_entry_def)
    obtain bs w m' where *: "revert_one u s c k m = Some m'" "same_shape m m'"
      "read_mapped (pm m) ?a (sd_size d) = Some bs"
      "load_bytes m (sd_old_data d ! nat (sd_version d - 1)) ?n = Some w"
      "pm m' = put_mapped (pm m) ?a w" "load_bytes m' (sd_data d) (sd_size d) = Some bs"
      "\<forall>b n. Blk b \<noteq> sd_data d \<longrightarrow> load_bytes m' (Blk b) n = load_bytes m (Blk b) n"
      using revert_one_effect [OF ready d True n(1,2), of u c] by blast
    moreover have "undo_saved s k (pm m) (pm m') m'"
      using True d *(3,5,6) load_bytes_length [OF *(4)] n(3) unfolding undo_saved_def
      by (auto intro!: exI [of _ w])
    ultimately show ?thesis by blast
  next
    case False
    then show ?thesis
      using first_version_effect(1) [OF ready d False] un d same_shape_refl
      by (auto simp: undoable_entry_def undo_saved_def)
  qed
qed

lemma undo_saved_frame:
  assumes ready: "log_ready m s" and sv: "undo_saved s k p p' m" and jk: "j \<noteq> k" and dj: "seq_abs s j = Some dj"
    and frame: "\<And>b n. Blk b \<noteq> sd_data dj \<Longrightarrow> load_bytes m' (Blk b) n = load_bytes m (Blk b) n"
  shows "undo_saved s k p p' m'"
proof (cases "seq_abs s k")
  case (Some d)
  have "set (own_ptrs dj) \<inter> set (own_ptrs d) = {}" using ready jk dj Some unfolding log_ready_def by blast
  moreover obtain b where "sd_data d = Blk b"
    using log_readyD(3) [OF ready Some] by (auto simp: entry_ready_def own_ptrs_def split: ptr.splits)
  ultimately have "load_bytes m' (sd_data d) n = load_bytes m (sd_data d) n" for n
    using frame [of b] by (auto simp: own_ptrs_def simp del: load_bytes.simps)
  then show ?thesis using sv Some unfolding undo_saved_def by (auto split: if_splits)
qed (simp add: undo_saved_def)

lemma undo_one_step:
  assumes inv: "revert_inv s K m" and k: "k \<in> K" and d: "seq_abs s k = Some d"
  shows "\<exists>m'. undo_one u s k m = Some m' \<and> same_shape m m' \<and> heap m' = heap m \<and>
    (\<forall>p. undo_saved s k p (pm m) m \<longrightarrow> pm m' = p)"
proof -
  have ready: "log_ready m s" and un: "undoable_entry (pm m) d"
    using inv k d by (auto simp: revert_inv_def)
  show ?thesis
  proof (cases "1 \<le> sd_version d")
    case True
    let ?a = "sd_sorted_pmem_address d"
    have n: "mapped_range (pm m) ?a (sd_size d)" using un True by (simp add: undoable_entry_def)
    obtain bs where bs: "load_bytes m (sd_data d) (sd_size d) = Some bs"
      using log_readyD(3) [OF ready d] by (auto simp: entry_ready_def)
    then have len: "length bs = sd_size d" by (rule load_bytes_length)
    have "put_mapped (pm m) ?a bs = p" if "undo_saved s k p (pm m) m" for p
      using that True d bs len put_mapped_restore by (fastforce simp: undo_saved_def)
    moreover have "same_shape m (m\<lparr>pm := put_mapped (pm m) ?a bs\<rparr>)"
      using n len by (simp add: same_shape_def put_mapped_domain_eq)
    ultimately show ?thesis using undo_one_effect [OF ready d True bs n, of u] by auto
  next
    case False
    then show ?thesis using first_version_effect(2) [OF ready d False, of u] d same_shape_refl
      by (auto simp: undo_saved_def)
  qed
qed


interpretation rev_undo: undo_log "revert_one u s c" "undo_one u s" pm "revert_inv s K" "\<lambda>k. k \<in> K" "undo_saved s"
  for u :: single_data and s :: seq_log and c :: checkpoint_log and K :: "int set"
proof
  have entry: "\<exists>d. seq_abs s k = Some d" if "revert_inv s K m" "k \<in> K" for k and m :: "'a cmem"
    using that by (auto simp: revert_inv_def)
  show "\<exists>t. revert_one u s c k m = Some t \<and> revert_inv s K t \<and> undo_saved s k (pm m) (pm t) t"
    if "revert_inv s K m" "k \<in> K" for k and m :: "'a cmem"
    using entry [OF that] revert_one_step [OF that] revert_inv_same_shape that by metis
  show "undo_saved s k x y t"
    if st: "revert_inv s K m" "j \<in> K" "k \<in> K" "revert_one u s c j m = Some t" "j \<noteq> k" "undo_saved s k x y m"
    for j k x y and m t :: "'a cmem"
  proof -
    obtain d where d: "seq_abs s j = Some d" using entry st by blast
    have "\<forall>b n. Blk b \<noteq> sd_data d \<longrightarrow> load_bytes t (Blk b) n = load_bytes m (Blk b) n"
      using revert_one_step [OF st(1,2) d, of u c] st(4) by simp
    moreover have "log_ready m s" using st(1) by (simp add: revert_inv_def)
    ultimately show ?thesis using undo_saved_frame [OF _ st(6,5) d] by blast
  qed
  show "\<exists>t. undo_one u s k m = Some t \<and> revert_inv s K t \<and> pm t = x"
    if "revert_inv s K m" "k \<in> K" "undo_saved s k x (pm m) m" for k x and m :: "'a cmem"
    using entry [OF that(1,2)] undo_one_step [OF that(1,2)] revert_inv_same_shape that by metis
  show "revert_inv s K t" if "revert_inv s K m" "j \<in> K" "undo_one u s j m = Some t" for j and m t :: "'a cmem"
    using entry [OF that(1,2)] undo_one_step [OF that(1,2)] revert_inv_same_shape that
    by (metis option.inject)
  show "undo_saved s k x y t"
    if st: "revert_inv s K m" "j \<in> K" "k \<in> K" "undo_one u s j m = Some t" "j \<noteq> k" "undo_saved s k x y m"
    for j k x y and m t :: "'a cmem"
  proof -
    obtain d where d: "seq_abs s j = Some d" using entry st by blast
    then have "heap t = heap m" using undo_one_step [OF st(1,2) d, of u] st(4) by simp
    then have "load_bytes t (Blk b) n = load_bytes m (Blk b) n" for b n by simp
    moreover have "log_ready m s" using st(1) by (simp add: revert_inv_def)
    ultimately show ?thesis using undo_saved_frame [OF _ st(6,5) d] by blast
  qed
qed

section \<open>Sorting\<close>

lemma qsort_insert_mset: "mset (qsort_insert cmp x ys) = add_mset x (mset ys)"
  by (induction ys) auto

lemma qsort_mset: "mset (qsort cmp xs) = mset xs"
  by (induction xs) (auto simp: qsort_def qsort_insert_mset)

lemma reverse_cmpfunc_keys: "seq_key a \<Longrightarrow> seq_key b \<Longrightarrow> reverse_cmpfunc a b = b - a"
  by (simp add: reverse_cmpfunc_def seq_key_def to_int32_id)

lemma qsort_insert_desc:
  assumes "\<forall>y \<in> set (x # ys). seq_key y" and "sorted_wrt (\<ge>) ys"
  shows "sorted_wrt (\<ge>) (qsort_insert reverse_cmpfunc x ys)"
  using assms
proof (induction ys)
  case (Cons y ys)
  have "set (qsort_insert reverse_cmpfunc x ys) = insert x (set ys)"
    by (metis qsort_insert_mset set_mset_add_mset_insert set_mset_mset)
  then show ?case using Cons by (auto simp: reverse_cmpfunc_keys)
qed simp

lemma qsort_reverse_cmpfunc:
  assumes "\<forall>x \<in> set xs. seq_key x"
  shows "qsort reverse_cmpfunc xs = rev (sort xs)"
proof -
  have "sorted_wrt (\<ge>) (qsort reverse_cmpfunc xs)"
    using assms
  proof (induction xs)
    case (Cons x xs)
    have "set (qsort reverse_cmpfunc xs) = set xs" by (metis qsort_mset set_mset_mset)
    then show ?case using Cons qsort_insert_desc [of x "qsort reverse_cmpfunc xs"] by (simp add: qsort_def)
  qed (simp add: qsort_def)
  then have "sorted (rev (qsort reverse_cmpfunc xs))" by (simp add: sorted_wrt_rev)
  then have "sort xs = rev (qsort reverse_cmpfunc xs)"
    by (intro properties_for_sort) (simp_all add: qsort_mset)
  then show ?thesis by simp
qed

lemma copy_prefix:
  assumes "n \<le> length old" and "n \<le> length nw"
  shows "ofold (\<lambda>i (nw, total). do { x \<leftarrow> slot old i; _ \<leftarrow> slot nw i; Some (nw[i := x], total + 1) }) [0..<n] (nw, t)
    = Some (take n old @ drop n nw, t + int n)"
  using assms
proof (induction n)
  case (Suc n)
  then show ?case
    by (simp add: ofold_append slot_def list_update_append Cons_nth_drop_Suc [symmetric] take_Suc_conv_app_nth)
qed simp

lemma decision_func_eq:
  assumes "n \<le> length old" and "n \<le> length nw" and "\<forall>x \<in> set (take n old). seq_key x"
  shows "decision_func_sequence_array old (int n) nw 0 = Some (rev (sort (take n old)) @ drop n nw, int n)"
  using copy_prefix [OF assms(1,2), of 0] assms qsort_reverse_cmpfunc [OF assms(3)]
  by (simp add: decision_func_sequence_array_def)


lemma ofold_single: "ofold f [x] = f x"
proof -
  have "ofold f [] = Some" by (simp add: fun_eq_iff)
  then show ?thesis by (intro ext) (simp only: ofold.simps(2) bind_runit)
qed

lemma ofold_slots:
  "n \<le> length ks \<Longrightarrow> ofold (\<lambda>i s. Option.bind (slot ks i) (\<lambda>k. f k s)) [0..<n] s = ofold f (take n ks) s"
proof (induction n)
  case (Suc n)
  have "(\<lambda>s. Option.bind (slot ks n) (\<lambda>k. f k s)) = f (ks ! n)" using Suc.prems by (simp add: slot_def)
  then show ?case
    using Suc by (simp only: upt_Suc_append le0 ofold_append ofold_single take_Suc_conv_app_nth Suc_le_eq less_imp_le)
qed simp

lemma revert_array_ofold:
  "n \<le> length ks \<Longrightarrow>
     revert_by_sequence_number_array u s ks (int n) c m = ofold (revert_one u s c) (take n ks) m"
  by (simp add: revert_by_sequence_number_array_def ofold_slots)

section \<open>Rewriting all entries\<close>

definition map_log :: "(single_data \<Rightarrow> single_data) \<Rightarrow> seq_log \<Rightarrow> seq_log" where
  "map_log f s = s\<lparr>sl_list := map (map (\<lambda>temp. temp\<lparr>sn_ordered_data := f (sn_ordered_data temp)\<rparr>)) (sl_list s)\<rparr>"

lemma map_log_keys: "map sn_sequence_number (concat (sl_list (map_log f s))) = map sn_sequence_number (concat (sl_list s))"
  by (simp add: map_log_def map_concat comp_def)

lemma seq_wf_map_log: "seq_wf (map_log f s) \<longleftrightarrow> seq_wf s"
proof -
  have "chains_ok h sn_sequence_number (sl_list (map_log f s)) = chains_ok h sn_sequence_number (sl_list s)" for h
    by (auto simp: chains_ok_def map_log_def)
  moreover have "list_all (\<lambda>n. P (sn_sequence_number n)) (concat (sl_list t)) =
      list_all P (map sn_sequence_number (concat (sl_list t)))" for P t
    by (simp add: list_all_iff)
  ultimately show ?thesis unfolding seq_wf_def map_log_keys
    using map_log_keys by (simp add: list_all_iff) (auto simp: map_log_def)
qed

lemma seq_abs_map_log: "seq_abs (map_log f s) k = map_option f (seq_abs s k)"
proof -
  have "map_of (map (\<lambda>n. (sn_sequence_number n, sn_ordered_data n))
      (map (\<lambda>temp. temp\<lparr>sn_ordered_data := f (sn_ordered_data temp)\<rparr>) ns)) k =
    map_option f (map_of (map (\<lambda>n. (sn_sequence_number n, sn_ordered_data n)) ns) k)" for ns
    by (induction ns) auto
  from this [of "concat (sl_list s)"] show ?thesis by (simp add: seq_abs_def map_log_def map_concat)
qed

lemma map_bucket_all:
  assumes "sl_size s = length (sl_list s)" and "length (sl_list s) < 2 ^ 31"
  shows "ofold (\<lambda>i. map_bucket i f) [0..<int_loop_bound (sl_size s)] s = Some (map_log f s)"
proof -
  let ?u = "map (\<lambda>temp. temp\<lparr>sn_ordered_data := f (sn_ordered_data temp)\<rparr>)"
  have "ofold (\<lambda>i. map_bucket i f) [0..<n] s = Some (s\<lparr>sl_list := map ?u (take n (sl_list s)) @ drop n (sl_list s)\<rparr>)"
    if "n \<le> length (sl_list s)" for n
    using that
  proof (induction n)
    case (Suc n)
    then show ?case
      by (simp add: ofold_append map_bucket_def slot_def nth_append list_update_append
          Cons_nth_drop_Suc [symmetric] take_Suc_conv_app_nth)
  qed simp
  from this [of "length (sl_list s)"] show ?thesis using assms by (simp add: int_loop_bound_id map_log_def)
qed

lemma map_bucket_comp:
  "Option.bind (map_bucket i f s) (map_bucket i g) = map_bucket i (g \<circ> f) s"
  by (auto simp: map_bucket_def slot_def comp_def)

text \<open>The address that a list of (offset, address) pairs assigns: the last pair with the offset wins.\<close>

definition assign_address :: "addr list \<Rightarrow> addr list \<Rightarrow> nat \<Rightarrow> single_data \<Rightarrow> single_data" where
  "assign_address offs addrs n = fold (\<lambda>j d. if sd_offset d = offs ! j then d\<lparr>sd_sorted_pmem_address := addrs ! j\<rparr> else d) [0..<n]"

lemma assign_address_Suc:
  "assign_address offs addrs (Suc n) d = (let d' = assign_address offs addrs n d in
     if sd_offset d' = offs ! n then d'\<lparr>sd_sorted_pmem_address := addrs ! n\<rparr> else d')"
  by (simp add: assign_address_def Let_def)

lemma assign_address_shape: "\<exists>a. assign_address offs addrs n d = d\<lparr>sd_sorted_pmem_address := a\<rparr>"
proof (induction n)
  case 0
  then show ?case by (intro exI [of _ "sd_sorted_pmem_address d"]) (simp add: assign_address_def)
next
  case (Suc n)
  then show ?case by (auto simp: assign_address_Suc Let_def)
qed

lemma sort_by_sequence_number_eq:
  assumes "sl_size s = length (sl_list s)" and "length (sl_list s) < 2 ^ 31"
    and "n \<le> length addrs" and "n \<le> length offs"
  shows "sort_by_sequence_number (int n) addrs offs s = Some (map_log (assign_address offs addrs n) s)"
proof -
  let ?step = "\<lambda>i j s. do {
         off \<leftarrow> slot offs j;
         a \<leftarrow> slot addrs j;
         map_bucket i (\<lambda>d. if sd_offset d = off then d\<lparr>sd_sorted_pmem_address := a\<rparr> else d) s }"
  have inner: "ofold (?step i) [0..<k] t = map_bucket i (assign_address offs addrs k) t"
    if "k \<le> n" "i < length (sl_list t)" for i k t
    using that
  proof (induction k)
    case 0
    have "map (\<lambda>temp. temp) c = c" for c :: "seq_node list" by simp
    then show ?case using 0 by (simp add: map_bucket_def slot_def assign_address_def)
  next
    case (Suc k)
    have "assign_address offs addrs (Suc k) =
        (\<lambda>d. if sd_offset d = offs ! k then d\<lparr>sd_sorted_pmem_address := addrs ! k\<rparr> else d) \<circ> assign_address offs addrs k"
      by (auto simp: fun_eq_iff assign_address_Suc Let_def)
    moreover have "ofold (?step i) [k] = map_bucket i (\<lambda>d. if sd_offset d = offs ! k then d\<lparr>sd_sorted_pmem_address := addrs ! k\<rparr> else d)"
      using Suc.prems assms(3,4) by (simp only: ofold_single) (simp add: slot_def)
    ultimately show ?case using Suc by (simp only: upt_Suc_append le0 ofold_append map_bucket_comp Suc_leD)
  qed
  have same: "length (sl_list t') = length (sl_list t)" if "map_bucket i f t = Some t'" for i f t t'
    using that by (auto simp: map_bucket_def slot_def split: if_splits bind_splits)
  have "ofold (\<lambda>i. ofold (?step i) [0..<n]) [0..<b] s = ofold (\<lambda>i. map_bucket i (assign_address offs addrs n)) [0..<b] s \<and>
      (\<forall>t. ofold (\<lambda>i. map_bucket i (assign_address offs addrs n)) [0..<b] s = Some t \<longrightarrow> length (sl_list t) = length (sl_list s))"
    if "b \<le> length (sl_list s)" for b
    using that
  proof (induction b)
    case (Suc b)
    then show ?case using inner [of n b] same
      by (cases "ofold (\<lambda>i. map_bucket i (assign_address offs addrs n)) [0..<b] s") (auto simp: ofold_append ofold_single simp del: ofold.simps)
  qed simp
  then show ?thesis
    using map_bucket_all [OF assms(1,2), of "assign_address offs addrs n"] assms(1,2)
    by (simp add: sort_by_sequence_number_def int_loop_bound_id)
qed

text \<open>The reversion data of an entry do not depend on where the entry is mapped.\<close>

lemma log_ready_map_log:
  assumes "log_ready m s" and "\<And>d. \<exists>a. f d = d\<lparr>sd_sorted_pmem_address := a\<rparr>"
  shows "log_ready m (map_log f s)"
proof -
  have "own_ptrs (f d) = own_ptrs d \<and> sd_sequence_number (f d) = sd_sequence_number d \<and>
      (entry_ready m d \<longrightarrow> entry_ready m (f d))" for d
    using assms(2) [of d] by (auto simp: own_ptrs_def entry_ready_def simp del: load_bytes.simps)
  then show ?thesis
    using assms(1) unfolding log_ready_def seq_wf_map_log seq_abs_map_log
    by (auto simp del: load_bytes.simps) blast
qed

text \<open>The log stays usable when persistent memory or the outside world changes, but not the heap.\<close>

lemma entry_ready_same_heap:
  assumes "entry_ready m d" and "heap m' = heap m"
  shows "entry_ready m' d"
proof -
  have load: "load_bytes m' q n = load_bytes m q n" if "q \<in> set (own_ptrs d)" for q n
  proof -
    have "case q of Blk _ \<Rightarrow> True | Mapped _ \<Rightarrow> False"
      using assms(1) that by (simp add: entry_ready_def list_all_iff)
    then show ?thesis using assms(2) by (cases q) simp_all
  qed
  have "sd_old_data d ! k \<in> set (own_ptrs d)" if "k < nat (sd_version d)" for k
    using that assms(1) by (auto simp: entry_ready_def own_ptrs_def in_set_conv_nth intro!: exI [of _ k])
  moreover have "sd_data d \<in> set (own_ptrs d)" by (simp add: own_ptrs_def)
  ultimately show ?thesis using assms(1) load unfolding entry_ready_def by metis
qed

lemma log_ready_same_heap: "log_ready m s \<Longrightarrow> heap m' = heap m \<Longrightarrow> log_ready m' s"
  unfolding log_ready_def by (metis entry_ready_same_heap)

section \<open>A log with one entry\<close>

definition sample_log :: seq_log where
  "sample_log = the (insert_log (empty_seq_log 100 100) 7 sample_data)"

definition sample_pool :: "unit cmem" where
  "sample_pool = \<lparr>heap = [[1, 2], [3, 4]], pm = (\<lambda>x. if x < 9000 then Some 9 else None), world = ()\<rparr>"

lemma sample_log_abs: "seq_wf sample_log" "seq_abs sample_log = [7 \<mapsto> sample_data]"
proof -
  have "seq_wf (empty_seq_log 100 100)" by (rule empty_seq_log_wf) simp_all
  then obtain s' where "insert_log (empty_seq_log 100 100) 7 sample_data = Some s'" "seq_wf s'"
    "seq_abs s' = [7 \<mapsto> sample_data]"
    using insert_log_abs [of "empty_seq_log 100 100" 7 sample_data] by (auto simp: seq_key_def empty_seq_log_abs)
  then show "seq_wf sample_log" "seq_abs sample_log = [7 \<mapsto> sample_data]" by (simp_all add: sample_log_def)
qed

lemma sample_log_ready: "log_ready sample_pool sample_log"
proof -
  have "entry_ready sample_pool sample_data"
    by (simp add: entry_ready_def own_ptrs_def sample_data_def sample_pool_def)
  then show ?thesis
    using sample_log_abs by (auto simp: log_ready_def sample_data_def split: if_splits)
qed

lemma sample_mapped: "mapped_range (pm sample_pool) 8192 2"
  by (simp add: mapped_range_def sample_pool_def upto_small)

lemma sample_revert_inv: "revert_inv sample_log {7} sample_pool"
  using sample_log_ready sample_mapped
  by (simp add: revert_inv_def sample_log_abs undoable_entry_def) (simp add: sample_data_def)

section \<open>Properties\<close>

text \<open>
  The decision function copies the first \<open>old_total\<close> sequence numbers into the output array and
  sorts them in descending order, newest first; nothing is lost or added, and the rest of the
  output array is untouched.
\<close>

theorem decision_func_sorts_descending:
  assumes "n \<le> length old" and "n \<le> length nw" and "\<forall>x \<in> set (take n old). seq_key x"
  shows "\<exists>ds. decision_func_sequence_array old (int n) nw 0 = Some (ds @ drop n nw, int n) \<and>
    sorted_wrt (\<ge>) ds \<and> mset ds = mset (take n old)"
  using decision_func_eq [OF assms] by (auto simp: sorted_wrt_rev)

theorem decision_func_sorts_descending_witness:
  "\<exists>ds. decision_func_sequence_array [3, 9, 4, 7] 3 [0, 0, 0, 0] 0 = Some (ds @ [0], 3) \<and>
    sorted_wrt (\<ge>) ds \<and> mset ds = {#3, 9, 4#}"
  using decision_func_sorts_descending [of 3 "[3, 9, 4, 7]" "[0, 0, 0, 0]"]
  by (simp add: seq_key_def eval_nat_numeral)

text \<open>
  Reverting an entry that has an older version succeeds and writes exactly the bytes of the
  preceding version at the entry's address; every byte of persistent memory outside that range keeps
  its value, and the bytes that were there are saved in the entry's buffer.
\<close>

theorem revert_writes_previous_version:
  assumes "log_ready m s" and "seq_abs s k = Some d" and "1 \<le> sd_version d"
    and "mapped_range (pm m) (sd_sorted_pmem_address d) (sd_size d)"
    and "sd_old_size d ! nat (sd_version d - 1) \<le> sd_size d" and "sd_size d < 2 ^ 64"
  shows "\<exists>w m'. load_bytes m (sd_old_data d ! nat (sd_version d - 1)) (sd_old_size d ! nat (sd_version d - 1)) = Some w \<and>
    revert_by_sequence_number_array u s [k] 1 c m = Some m' \<and>
    read_mapped (pm m') (sd_sorted_pmem_address d) (length w) = Some w \<and>
    (\<forall>x. outside (sd_sorted_pmem_address d) (length w) x \<longrightarrow> pm m' x = pm m x) \<and>
    load_bytes m' (sd_data d) (sd_size d) = read_mapped (pm m) (sd_sorted_pmem_address d) (sd_size d) \<and>
    log_ready m' s"
proof -
  let ?n = "sd_old_size d ! nat (sd_version d - 1)" and ?a = "sd_sorted_pmem_address d"
  obtain bs w m' where *: "revert_one u s c k m = Some m'" "same_shape m m'"
      "read_mapped (pm m) ?a (sd_size d) = Some bs"
      "load_bytes m (sd_old_data d ! nat (sd_version d - 1)) ?n = Some w"
      "pm m' = put_mapped (pm m) ?a w" "load_bytes m' (sd_data d) (sd_size d) = Some bs"
    using revert_one_effect [OF assms(1-4) mapped_range_mono [OF assms(4,5)], of u c] by blast
  have "length w < 2 ^ 64" using load_bytes_length [OF *(4)] assms(5,6) by simp
  then have "read_mapped (pm m') ?a (length w) = Some w" unfolding *(5) by (rule read_put_mapped)
  moreover have "revert_by_sequence_number_array u s [k] 1 c m = Some m'"
    using revert_array_ofold [of 1 "[k]" u s c m] *(1) by simp
  ultimately show ?thesis
    using * put_mapped_outside log_ready_same_shape [OF *(2) assms(1)] by auto
qed

theorem revert_writes_previous_version_witness:
  "\<exists>m'. revert_by_sequence_number_array sample_data sample_log [7] 1 sample_clog sample_pool = Some m' \<and>
    read_mapped (pm m') 8192 2 = Some [3, 4] \<and> pm m' 8194 = Some 9"
proof -
  have d: "seq_abs sample_log 7 = Some sample_data" by (simp add: sample_log_abs)
  have "mapped_range (pm sample_pool) (sd_sorted_pmem_address sample_data) (sd_size sample_data)"
    using sample_mapped by (simp add: sample_data_def)
  from revert_writes_previous_version [OF sample_log_ready d _ this, of sample_data sample_clog]
  obtain w m' where m': "load_bytes sample_pool (Blk 1) 2 = Some w"
    "revert_by_sequence_number_array sample_data sample_log [7] 1 sample_clog sample_pool = Some m'"
    "read_mapped (pm m') 8192 (length w) = Some w" "\<forall>x. outside 8192 (length w) x \<longrightarrow> pm m' x = pm sample_pool x"
    by (auto simp: sample_data_def simp del: load_bytes.simps)
  then have w: "w = [3, 4]" by (simp add: sample_pool_def)
  then have len: "length w = 2" by simp
  have "outside 8192 2 8194" by (simp add: outside_def)
  then have "pm m' 8194 = pm sample_pool 8194" using m'(4) unfolding len by blast
  moreover have "pm sample_pool 8194 = Some 9" by (simp add: sample_pool_def)
  moreover have "read_mapped (pm m') 8192 2 = Some [3, 4]" using m'(3) w unfolding len by simp
  ultimately show ?thesis using m'(2) by simp
qed

text \<open>
  C4: A failed attempt leaves no trace in persistent memory. The sequence numbers are reverted in
  the order of the decision function and undone in ascending order, as \<open>binary_reversion\<close> does; if every
  entry is logged, mapped and not smaller than its predecessor, both loops run to the end and
  persistent memory is afterwards what it was before, byte for byte.
\<close>

theorem revert_then_undo_restores:
  assumes "revert_inv s (set ks) m" and "sorted ks" and "distinct ks"
    and "length ks \<le> length nw"
  shows "\<exists>nw' m' m''. decision_func_sequence_array ks (int (length ks)) nw 0 = Some (nw', int (length ks)) \<and>
    revert_by_sequence_number_array u s nw' (int (length ks)) c m = Some m' \<and>
    undo_by_sequence_number_array u s ks m' = Some m'' \<and> pm m'' = pm m \<and> revert_inv s (set ks) m''"
proof -
  have key: "\<forall>k \<in> set ks. seq_key k"
    using assms(1) log_ready_key unfolding revert_inv_def by blast
  have sort: "sort ks = ks" using assms(2) by (rule sort_key_id_if_sorted [where f = "\<lambda>x. x", simplified])
  have dec: "decision_func_sequence_array ks (int (length ks)) nw 0 = Some (rev ks @ drop (length ks) nw, int (length ks))"
    using decision_func_eq [of "length ks" ks nw] assms(4) key sort by simp
  obtain m' m'' where "ofold (revert_one u s c) (rev ks) m = Some m'" "ofold (undo_one u s) ks m' = Some m''"
    "revert_inv s (set ks) m''" "pm m'' = pm m"
    using rev_undo.undo_restores [OF assms(1), of "rev ks" u c] assms(3) by auto
  then show ?thesis
    using dec revert_array_ofold [of "length ks" "rev ks @ drop (length ks) nw" u s c m]
    by (auto simp: undo_by_sequence_number_array_def)
qed


theorem revert_then_undo_restores_witness:
  "\<exists>nw' m' m''. decision_func_sequence_array [7] 1 [0, 0] 0 = Some (nw', 1) \<and>
    revert_by_sequence_number_array sample_data sample_log nw' 1 sample_clog sample_pool = Some m' \<and>
    undo_by_sequence_number_array sample_data sample_log [7] m' = Some m'' \<and> pm m'' = pm sample_pool"
  using revert_then_undo_restores [of sample_log "[7]" sample_pool "[0, 0]" sample_data sample_clog] sample_revert_inv
  by auto

text \<open>
  C21: after a successful reopening every entry of the log points at its offset in the newly mapped
  pool, and nothing else in the log or in its buffers changes; a failed reopening leaves the log as it is.
\<close>

theorem redo_pmem_addresses_relocates:
  assumes "log_ready m s" and "op m = (p, m')" and "heap m' = heap m"
  shows "\<exists>s'. redo_pmem_addresses op s m = Some (p, s', m') \<and> log_ready m' s' \<and>
    (\<forall>k. seq_abs s' k = (case p of None \<Rightarrow> seq_abs s k
       | Some pop \<Rightarrow> map_option (\<lambda>d. d\<lparr>sd_sorted_pmem_address := pop + sd_offset d\<rparr>) (seq_abs s k)))"
proof -
  have wf: "seq_wf s" using assms(1) by (simp add: log_ready_def)
  have ready: "log_ready m' s" by (rule log_ready_same_heap [OF assms(1,3)])
  show ?thesis
  proof (cases p)
    case None
    then show ?thesis using assms(2) ready by (simp add: redo_pmem_addresses_def)
  next
    case (Some pop)
    let ?f = "\<lambda>d. d\<lparr>sd_sorted_pmem_address := pop + sd_offset d\<rparr>"
    have "redo_pmem_addresses op s m = Some (p, map_log ?f s, m')"
      using assms(2) Some map_bucket_all [of s ?f] seq_wfD(1,3) [OF wf] by (simp add: redo_pmem_addresses_def)
    then show ?thesis using log_ready_map_log [OF ready, of ?f] Some by (auto simp: seq_abs_map_log)
  qed
qed


theorem redo_pmem_addresses_relocates_witness:
  "\<exists>s' d. redo_pmem_addresses (\<lambda>m. (Some 65536, m)) sample_log sample_pool = Some (Some 65536, s', sample_pool) \<and>
    seq_abs s' 7 = Some d \<and> sd_sorted_pmem_address d = 65600"
  using redo_pmem_addresses_relocates [OF sample_log_ready, of "\<lambda>m. (Some 65536, m)" "Some 65536" sample_pool]
  by (auto simp: sample_log_abs) (simp add: sample_data_def)

end
