(* ===== verification/Reexecution.thy ===== *)
theory Reexecution
  imports Rollback
begin

text \<open>
  Properties of \<open>re_execute\<close> (\<open>reactor/lib/rollback.c\<close>) and of the limits of undoing: what the result of
  a re-execution means, that the recursive coarse-grained reversion comes to an end, and an entry on
  which undoing a reversion does not restore persistent memory.
\<close>

section \<open>Reopening the pool\<close>

definition env_keeps_heap :: "'w environment \<Rightarrow> bool" where
  "env_keeps_heap env \<longleftrightarrow> (\<forall>m. heap (snd (env_system env m)) = heap m \<and> heap (env_kill env m) = heap m \<and>
     heap (snd (env_open env m)) = heap m \<and> (\<forall>p. heap (env_close env p m) = heap m))"

definition pool_reopens :: "'w environment \<Rightarrow> bool" where
  "pool_reopens env \<longleftrightarrow> (\<forall>m. fst (env_open env m) \<noteq> None \<or>
     fst (env_open env (env_kill env (snd (env_open env m)))) \<noteq> None)"

text \<open>Once opened at \<open>pop\<close>, the pool has the entries' addresses, moved from \<open>old_pop\<close>, mapped.\<close>

definition entries_mapped :: "'w environment \<Rightarrow> seq_log \<Rightarrow> addr \<Rightarrow> bool" where
  "entries_mapped env s old_pop \<longleftrightarrow> (\<forall>m pop m' k d. env_open env m = (Some pop, m') \<and> seq_abs s k = Some d \<and>
     1 \<le> sd_version d \<longrightarrow>
     mapped_range (pm m') (sd_address d - old_pop + pop) (sd_old_size d ! nat (sd_version d - 1)))"

text \<open>A log that differs only in where its entries are mapped.\<close>

definition same_entries :: "seq_log \<Rightarrow> seq_log \<Rightarrow> bool" where
  "same_entries s s' \<longleftrightarrow> (\<forall>k. case seq_abs s k of
      None \<Rightarrow> seq_abs s' k = None
    | Some d \<Rightarrow> \<exists>a. seq_abs s' k = Some (d\<lparr>sd_sorted_pmem_address := a\<rparr>))"

lemma same_entries_refl: "same_entries s s"
proof -
  have "\<exists>a. d = d\<lparr>sd_sorted_pmem_address := a\<rparr>" for d :: single_data
    by (rule exI [of _ "sd_sorted_pmem_address d"]) simp
  then show ?thesis by (auto simp: same_entries_def split: option.splits)
qed

lemma same_entries_Some:
  "same_entries s s' \<Longrightarrow> seq_abs s k = Some d \<Longrightarrow> \<exists>a. seq_abs s' k = Some (d\<lparr>sd_sorted_pmem_address := a\<rparr>)"
  by (auto simp: same_entries_def dest: spec [of _ k])

lemma same_entries_back:
  "same_entries s s' \<Longrightarrow> seq_abs s' k = Some d' \<Longrightarrow> \<exists>d a. seq_abs s k = Some d \<and> d' = d\<lparr>sd_sorted_pmem_address := a\<rparr>"
  by (cases "seq_abs s k") (auto simp: same_entries_def dest: spec [of _ k])

lemma same_entries_dom: "same_entries s s' \<Longrightarrow> dom (seq_abs s') = dom (seq_abs s)"
  using same_entries_Some same_entries_back by (auto simp: dom_def) blast+

lemma same_entries_trans:
  assumes "same_entries s s'" and "same_entries s' s''"
  shows "same_entries s s''"
  unfolding same_entries_def
proof
  fix k
  show "case seq_abs s k of None \<Rightarrow> seq_abs s'' k = None
    | Some d \<Rightarrow> \<exists>a. seq_abs s'' k = Some (d\<lparr>sd_sorted_pmem_address := a\<rparr>)"
  proof (cases "seq_abs s k")
    case None
    then show ?thesis using same_entries_dom [OF assms(1)] same_entries_dom [OF assms(2)] by (auto simp: domIff)
  next
    case (Some d)
    then obtain a where "seq_abs s' k = Some (d\<lparr>sd_sorted_pmem_address := a\<rparr>)" using same_entries_Some [OF assms(1)] by blast
    then show ?thesis using same_entries_Some [OF assms(2)] Some by fastforce
  qed
qed

lemma entries_mapped_same: "same_entries s s' \<Longrightarrow> entries_mapped env s old_pop \<Longrightarrow> entries_mapped env s' old_pop"
  unfolding entries_mapped_def by (fastforce dest: same_entries_back)


lemma redo_same_entries:
  assumes "log_ready m s" and "heap (snd (op m)) = heap m"
  shows "\<exists>s'. redo_pmem_addresses op s m = Some (fst (op m), s', snd (op m)) \<and> log_ready (snd (op m)) s' \<and>
    same_entries s s'"
proof (cases "op m")
  case (Pair p m')
  have wf: "seq_wf s" using assms(1) by (simp add: log_ready_def)
  have ready: "log_ready m' s" using log_ready_same_heap [OF assms(1)] assms(2) Pair by simp
  show ?thesis
  proof (cases p)
    case None
    then show ?thesis using Pair ready same_entries_refl by (simp add: redo_pmem_addresses_def)
  next
    case (Some pop)
    let ?f = "\<lambda>d. d\<lparr>sd_sorted_pmem_address := pop + sd_offset d\<rparr>"
    have "redo_pmem_addresses op s m = Some (p, map_log ?f s, m')"
      using Pair Some map_bucket_all [of s ?f] seq_wfD(1,3) [OF wf] by (simp add: redo_pmem_addresses_def)
    moreover have "same_entries s (map_log ?f s)"
      by (auto simp: same_entries_def seq_abs_map_log split: option.splits)
    ultimately show ?thesis using log_ready_map_log [OF ready, of ?f] Pair by auto
  qed
qed

lemma reopen_ready:
  assumes "log_ready m s" and env: "env_keeps_heap env" and "pool_reopens env"
  shows "\<exists>pop s' m'. reopen env s m = Some (pop, s', m') \<and> heap m' = heap m \<and> log_ready m' s' \<and> same_entries s s' \<and>
    (\<exists>m0. env_open env m0 = (Some pop, m'))"
proof -
  let ?m1 = "snd (env_open env m)"
  let ?k = "env_kill env ?m1"
  let ?m2 = "snd (env_open env ?k)"
  have h: "heap ?m1 = heap m" "heap ?k = heap m" "heap ?m2 = heap m"
    using env by (simp_all add: env_keeps_heap_def)
  obtain s1 where s1: "redo_pmem_addresses (env_open env) s m = Some (fst (env_open env m), s1, ?m1)"
    "log_ready ?m1 s1" "same_entries s s1"
    using redo_same_entries [OF assms(1), of "env_open env"] h(1) by auto
  show ?thesis
  proof (cases "fst (env_open env m)")
    case (Some pop)
    moreover have "env_open env m = (Some pop, ?m1)" using Some by (metis prod.collapse)
    ultimately show ?thesis using s1 h(1) by (auto simp: reopen_def)
  next
    case None
    have "log_ready ?k s1" using log_ready_same_heap [OF s1(2)] h by simp
    then obtain s2 where s2: "redo_pmem_addresses (env_open env) s1 ?k = Some (fst (env_open env ?k), s2, ?m2)"
      "log_ready ?m2 s2" "same_entries s1 s2"
      using redo_same_entries [of ?k s1 "env_open env"] h by auto
    obtain pop where pop: "fst (env_open env ?k) = Some pop"
      using assms(3) None unfolding pool_reopens_def by blast
    then have "env_open env ?k = (Some pop, ?m2)" by (metis prod.collapse)
    then show ?thesis
      using s1(1) None s2 pop h(3) same_entries_trans [OF s1(3) s2(3)] by (auto simp: reopen_def)
  qed
qed

section \<open>Coarse-grained reversion\<close>

lemma coarse_step:
  assumes ready: "log_ready m s" and d: "seq_abs s k = Some d"
    and mapped: "1 \<le> sd_version d \<Longrightarrow>
      mapped_range (pm m) (sd_address d - old_pop + pop) (sd_old_size d ! nat (sd_version d - 1))"
  shows "\<exists>m'. seq_coarse_grain_reversion u k pop old_pop s m = Some m' \<and> heap m' = heap m"
proof -
  have "lookup u s k = Some d"
    using lookup_abs [OF log_readyD(1) [OF ready d] log_ready_key [OF ready d], of u] d by simp
  then have run: "seq_coarse_grain_reversion u k pop old_pop s m = (if sd_version d - 1 < 0 then Some m
      else revert_by_sequence_number_nonslice old_pop d k (sd_version d - 1) pop m)"
    by (simp add: seq_coarse_grain_reversion_def Let_def)
  show ?thesis
  proof (cases "1 \<le> sd_version d")
    case True
    let ?n = "sd_old_size d ! nat (sd_version d - 1)" and ?a = "sd_address d - old_pop + pop"
    obtain b' where b: "int_slot (sd_old_data d) (sd_version d - 1) = Some (Blk b')"
      "int_slot (sd_old_size d) (sd_version d - 1) = Some ?n" "b' < length (heap m)" "?n \<le> length (heap m ! b')"
      by (rule entry_ready_slots [OF log_readyD(3) [OF ready d] True]) blast
    then have "load_bytes m (Blk b') ?n = Some (take ?n (heap m ! b'))" by simp
    from memcpy_to_mapped [OF this mapped [OF True]] show ?thesis
      using run True b by (auto simp: revert_by_sequence_number_nonslice_def Let_def simp del: load_bytes.simps)
  qed (use run in auto)
qed

lemma re_execute_unfold:
  assumes "env_system env m = (st, m1)" and "t \<noteq> MAX_COARSE_ATTEMPTS" and "reexecute_flag st"
    and "reopen env s m1 = Some (pop, s2, m2)" and "0 \<le> k"
    and "seq_coarse_grain_reversion u k pop old_pop s2 m2 = Some m3"
  shows "re_execute env u t COARSE_GRAIN_SEQUENCE k old_pop s m =
    map_option (\<lambda>(_, s4, m4). (1, s4, m4))
      (re_execute env u t COARSE_GRAIN_SEQUENCE (k - 1) old_pop s2 (env_close env pop m3))"
proof -
  have "Option.bind x (\<lambda>(_, s4, m4). Some (1, s4, m4)) = map_option (\<lambda>(_, s4, m4). (1 :: int, s4, m4)) x"
    for x :: "(int \<times> seq_log \<times> 'a cmem) option"
    by (cases x) auto
  then show ?thesis
    using assms
    by (subst re_execute.simps) (simp add: COARSE_GRAIN_SEQUENCE_def COARSE_GRAIN_NAIVE_def)
qed

lemma re_execute_coarse_returns:
  assumes "log_ready m s" and env: "env_keeps_heap env" "pool_reopens env" and "entries_mapped env s old_pop"
    and "\<forall>j. 0 \<le> j \<and> j \<le> k \<longrightarrow> j \<in> dom (seq_abs s)"
  shows "\<exists>r s' m'. re_execute env u t COARSE_GRAIN_SEQUENCE k old_pop s m = Some (r, s', m') \<and>
    (t \<noteq> MAX_COARSE_ATTEMPTS \<and> 0 \<le> k \<longrightarrow> r = 1)"
  using assms(1,4,5)
proof (induction "nat (k + 1)" arbitrary: k s m rule: less_induct)
  case less
  obtain st m1 where sys: "env_system env m = (st, m1)" by force
  have h1: "heap m1 = heap m" using env(1) sys unfolding env_keeps_heap_def by (metis snd_conv)
  show ?case
  proof (cases "t \<noteq> MAX_COARSE_ATTEMPTS \<and> reexecute_flag st")
    case False
    then show ?thesis using sys by (subst re_execute.simps) auto
  next
    case True
    have "log_ready m1 s" by (rule log_ready_same_heap [OF less.prems(1) h1])
    from reopen_ready [OF this env] obtain pop s2 m2 m0 where
      re: "reopen env s m1 = Some (pop, s2, m2)" "log_ready m2 s2" "same_entries s s2"
      "env_open env m0 = (Some pop, m2)" by blast
    have map2: "entries_mapped env s2 old_pop" by (rule entries_mapped_same [OF re(3) less.prems(2)])
    have dom2: "dom (seq_abs s2) = dom (seq_abs s)" by (rule same_entries_dom [OF re(3)])
    show ?thesis
    proof (cases "0 \<le> k")
      case neg: False
      then show ?thesis using sys True re(1)
        by (subst re_execute.simps) (simp add: COARSE_GRAIN_SEQUENCE_def COARSE_GRAIN_NAIVE_def)
    next
      case nonneg: True
      then obtain d where d: "seq_abs s2 k = Some d" using less.prems(3) dom2 by auto
      obtain m3 where m3: "seq_coarse_grain_reversion u k pop old_pop s2 m2 = Some m3" "heap m3 = heap m2"
        using coarse_step [OF re(2) d] map2 re(4) d unfolding entries_mapped_def by blast
      have "heap (env_close env pop m3) = heap m2" using env(1) m3(2) by (simp add: env_keeps_heap_def)
      then have "log_ready (env_close env pop m3) s2" by (rule log_ready_same_heap [OF re(2)])
      then obtain r s4 m4 where
        "re_execute env u t COARSE_GRAIN_SEQUENCE (k - 1) old_pop s2 (env_close env pop m3) = Some (r, s4, m4)"
        using less.hyps [of "k - 1" "env_close env pop m3" s2] nonneg map2 dom2 less.prems(3) by fastforce
      then show ?thesis using re_execute_unfold [OF sys _ _ re(1) nonneg m3(1)] True by simp
    qed
  qed
qed


section \<open>Concrete environments and entries\<close>

text \<open>An environment in which the program fails with exit status 1 every time.\<close>

definition failing_env :: "unit environment" where
  "failing_env = \<lparr>env_system = (\<lambda>m. (256, m)), env_kill = (\<lambda>m. m), 
     env_open = (\<lambda>m. (Some 0, m\<lparr>pm := pm sample_pool\<rparr>)), env_close = (\<lambda>_ m. m)\<rparr>"

text \<open>An entry whose logged version has one byte where the older version had two.\<close>

definition shrunk_data :: single_data where
  "shrunk_data = sample_data\<lparr>sd_size := 1\<rparr>"

definition shrunk_log :: seq_log where
  "shrunk_log = the (insert_log (empty_seq_log 100 100) 7 shrunk_data)"

lemma shrunk_log_abs: "seq_wf shrunk_log" "seq_abs shrunk_log = [7 \<mapsto> shrunk_data]"
proof -
  have "seq_wf (empty_seq_log 100 100)" by (rule empty_seq_log_wf) simp_all
  then obtain s' where "insert_log (empty_seq_log 100 100) 7 shrunk_data = Some s'" "seq_wf s'"
    "seq_abs s' = [7 \<mapsto> shrunk_data]"
    using insert_log_abs [of "empty_seq_log 100 100" 7 shrunk_data] by (auto simp: seq_key_def empty_seq_log_abs)
  then show "seq_wf shrunk_log" "seq_abs shrunk_log = [7 \<mapsto> shrunk_data]" by (simp_all add: shrunk_log_def)
qed

definition zero_data :: single_data where
  "zero_data = sample_data\<lparr>sd_sequence_number := 0\<rparr>"

definition zero_log :: seq_log where
  "zero_log = the (insert_log (empty_seq_log 100 100) 0 zero_data)"

lemma zero_log_ready: "seq_abs zero_log = [0 \<mapsto> zero_data]" "seq_wf zero_log" "log_ready sample_pool zero_log"
proof -
  have "seq_wf (empty_seq_log 100 100)" by (rule empty_seq_log_wf) simp_all
  then obtain s' where "insert_log (empty_seq_log 100 100) 0 zero_data = Some s'" "seq_wf s'" "seq_abs s' = [0 \<mapsto> zero_data]"
    using insert_log_abs [of "empty_seq_log 100 100" 0 zero_data] by (auto simp: seq_key_def empty_seq_log_abs)
  then show z: "seq_abs zero_log = [0 \<mapsto> zero_data]" and wf: "seq_wf zero_log" by (simp_all add: zero_log_def)
  have "entry_ready sample_pool zero_data"
    by (simp add: entry_ready_def own_ptrs_def zero_data_def sample_data_def sample_pool_def)
  then show "log_ready sample_pool zero_log" using z wf by (auto simp: log_ready_def zero_data_def split: if_splits)
qed

section \<open>Properties\<close>

text \<open>
  The result of a fine-grained re-execution. On a well-formed log it always returns after running the
  program once: 1 with log and memory as the program left them if the program did not exit with a
  non-zero status, and -1 otherwise, after reopening and closing the pool.
\<close>

theorem re_execute_fine_grain:
  assumes "seq_wf s" and "env_system env m = (st, m1)" and "tries \<noteq> MAX_COARSE_ATTEMPTS"
  shows "\<exists>s' m'. re_execute env u tries FINE_GRAIN k old_pop s m =
      Some (if WIFEXITED st \<and> WEXITSTATUS st \<noteq> 0 then - 1 else 1, s', m') \<and>
    (\<not> (WIFEXITED st \<and> WEXITSTATUS st \<noteq> 0) \<longrightarrow> s' = s \<and> m' = m1)"
proof -
  have redo: "\<exists>p t n. redo_pmem_addresses op t0 n0 = Some (p, t, n) \<and> seq_wf t" if "seq_wf t0" for op :: "'a cmem \<Rightarrow> _" and t0 n0
    using that map_bucket_all [of t0] seq_wfD(1,3) [OF that]
    by (cases "op n0"; cases "fst (op n0)") (auto simp: redo_pmem_addresses_def seq_wf_map_log)
  have "\<exists>pop s2 m2. reopen env s m1 = Some (pop, s2, m2)"
  proof -
    obtain p t n where 1: "redo_pmem_addresses (env_open env) s m1 = Some (p, t, n)" "seq_wf t"
      using redo [OF assms(1)] by blast
    obtain q t' n' where "redo_pmem_addresses (env_open env) t (env_kill env n) = Some (q, t', n')"
      using redo [OF 1(2)] by blast
    then show ?thesis using 1 by (cases p) (auto simp: reopen_def)
  qed
  then show ?thesis
    using assms by (subst re_execute.simps)
      (auto simp: reexecute_flag_def FINE_GRAIN_def COARSE_GRAIN_NAIVE_def COARSE_GRAIN_SEQUENCE_def)
qed

theorem re_execute_fine_grain_witness:
  "\<exists>s' m'. re_execute failing_env sample_data 0 FINE_GRAIN 0 0 sample_log sample_pool = Some (- 1, s', m')"
  using re_execute_fine_grain [OF sample_log_abs(1), of failing_env sample_pool 256 sample_pool 0 sample_data 0 0]
  by (simp add: failing_env_def MAX_COARSE_ATTEMPTS_def WIFEXITED_def WEXITSTATUS_def)

text \<open>
  C32: A program that dies of a signal counts as recovered: whenever the wait status says that the program
  did not exit, \<open>re_execute\<close> returns 1 at once, for every kind of reversion.
\<close>

theorem killed_program_counts_as_success:
  assumes "env_system env m = (st, m1)" and "\<not> WIFEXITED st" and "tries \<noteq> MAX_COARSE_ATTEMPTS"
  shows "re_execute env u tries reversion_type k old_pop s m = Some (1, s, m1)"
  using assms by (subst re_execute.simps) (simp add: reexecute_flag_def)

theorem killed_program_counts_as_success_witness:
  "re_execute (failing_env\<lparr>env_system := (\<lambda>m. (11, m))\<rparr>) sample_data 0 FINE_GRAIN 0 0 sample_log sample_pool
    = Some (1, sample_log, sample_pool)"
  by (rule killed_program_counts_as_success [where st = 11])
     (simp_all add: WIFEXITED_def MAX_COARSE_ATTEMPTS_def)

text \<open>
  C20: Coarse-grained reversion by sequence number terminates: if every sequence number from 0 up to the
  start is logged, the pool can be reopened and holds the entries, \<open>re_execute\<close> returns after at most
  as many rounds as there are sequence numbers. It then returns 1 also when the program failed in every
  round, because the result of the recursive call is not used.
\<close>

theorem re_execute_coarse_terminates:
  assumes "log_ready m s" and "env_keeps_heap env" and "pool_reopens env" and "entries_mapped env s old_pop"
    and "\<forall>j. 0 \<le> j \<and> j \<le> k \<longrightarrow> j \<in> dom (seq_abs s)"
  shows "\<exists>r s' m'. re_execute env u tries COARSE_GRAIN_SEQUENCE k old_pop s m = Some (r, s', m') \<and>
    (tries \<noteq> MAX_COARSE_ATTEMPTS \<and> 0 \<le> k \<longrightarrow> r = 1)"
  by (rule re_execute_coarse_returns [OF assms])


theorem re_execute_coarse_terminates_witness:
  "\<exists>s' m'. re_execute failing_env sample_data 0 COARSE_GRAIN_SEQUENCE 0 0 zero_log sample_pool = Some (1, s', m')"
proof -
  have env: "env_keeps_heap failing_env" "pool_reopens failing_env"
    by (simp_all add: failing_env_def env_keeps_heap_def pool_reopens_def)
  have "mapped_range (pm sample_pool) 4096 2"
    by (simp add: mapped_range_def sample_pool_def upto_small)
  then have "entries_mapped failing_env zero_log 0"
    by (auto simp: entries_mapped_def zero_log_ready failing_env_def zero_data_def sample_data_def split: if_splits)
  from re_execute_coarse_terminates [OF zero_log_ready(3) env this, of 0 sample_data 0] show ?thesis
    by (auto simp: zero_log_ready MAX_COARSE_ATTEMPTS_def)
qed

text \<open>
  Undoing does not restore everything. The log holds a version of one byte whose predecessor had two;
  reverting writes both bytes, undoing restores only the first, so that the second byte of persistent
  memory keeps the reverted value.
\<close>

theorem undo_misses_larger_older_version:
  "\<exists>m' m''. revert_by_sequence_number_array sample_data shrunk_log [7] 1 sample_clog sample_pool = Some m' \<and>
    undo_by_sequence_number_array sample_data shrunk_log [7] m' = Some m'' \<and>
    pm sample_pool 8193 = Some 9 \<and> pm m'' 8193 = Some 4"
proof -
  have wf: "seq_wf shrunk_log" and key: "seq_key 7" using shrunk_log_abs by (simp_all add: seq_key_def)
  have "entry_ready sample_pool shrunk_data"
    by (simp add: entry_ready_def own_ptrs_def shrunk_data_def sample_data_def sample_pool_def)
  then have ready: "log_ready sample_pool shrunk_log"
    using shrunk_log_abs by (auto simp: log_ready_def shrunk_data_def sample_data_def split: if_splits)
  have d: "seq_abs shrunk_log 7 = Some shrunk_data" by (simp add: shrunk_log_abs)
  have f: "sd_sorted_pmem_address shrunk_data = 8192" "sd_size shrunk_data = 1" "sd_version shrunk_data = 1"
    "sd_old_size shrunk_data ! 0 = 2" "sd_old_data shrunk_data ! 0 = Blk 1"
    by (simp_all add: shrunk_data_def sample_data_def)
  have "mapped_range (pm sample_pool) 8192 1" using sample_mapped by (rule mapped_range_mono) simp
  then obtain bs m' where m': "revert_one sample_data shrunk_log sample_clog 7 sample_pool = Some m'"
    "same_shape sample_pool m'" "pm m' = put_mapped (pm sample_pool) 8192 [3, 4]"
    "load_bytes m' (sd_data shrunk_data) 1 = Some bs"
    using revert_one_effect [OF ready d, of sample_data sample_clog] sample_mapped f
    by (auto simp: sample_pool_def simp del: load_bytes.simps) (auto simp: sample_pool_def)
  have "mapped_range (pm m') 8192 1"
    using same_shape_mapped [OF m'(2)] sample_mapped mapped_range_mono by fastforce
  then have "undo_one sample_data shrunk_log 7 m' = Some (m'\<lparr>pm := put_mapped (pm m') 8192 bs\<rparr>)"
    using undo_one_effect [OF log_ready_same_shape [OF m'(2) ready] d] f m'(4) by simp
  moreover have "length bs = 1" using load_bytes_length [OF m'(4)] .
  then have "put_mapped (pm m') 8192 bs 8193 = Some 4" by (simp add: m'(3) put_mapped_def)
  moreover have "revert_by_sequence_number_array sample_data shrunk_log [7] 1 sample_clog sample_pool = Some m'"
    using revert_array_ofold [of 1 "[7]" sample_data shrunk_log sample_clog sample_pool] m'(1) by simp
  ultimately show ?thesis
    by (auto simp: undo_by_sequence_number_array_def sample_pool_def)
qed

end
