(* ===== verification/Options.thy ===== *)
theory Options
  imports Arthas_Prelude
begin

text \<open>
  The reactor's command line (\<open>reactor/include/reactor-opts.h\<close>, \<open>reactor/lib/reactor-opts.cpp\<close>): the
  options record, the loop over the options that \<open>getopt_long\<close> delivers, the defaults and the validation.
  The argument scanner \<open>getopt_long\<close> itself is outside; the loop receives the sequence of its results.
  \<open>access\<close> is a parameter. Whether a \<open>const char *\<close> is set is an option value.
\<close>

section \<open>Data\<close>

record dg_options =
  dg_entry_only :: bool
  dg_enable_pta :: bool
  dg_enable_ctrl :: bool
  dg_slice_ctrl :: bool
  dg_support_thread :: bool
  dg_intra_procedural :: bool
  dg_inter_procedural :: bool

record reactor_options =
  opt_address_file :: "string option"
  opt_checkpoint_file :: "string option"
  opt_pmem_file :: "string option"
  opt_pmem_layout :: "string option"
  opt_pmem_library :: "string option"
  opt_hook_guid_file :: "string option"
  opt_reexecute_cmd :: "string option"
  opt_arckpt :: bool
  opt_batch_threshold :: int
  opt_version_num :: int
  opt_fault_instr :: string
  opt_fault_loc :: string
  opt_bc_file :: string
  opt_dg_options :: dg_options

text \<open>The static flag variables of the file with their initial values.\<close>

record opt_flags =
  show_help :: bool
  skip_check :: bool
  enable_pta :: bool
  enable_control :: bool
  slice_control :: bool
  support_thread :: bool
  intra_procedural :: bool
  inter_procedural :: bool
  entry_only :: bool

definition initial_flags :: opt_flags where
  "initial_flags = \<lparr>show_help = False, skip_check = False, enable_pta = True, enable_control = False,
     slice_control = False, support_thread = False, intra_procedural = False, inter_procedural = True,
     entry_only = False\<rparr>"

section \<open>Options\<close>

text \<open>The long options that set a flag (\<open>long_options\<close>).\<close>

definition set_flag :: "string \<Rightarrow> opt_flags \<Rightarrow> opt_flags option" where
  "set_flag name fl =
     (if name = ''help'' then Some (fl\<lparr>show_help := True\<rparr>)
      else if name = ''skip-check'' then Some (fl\<lparr>skip_check := True\<rparr>)
      else if name = ''pta'' then Some (fl\<lparr>enable_pta := True\<rparr>)
      else if name = ''no-pta'' then Some (fl\<lparr>enable_pta := False\<rparr>)
      else if name = ''ctrl'' then Some (fl\<lparr>enable_control := True\<rparr>)
      else if name = ''no-ctrl'' then Some (fl\<lparr>enable_control := False\<rparr>)
      else if name = ''slice-ctrl'' then Some (fl\<lparr>slice_control := True\<rparr>)
      else if name = ''thd'' then Some (fl\<lparr>support_thread := True\<rparr>)
      else if name = ''no-thd'' then Some (fl\<lparr>support_thread := False\<rparr>)
      else if name = ''intra'' then Some (fl\<lparr>intra_procedural := True\<rparr>)
      else if name = ''inter'' then Some (fl\<lparr>inter_procedural := True\<rparr>)
      else if name = ''entry-only'' then Some (fl\<lparr>entry_only := True\<rparr>)
      else None)"

text \<open>
  \<open>strtol(s, &pend, 10)\<close>: white space, an optional sign, digits; the value is limited to the range of
  \<open>long\<close>. The result is the value and the unparsed rest, which is the whole input if there is no digit.
\<close>

definition is_space :: "char \<Rightarrow> bool" where
  "is_space c \<longleftrightarrow> c \<in> {CHR '' '', CHR 0x09, CHR 0x0A, CHR 0x0B, CHR 0x0C, CHR 0x0D}"

definition is_digit :: "char \<Rightarrow> bool" where
  "is_digit c \<longleftrightarrow> 48 \<le> (of_char c :: nat) \<and> (of_char c :: nat) \<le> 57"

definition digit_val :: "char \<Rightarrow> int" where
  "digit_val c = int (of_char c) - 48"

definition strtol10 :: "string \<Rightarrow> int \<times> string" where
  "strtol10 s = (let
     t = dropWhile is_space s;
     (neg, u) = (case t of [] \<Rightarrow> (False, [])
       | c # cs \<Rightarrow> if c = CHR ''-'' then (True, cs) else if c = CHR ''+'' then (False, cs) else (False, c # cs));
     ds = takeWhile is_digit u;
     v = fold (\<lambda>c n. n * 10 + digit_val c) ds 0
   in if ds = [] then (0, s)
      else (max (- (2 ^ 63)) (min (2 ^ 63 - 1) (if neg then - v else v)), dropWhile is_digit u))"

text \<open>What \<open>getopt_long\<close> returns: an option character with its argument, a flag that was set, \<open>'?'\<close>.\<close>

datatype getopt_result = Opt char string | FlagSet string | BadOpt

definition apply_option :: "char \<Rightarrow> string \<Rightarrow> reactor_options \<Rightarrow> reactor_options option" where
  "apply_option c optarg o1 =
     (if c = CHR ''p'' then Some (o1\<lparr>opt_pmem_file := Some optarg\<rparr>)
      else if c = CHR ''t'' then Some (o1\<lparr>opt_pmem_layout := Some optarg\<rparr>)
      else if c = CHR ''l'' then Some (o1\<lparr>opt_pmem_library := Some optarg\<rparr>)
      else if c = CHR ''n'' then (let (v, pend) = strtol10 optarg in
        if pend = optarg \<or> pend \<noteq> [] then None else Some (o1\<lparr>opt_version_num := to_int32 v\<rparr>))
      else if c = CHR ''g'' then Some (o1\<lparr>opt_hook_guid_file := Some optarg\<rparr>)
      else if c = CHR ''z'' then Some (o1\<lparr>opt_arckpt := True\<rparr>)
      else if c = CHR ''e'' then Some (o1\<lparr>opt_batch_threshold := to_int32 (fst (strtol10 optarg))\<rparr>)
      else if c = CHR ''a'' then Some (o1\<lparr>opt_address_file := Some optarg\<rparr>)
      else if c = CHR ''r'' then Some (o1\<lparr>opt_reexecute_cmd := Some optarg\<rparr>)
      else if c = CHR ''c'' then Some (o1\<lparr>opt_fault_loc := optarg\<rparr>)
      else if c = CHR ''i'' then Some (o1\<lparr>opt_fault_instr := optarg\<rparr>)
      else if c = CHR ''b'' then Some (o1\<lparr>opt_bc_file := optarg\<rparr>)
      else None)"

fun option_loop :: "getopt_result list \<Rightarrow> reactor_options \<times> opt_flags \<Rightarrow> (reactor_options \<times> opt_flags) option" where
  "option_loop [] st = Some st"
| "option_loop (Opt c optarg # rest) (o1, fl) =
     (if c = CHR ''h'' then option_loop rest (o1, fl\<lparr>show_help := True\<rparr>)
      else case apply_option c optarg o1 of None \<Rightarrow> None | Some o2 \<Rightarrow> option_loop rest (o2, fl))"
| "option_loop (FlagSet name # rest) (o1, fl) =
     (case set_flag name fl of None \<Rightarrow> None | Some fl2 \<Rightarrow> option_loop rest (o1, fl2))"
| "option_loop (BadOpt # rest) st = None"

section \<open>Validation\<close>

datatype option_error = No_pmem_file | Pmem_file_missing | No_layout | No_library | Unknown_library
  | No_guid_file | Bad_version | No_reexecute_cmd | Bad_fault_loc | No_bc_file

text \<open>The checks in their order; \<open>Inl\<close> is the message printed before \<open>return false\<close>.\<close>

definition check_options :: "(string \<Rightarrow> bool) \<Rightarrow> reactor_options \<Rightarrow> option_error + unit" where
  "check_options exists_file o1 =
     (case opt_pmem_file o1 of None \<Rightarrow> Inl No_pmem_file
      | Some f \<Rightarrow>
      if \<not> exists_file f then Inl Pmem_file_missing
      else if opt_pmem_layout o1 = None then Inl No_layout
      else if opt_pmem_library o1 = None then Inl No_library
      else if \<not> (opt_pmem_library o1 = Some ''libpmem'' \<or> opt_pmem_library o1 = Some ''libpmemobj'') then Inl Unknown_library
      else if opt_hook_guid_file o1 = None then Inl No_guid_file
      else if opt_version_num o1 \<le> 0 then Inl Bad_version
      else if opt_reexecute_cmd o1 = None then Inl No_reexecute_cmd
      else if opt_fault_loc o1 \<noteq> [] \<and>
        (let n = count_list (opt_fault_loc o1) (CHR '':'') in n < 1 \<or> n > 2) then Inl Bad_fault_loc
      else if opt_bc_file o1 = [] then Inl No_bc_file
      else Inr ())"

definition zero_options :: reactor_options where
  "zero_options = \<lparr>opt_address_file = None, opt_checkpoint_file = None, opt_pmem_file = None, opt_pmem_layout = None,
     opt_pmem_library = None, opt_hook_guid_file = None, opt_reexecute_cmd = None, opt_arckpt = False,
     opt_batch_threshold = 0, opt_version_num = 0, opt_fault_instr = [], opt_fault_loc = [], opt_bc_file = [],
     opt_dg_options = \<lparr>dg_entry_only = False, dg_enable_pta = False, dg_enable_ctrl = False, dg_slice_ctrl = False,
       dg_support_thread = False, dg_intra_procedural = False, dg_inter_procedural = False\<rparr>\<rparr>"

datatype parse_result = Help_exit | Rejected | Accepted reactor_options

definition parse_options :: "(string \<Rightarrow> bool) \<Rightarrow> getopt_result list \<Rightarrow> parse_result" where
  "parse_options exists_file args = (case option_loop args (zero_options, initial_flags) of
      None \<Rightarrow> Rejected
    | Some (o1, fl) \<Rightarrow>
        if show_help fl then Help_exit
        else let
          o2 = o1\<lparr>opt_dg_options := \<lparr>dg_entry_only = entry_only fl, dg_enable_pta = enable_pta fl,
            dg_enable_ctrl = enable_control fl, dg_slice_ctrl = slice_control fl,
            dg_support_thread = support_thread fl, dg_intra_procedural = intra_procedural fl,
            dg_inter_procedural = inter_procedural fl\<rparr>\<rparr>;
          o3 = (if opt_pmem_library o2 = None then o2\<lparr>opt_pmem_library := Some ''libpmem''\<rparr> else o2)
        in if skip_check fl then Accepted o3
           else case check_options exists_file o3 of Inl _ \<Rightarrow> Rejected | Inr _ \<Rightarrow> Accepted o3)"

section \<open>Properties\<close>

text \<open>What the rest of the reactor relies on.\<close>

definition options_valid :: "(string \<Rightarrow> bool) \<Rightarrow> reactor_options \<Rightarrow> bool" where
  "options_valid exists_file o1 \<longleftrightarrow>
     (\<exists>f. opt_pmem_file o1 = Some f \<and> exists_file f) \<and> opt_pmem_layout o1 \<noteq> None \<and>
     opt_pmem_library o1 \<in> {Some ''libpmem'', Some ''libpmemobj''} \<and> opt_hook_guid_file o1 \<noteq> None \<and>
     0 < opt_version_num o1 \<and> opt_reexecute_cmd o1 \<noteq> None \<and>
     (opt_fault_loc o1 = [] \<or> count_list (opt_fault_loc o1) (CHR '':'') \<in> {1, 2}) \<and> opt_bc_file o1 \<noteq> []"

lemma check_options_valid: "check_options ex o1 = Inr () \<longleftrightarrow> options_valid ex o1"
proof -
  have "n < 1 \<or> n > 2 \<longleftrightarrow> n \<notin> {1, 2}" for n :: nat by auto
  then show ?thesis by (auto simp: check_options_def options_valid_def Let_def split: option.splits)
qed

lemma option_loop_append: "option_loop (xs @ ys) st = Option.bind (option_loop xs st) (option_loop ys)"
  by (induction xs st rule: option_loop.induct) (auto split: option.splits)

lemma option_loop_skip:
  "option_loop args (o1, fl) = Some (o2, fl') \<Longrightarrow> FlagSet ''skip-check'' \<notin> set args \<Longrightarrow> skip_check fl' = skip_check fl"
proof (induction args "(o1, fl)" arbitrary: o1 fl rule: option_loop.induct)
  case (3 name rest o1 fl)
  obtain fl2 where fl2: "set_flag name fl = Some fl2" "option_loop rest (o1, fl2) = Some (o2, fl')"
    using "3.prems" by (auto split: option.splits)
  have "skip_check fl2 = skip_check fl"
    using fl2(1) "3.prems"(2) by (auto simp: set_flag_def split: if_splits)
  then show ?case using "3.hyps" [OF fl2] "3.prems"(2) by simp
qed (auto split: if_splits option.splits)

lemma accepted_options_valid:
  assumes "FlagSet ''skip-check'' \<notin> set args" and "parse_options ex args = Accepted o1"
  shows "options_valid ex o1 \<and> check_options ex o1 = Inr ()"
proof -
  obtain o0 fl where loop: "option_loop args (zero_options, initial_flags) = Some (o0, fl)"
    using assms(2) by (auto simp: parse_options_def split: option.splits)
  then have "\<not> skip_check fl"
    using option_loop_skip [OF loop assms(1)] by (simp add: initial_flags_def)
  then have "check_options ex o1 = Inr ()"
    using assms(2) loop by (auto simp: parse_options_def Let_def split: if_splits sum.splits)
  then show ?thesis using check_options_valid by blast
qed


definition sample_args :: "getopt_result list" where
  "sample_args = [Opt (CHR ''p'') ''/mnt/pmem/pool'', Opt (CHR ''t'') ''layout'', Opt (CHR ''n'') ''3'',
     Opt (CHR ''g'') ''guid.map'', Opt (CHR ''r'') ''./run.sh'', Opt (CHR ''c'') ''a.c:12'', Opt (CHR ''b'') ''a.bc'',
     FlagSet ''no-pta'']"


end
