(* ===== verification/BinaryReversion.thy ===== *)
theory BinaryReversion
  imports Reexecution Options
begin

text \<open>
  \<open>binary_reversion\<close> (\<open>reactor/lib/core.cpp\<close>): among the sequence numbers collected for a slice it looks for
  a small set whose reversion makes the program run again. It reverts the upper half, re-executes,
  undoes, and continues in the half that the outcome points at, with a bound on the number of rounds.
  The state record holds the memory, the log, the open pool and the global counters of the file.

  The properties are stated for a program whose outcome depends on persistent memory and that leaves the
  memory as it found it (\<open>quiet_env\<close>): then a failed round is undone without a trace, at most four
  re-executions take place, and the memory at the end is the initial one with exactly one part
  of the sequence numbers reverted, on which the program was seen to succeed if success is reported.
\<close>

section \<open>State\<close>

definition BINARY_REVERSION_ATTEMPTS :: int where "BINARY_REVERSION_ATTEMPTS = 2"

record 'w reactor_run =
  rr_mem :: "'w cmem"
  rr_slog :: seq_log
  rr_pop :: addr
  rr_binary_success :: int
  rr_binary_reversion_count :: int
  rr_binary_reverted_items :: int
  rr_total_reverted_items :: int
  rr_total_reexecutions :: int

text \<open>
  What does not change during a reaction, with the indeterminate contents of two local variables: the
  result of a failed lookup and the initial value of \<open>req_flag2\<close>.
\<close>

record 'w reaction =
  rx_env :: "'w environment"
  rx_options :: reactor_options
  rx_clog :: checkpoint_log
  rx_pool_address :: addr
  rx_uninit :: single_data
  rx_coarse_grained_tries :: int
  rx_uninit_flag :: int

section \<open>Operations\<close>

definition uses_libpmemobj :: "'w reaction \<Rightarrow> bool" where
  "uses_libpmemobj rx \<longleftrightarrow> opt_pmem_library (rx_options rx) = Some ''libpmemobj''"

text \<open>\<open>*pop = redo_pmem_addresses(...)\<close>, where a failed reopening gives \<open>NULL\<close>.\<close>

definition redo_pop :: "'w reaction \<Rightarrow> 'w reactor_run \<Rightarrow> 'w reactor_run option" where
  "redo_pop rx st = do {
     (p, s', m') \<leftarrow> redo_pmem_addresses (env_open (rx_env rx)) (rr_slog st) (rr_mem st);
     Some (st\<lparr>rr_pop := (case p of Some pop \<Rightarrow> pop | None \<Rightarrow> 0), rr_slog := s', rr_mem := m'\<rparr>)
   }"

definition close_pop :: "'w reaction \<Rightarrow> 'w reactor_run \<Rightarrow> 'w reactor_run" where
  "close_pop rx st = st\<lparr>rr_mem := env_close (rx_env rx) (rr_pop st) (rr_mem st)\<rparr>"

definition fine_grain_re_execute :: "'w reaction \<Rightarrow> int \<Rightarrow> 'w reactor_run \<Rightarrow> (int \<times> 'w reactor_run) option" where
  "fine_grain_re_execute rx starting_seq_num st = do {
     (r, s', m') \<leftarrow> re_execute (rx_env rx) (rx_uninit rx) (rx_coarse_grained_tries rx) FINE_GRAIN starting_seq_num
       (rx_pool_address rx) (rr_slog st) (rr_mem st);
     Some (r, st\<lparr>rr_slog := s', rr_mem := m'\<rparr>)
   }"

text \<open>
  The block that occurs for the right and for the left half: decide, revert, close the pool, re-execute,
  reopen. \<open>buffer\<close> is the number of \<open>int\<close>s behind \<open>decided_slice_seq_numbers\<close>, \<open>flag\<close> the value of
  \<open>req_flag2\<close> before, which is kept if there is nothing to revert.
\<close>

definition attempt ::
    "'w reaction \<Rightarrow> int list \<Rightarrow> nat \<Rightarrow> int \<Rightarrow> 'w reactor_run \<Rightarrow> (int \<times> 'w reactor_run) option" where
  "attempt rx part buffer flag st = do {
     (decided, decided_total) \<leftarrow> decision_func_sequence_array part (int (length part)) (replicate buffer 0) 0;
     m1 \<leftarrow> revert_by_sequence_number_array (rx_uninit rx) (rr_slog st) decided decided_total (rx_clog rx) (rr_mem st);
     let st1 = st\<lparr>rr_binary_reverted_items := decided_total, rr_mem := m1\<rparr>;
     let st2 = (if uses_libpmemobj rx then close_pop rx st1 else st1);
     (flag', st3) \<leftarrow> (if decided_total > 0 then do {
         (r, st') \<leftarrow> fine_grain_re_execute rx 0 st2;
         Some (r, st'\<lparr>rr_total_reexecutions := rr_total_reexecutions st' + 1\<rparr>)
       } else Some (flag, st2));
     st4 \<leftarrow> (if uses_libpmemobj rx then redo_pop rx st3 else Some st3);
     Some (flag', st4)
   }"

definition undo_part :: "'w reaction \<Rightarrow> int list \<Rightarrow> 'w reactor_run \<Rightarrow> 'w reactor_run option" where
  "undo_part rx part st = do {
     m' \<leftarrow> undo_by_sequence_number_array (rx_uninit rx) (rr_slog st) part (rr_mem st);
     Some (st\<lparr>rr_mem := m'\<rparr>)
   }"

text \<open>The two halves; an iterator beyond the end is undefined.\<close>

definition split_halves :: "int list \<Rightarrow> int \<Rightarrow> int \<Rightarrow> (int list \<times> int list) option" where
  "split_halves seq_list l r = (let mid = l + (r - l) div 2 in
     if 0 \<le> mid + 1 \<and> nat (mid + 1) \<le> length seq_list
     then Some (take (nat (mid + 1)) seq_list,
       if mid = 0 \<and> length seq_list = 1 then seq_list else drop (nat (mid + 1)) seq_list)
     else None)"

lemma split_halves_length:
  assumes "split_halves xs l r = Some (left, right)" and "0 \<le> l" and "l \<le> r"
  shows "length left \<le> length xs" and "length right = 1 \<or> length right < length xs"
    and "l = 0 \<Longrightarrow> r = int (length xs) - 1 \<Longrightarrow> length left = 1 \<or> length left < length xs"
  using assms by (auto simp: split_halves_def Let_def split: if_splits)

text \<open>\<open>flag0\<close> is the indeterminate initial value of \<open>req_flag2\<close>. The indices are non-negative at every call.\<close>

function (sequential) binary_reversion ::
    "'w reaction \<Rightarrow> int \<Rightarrow> int list \<Rightarrow> int \<Rightarrow> int \<Rightarrow> 'w reactor_run \<Rightarrow> (int \<times> 'w reactor_run) option" where
  "binary_reversion rx flag0 seq_list l r st =
     (if \<not> (0 \<le> l) then None
      else if \<not> (l \<le> r) then Some (- 1, st)
      else case split_halves seq_list l r of None \<Rightarrow> None | Some (left, right) \<Rightarrow>
      (case attempt rx right (length seq_list) flag0 st of None \<Rightarrow> None | Some (req_flag2, st1) \<Rightarrow>
       let st2 = st1\<lparr>rr_binary_reversion_count := rr_binary_reversion_count st1 + 1\<rparr>;
         limit = (rr_binary_reversion_count st2 > BINARY_REVERSION_ATTEMPTS)
       in if req_flag2 = 1 then
         (if limit \<or> length right = 1
          then Some (0, st2\<lparr>rr_binary_reversion_count := 0, rr_binary_success := 1\<rparr>)
          else (case undo_part rx right st2 of None \<Rightarrow> None | Some st3 \<Rightarrow>
            map_option (\<lambda>(_, st4). (- 1, st4)) (binary_reversion rx flag0 right 0 (int (length right) - 1) st3)))
       else (case undo_part rx right st2 of None \<Rightarrow> None | Some st3 \<Rightarrow>
         if limit \<or> length left = 1 then
           (case attempt rx left (length seq_list) req_flag2 (st3\<lparr>rr_binary_reversion_count := 0\<rparr>) of None \<Rightarrow> None
            | Some (req_flag2', st4) \<Rightarrow>
              Some (1, if req_flag2' = 1 then st4\<lparr>rr_binary_success := 1\<rparr> else st4))
         else map_option (\<lambda>(_, st4). (- 1, st4)) (binary_reversion rx flag0 left 0 (int (length left) - 1) st3))))"
  by pat_completeness auto

termination
proof (relation "measures [\<lambda>(rx, flag0, xs, l, r, st). length xs,
    \<lambda>(rx, flag0, xs, l, r, st). if l = 0 \<and> r = int (length xs) - 1 then 0 else 1]", goal_cases)
  case (2 rx flag0 xs l r st p left right q flag st1 st2 limit st3)
  then show ?case using split_halves_length [of xs l r left right] by auto
next
  case (3 rx flag0 xs l r st p left right q flag st1 st2 limit st3)
  then show ?case using split_halves_length [of xs l r left right] by (cases "length left = length xs") auto
qed simp


declare binary_reversion.simps [simp del]

section \<open>What a reversion writes\<close>

definition old_bytes :: "'w cmem \<Rightarrow> single_data \<Rightarrow> byte list" where
  "old_bytes m d = (case load_bytes m (sd_old_data d ! nat (sd_version d - 1)) (sd_old_size d ! nat (sd_version d - 1)) of
     Some w \<Rightarrow> w | None \<Rightarrow> [])"

text \<open>The specification of reverting sequence numbers one after the other, on persistent memory alone.\<close>

fun abs_revert :: "seq_log \<Rightarrow> 'w cmem \<Rightarrow> int list \<Rightarrow> (addr \<Rightarrow> byte option) \<Rightarrow> addr \<Rightarrow> byte option" where
  "abs_revert s m [] p = p"
| "abs_revert s m (k # ks) p = abs_revert s m ks (case seq_abs s k of
     None \<Rightarrow> p
   | Some d \<Rightarrow> if 1 \<le> sd_version d then put_mapped p (sd_sorted_pmem_address d) (old_bytes m d) else p)"

definition keeps_old :: "seq_log \<Rightarrow> 'w cmem \<Rightarrow> 'w cmem \<Rightarrow> bool" where
  "keeps_old s m m' \<longleftrightarrow> (\<forall>k d. seq_abs s k = Some d \<and> 1 \<le> sd_version d \<longrightarrow> old_bytes m' d = old_bytes m d)"

lemma abs_revert_keeps: "keeps_old s m m' \<Longrightarrow> abs_revert s m' ks p = abs_revert s m ks p"
  by (induction ks arbitrary: p) (auto simp: keeps_old_def split: option.splits)

lemma keeps_old_trans: "keeps_old s m m' \<Longrightarrow> keeps_old s m' m'' \<Longrightarrow> keeps_old s m m''"
  unfolding keeps_old_def by metis

lemma old_block:
  assumes "log_ready m s" and "seq_abs s k = Some d" and "1 \<le> sd_version d"
  obtains b where "sd_old_data d ! nat (sd_version d - 1) = Blk b" and "Blk b \<in> set (own_ptrs d)" and "sd_data d \<noteq> Blk b"
proof (rule entry_ready_slots [OF log_readyD(3) [OF assms(1,2)] assms(3)])
  fix b b'
  assume "sd_data d = Blk b" "int_slot (sd_old_data d) (sd_version d - 1) = Some (Blk b')" "b \<noteq> b'" "Blk b' \<in> set (own_ptrs d)"
  then show thesis by (intro that [of b']) (auto simp: int_slot_def slot_def split: if_splits)
qed

lemma keeps_old_same_heap:
  assumes "log_ready m s" and "heap m' = heap m"
  shows "keeps_old s m m'"
  unfolding keeps_old_def
proof (intro allI impI, elim conjE)
  fix k d assume d: "seq_abs s k = Some d" "1 \<le> sd_version d"
  obtain b where "sd_old_data d ! nat (sd_version d - 1) = Blk b" by (rule old_block [OF assms(1) d])
  then show "old_bytes m' d = old_bytes m d" using assms(2) by (simp add: old_bytes_def)
qed

lemma revert_one_abs:
  assumes inv: "revert_inv s K m" and k: "k \<in> K"
  shows "\<exists>m'. revert_one u s c k m = Some m' \<and> revert_inv s K m' \<and> pm m' = abs_revert s m [k] (pm m) \<and> keeps_old s m m'"
proof -
  obtain d where d: "seq_abs s k = Some d" and un: "undoable_entry (pm m) d" and ready: "log_ready m s"
    using inv k by (auto simp: revert_inv_def)
  show ?thesis
  proof (cases "1 \<le> sd_version d")
    case True
    let ?n = "sd_old_size d ! nat (sd_version d - 1)" and ?a = "sd_sorted_pmem_address d"
    have n: "mapped_range (pm m) ?a (sd_size d)" "mapped_range (pm m) ?a ?n"
      using un True mapped_range_mono by (auto simp: undoable_entry_def)
    obtain w m' where *: "revert_one u s c k m = Some m'" "same_shape m m'"
      "load_bytes m (sd_old_data d ! nat (sd_version d - 1)) ?n = Some w" "pm m' = put_mapped (pm m) ?a w"
      "\<forall>b n. Blk b \<noteq> sd_data d \<longrightarrow> load_bytes m' (Blk b) n = load_bytes m (Blk b) n"
      using revert_one_effect [OF ready d True n, of u c] by blast
    have "keeps_old s m m'"
      unfolding keeps_old_def
    proof (intro allI impI, elim conjE)
      fix k' d' assume d': "seq_abs s k' = Some d'" "1 \<le> sd_version d'"
      obtain b where b: "sd_old_data d' ! nat (sd_version d' - 1) = Blk b" "Blk b \<in> set (own_ptrs d')" "sd_data d' \<noteq> Blk b"
        by (rule old_block [OF ready d'])
      have "Blk b \<noteq> sd_data d"
      proof (cases "k' = k")
        case False
        then have "set (own_ptrs d') \<inter> set (own_ptrs d) = {}" using ready d d'(1) unfolding log_ready_def by blast
        then show ?thesis using b(2) by (auto simp: own_ptrs_def)
      qed (use d d' b in auto)
      then show "old_bytes m' d' = old_bytes m d'" using *(5) b(1) by (simp add: old_bytes_def del: load_bytes.simps)
    qed
    then show ?thesis
      using * True d revert_inv_same_shape [OF *(2) inv] by (auto simp: old_bytes_def simp del: load_bytes.simps)
  next
    case False
    then show ?thesis
      using first_version_effect(1) [OF ready d False, of u c] un d inv by (auto simp: undoable_entry_def keeps_old_def)
  qed
qed

lemma revert_all_abs:
  assumes "revert_inv s K m" and "set ks \<subseteq> K"
  shows "\<exists>m'. ofold (revert_one u s c) ks m = Some m' \<and> revert_inv s K m' \<and> pm m' = abs_revert s m ks (pm m) \<and> keeps_old s m m'"
  using assms
proof (induction ks arbitrary: m)
  case (Cons k ks)
  obtain m1 where m1: "revert_one u s c k m = Some m1" "revert_inv s K m1" "pm m1 = abs_revert s m [k] (pm m)" "keeps_old s m m1"
    using revert_one_abs [OF Cons.prems(1), of k u c] Cons.prems(2) by (meson list.set_intros(1) subsetD)
  obtain m2 where "ofold (revert_one u s c) ks m1 = Some m2" "revert_inv s K m2" "pm m2 = abs_revert s m1 ks (pm m1)" "keeps_old s m1 m2"
    using Cons.IH [OF m1(2)] Cons.prems(2) by auto
  then show ?case
    using m1 abs_revert_keeps [OF m1(4)] keeps_old_trans [OF m1(4)] by simp
qed (simp add: keeps_old_def)

lemma undo_all_heap:
  assumes "ofold (undo_one u s) ks m = Some m'" and "revert_inv s K m" and "set ks \<subseteq> K"
  shows "heap m' = heap m \<and> revert_inv s K m'"
  using assms(1)
proof (rule ofold_invariant [where P = "\<lambda>m'. heap m' = heap m \<and> revert_inv s K m'"])
  fix k n t assume "k \<in> set ks" "undo_one u s k n = Some t" "heap n = heap m \<and> revert_inv s K n"
  moreover from this obtain d where "seq_abs s k = Some d" using assms(3) by (auto simp: revert_inv_def)
  ultimately show "heap t = heap m \<and> revert_inv s K t"
    using undo_one_step [of s K n k d u] assms(3) revert_inv_same_shape by fastforce
qed (use assms(2) in simp)


section \<open>Quiet environments\<close>

text \<open>
  The program's wait status is a function of persistent memory; running it, opening and closing the pool
  leave the memory as it is, and the pool is mapped at the same address every time.
\<close>

definition quiet_env :: "'w environment \<Rightarrow> addr \<Rightarrow> ((addr \<Rightarrow> byte option) \<Rightarrow> int) \<Rightarrow> bool" where
  "quiet_env env pop status \<longleftrightarrow> (\<forall>m. env_system env m = (status (pm m), m) \<and> env_kill env m = m \<and>
     env_open env m = (Some pop, m) \<and> (\<forall>p. env_close env p m = m))"

definition addresses_at :: "addr \<Rightarrow> seq_log \<Rightarrow> bool" where
  "addresses_at pop s \<longleftrightarrow> (\<forall>n \<in> set (concat (sl_list s)).
     sd_sorted_pmem_address (sn_ordered_data n) = pop + sd_offset (sn_ordered_data n))"

definition recovers :: "((addr \<Rightarrow> byte option) \<Rightarrow> int) \<Rightarrow> (addr \<Rightarrow> byte option) \<Rightarrow> bool" where
  "recovers status p \<longleftrightarrow> \<not> (WIFEXITED (status p) \<and> WEXITSTATUS (status p) \<noteq> 0)"

definition reaction_ok :: "'w reaction \<Rightarrow> addr \<Rightarrow> ((addr \<Rightarrow> byte option) \<Rightarrow> int) \<Rightarrow> seq_log \<Rightarrow> bool" where
  "reaction_ok rx pop status s \<longleftrightarrow> quiet_env (rx_env rx) pop status \<and> uses_libpmemobj rx \<and>
     rx_coarse_grained_tries rx \<noteq> MAX_COARSE_ATTEMPTS \<and> addresses_at pop s"

lemma redo_quiet:
  assumes "quiet_env env pop status" and "addresses_at pop s" and "seq_wf s"
  shows "redo_pmem_addresses (env_open env) s m = Some (Some pop, s, m)"
proof -
  let ?f = "\<lambda>d. d\<lparr>sd_sorted_pmem_address := pop + sd_offset d\<rparr>"
  have "map (\<lambda>temp. temp\<lparr>sn_ordered_data := ?f (sn_ordered_data temp)\<rparr>) c = c" if "c \<in> set (sl_list s)" for c
  proof (rule map_idI)
    fix n assume "n \<in> set c"
    then have "sd_sorted_pmem_address (sn_ordered_data n) = pop + sd_offset (sn_ordered_data n)"
      using assms(2) that by (auto simp: addresses_at_def)
    then have "?f (sn_ordered_data n) = sn_ordered_data n" by (simp flip: single_data.surjective)
    then show "n\<lparr>sn_ordered_data := ?f (sn_ordered_data n)\<rparr> = n" by simp
  qed
  then have "map_log ?f s = s" by (simp add: map_log_def map_idI)
  then show ?thesis
    using assms(1) map_bucket_all [of s ?f] seq_wfD(1,3) [OF assms(3)]
    by (simp add: redo_pmem_addresses_def quiet_env_def)
qed

lemma re_execute_quiet:
  assumes ok: "reaction_ok rx pop status s" and wf: "seq_wf s"
  shows "re_execute (rx_env rx) u (rx_coarse_grained_tries rx) FINE_GRAIN k a s m =
    Some (if recovers status (pm m) then 1 else - 1, s, m)"
proof -
  have q: "quiet_env (rx_env rx) pop status" and at: "addresses_at pop s"
    and tries: "rx_coarse_grained_tries rx \<noteq> MAX_COARSE_ATTEMPTS"
    using ok by (auto simp: reaction_ok_def)
  have "reopen (rx_env rx) s m = Some (pop, s, m)" using redo_quiet [OF q at wf] by (simp add: reopen_def)
  moreover have "env_system (rx_env rx) m = (status (pm m), m)" "env_close (rx_env rx) pop m = m"
    using q by (auto simp: quiet_env_def)
  ultimately show ?thesis
    using tries by (subst re_execute.simps)
      (auto simp: reexecute_flag_def recovers_def FINE_GRAIN_def COARSE_GRAIN_NAIVE_def COARSE_GRAIN_SEQUENCE_def)
qed

section \<open>One round\<close>

text \<open>The state of a search between rounds: the memory observed is that of \<open>m0\<close>.\<close>

definition run_inv :: "seq_log \<Rightarrow> int set \<Rightarrow> 'w cmem \<Rightarrow> 'w reactor_run \<Rightarrow> bool" where
  "run_inv s K m0 st \<longleftrightarrow> rr_slog st = s \<and> revert_inv s K (rr_mem st) \<and> pm (rr_mem st) = pm m0 \<and> keeps_old s m0 (rr_mem st)"

lemma attempt_quiet:
  assumes ok: "reaction_ok rx pop status s" and inv: "run_inv s K m0 st"
    and part: "set part \<subseteq> K" "part \<noteq> []" "sorted part" "length part \<le> buffer"
  shows "\<exists>m'. attempt rx part buffer flag st =
      Some (if recovers status (pm m') then 1 else - 1, st\<lparr>rr_mem := m', rr_pop := pop,
        rr_binary_reverted_items := int (length part), rr_total_reexecutions := rr_total_reexecutions st + 1\<rparr>) \<and>
    ofold (revert_one (rx_uninit rx) s (rx_clog rx)) (rev part) (rr_mem st) = Some m' \<and>
    pm m' = abs_revert s m0 (rev part) (pm m0) \<and> revert_inv s K m' \<and> keeps_old s m0 m'"
proof -
  have inv': "rr_slog st = s" "revert_inv s K (rr_mem st)" "pm (rr_mem st) = pm m0" "keeps_old s m0 (rr_mem st)"
    using inv by (auto simp: run_inv_def)
  have wf: "seq_wf s" using inv'(2) by (simp add: revert_inv_def log_ready_def)
  have key: "\<forall>k \<in> set part. seq_key k" using inv'(2) part(1) log_ready_key unfolding revert_inv_def by blast
  have "sort part = part" using part(3) by (rule sort_key_id_if_sorted [where f = "\<lambda>x. x", simplified])
  then have dec: "decision_func_sequence_array part (int (length part)) (replicate buffer 0) 0 =
      Some (rev part @ replicate (buffer - length part) 0, int (length part))"
    using decision_func_eq [of "length part" part "replicate buffer 0"] part(4) key by simp
  obtain m' where m': "ofold (revert_one (rx_uninit rx) s (rx_clog rx)) (rev part) (rr_mem st) = Some m'"
    "revert_inv s K m'" "pm m' = abs_revert s (rr_mem st) (rev part) (pm (rr_mem st))" "keeps_old s (rr_mem st) m'"
    using revert_all_abs [OF inv'(2), of "rev part" "rx_uninit rx" "rx_clog rx"] part(1) by auto
  have rev: "revert_by_sequence_number_array (rx_uninit rx) s (rev part @ replicate (buffer - length part) 0)
      (int (length part)) (rx_clog rx) (rr_mem st) = Some m'"
    using revert_array_ofold [of "length part" "rev part @ replicate (buffer - length part) 0"
        "rx_uninit rx" s "rx_clog rx" "rr_mem st"] m'(1) by simp
  have q: "quiet_env (rx_env rx) pop status" "uses_libpmemobj rx" "addresses_at pop s"
    using ok by (auto simp: reaction_ok_def)
  then have close: "env_close (rx_env rx) p m' = m'" for p by (simp add: quiet_env_def)
  have "attempt rx part buffer flag st =
      Some (if recovers status (pm m') then 1 else - 1, st\<lparr>rr_mem := m', rr_pop := pop,
        rr_binary_reverted_items := int (length part), rr_total_reexecutions := rr_total_reexecutions st + 1\<rparr>)"
    using dec rev part(2) re_execute_quiet [OF ok wf] redo_quiet [OF q(1,3) wf] q(2) close inv'(1)
    by (simp add: attempt_def Let_def fine_grain_re_execute_def redo_pop_def close_pop_def)
  then show ?thesis
    using m' inv'(3) abs_revert_keeps [OF inv'(4)] keeps_old_trans [OF inv'(4)] by auto
qed

lemma undo_part_quiet:
  assumes inv: "run_inv s K m0 st" and part: "set part \<subseteq> K" "distinct part"
    and rev: "ofold (revert_one (rx_uninit rx) s (rx_clog rx)) (rev part) (rr_mem st) = Some m'"
    and st': "rr_slog st' = s" "rr_mem st' = m'" and keep: "keeps_old s m0 m'"
  shows "\<exists>m''. undo_part rx part st' = Some (st'\<lparr>rr_mem := m''\<rparr>) \<and> run_inv s K m0 (st'\<lparr>rr_mem := m''\<rparr>)"
proof -
  have inv': "revert_inv s K (rr_mem st)" "pm (rr_mem st) = pm m0" using inv by (auto simp: run_inv_def)
  obtain m'' where m'': "ofold (undo_one (rx_uninit rx) s) part m' = Some m''" "revert_inv s K m'" "pm m'' = pm (rr_mem st)"
    using rev_undo.undo_restores [OF inv'(1), of "rev part" "rx_uninit rx" "rx_clog rx"] part rev by auto
  have h: "heap m'' = heap m'" "revert_inv s K m''" using undo_all_heap [OF m''(1,2) part(1)] by auto
  have "keeps_old s m' m''" using keeps_old_same_heap [OF _ h(1)] m''(2) by (simp add: revert_inv_def)
  then show ?thesis
    using m'' h keep keeps_old_trans [OF keep] inv'(2) st'
    by (auto simp: undo_part_def undo_by_sequence_number_array_def run_inv_def)
qed


section \<open>The search\<close>

definition infix_of :: "'a list \<Rightarrow> 'a list \<Rightarrow> bool" where
  "infix_of ks xs \<longleftrightarrow> (\<exists>ys zs. xs = ys @ ks @ zs)"

lemma infix_of_trans: "infix_of ks xs \<Longrightarrow> infix_of xs vs \<Longrightarrow> infix_of ks vs"
  unfolding infix_of_def by (metis append.assoc)

lemma split_halves_standard:
  assumes "xs \<noteq> []" and "split_halves xs 0 (int (length xs) - 1) = Some (left, right)"
  shows "left \<noteq> []" "right \<noteq> []" "infix_of left xs" "infix_of right xs"
    "length left \<le> length xs" "length right \<le> length xs"
    "length right \<noteq> 1 \<Longrightarrow> length right < length xs" "length left \<noteq> 1 \<Longrightarrow> length left < length xs"
proof -
  let ?mid = "(int (length xs) - 1) div 2"
  have n: "1 \<le> length xs" using assms(1) by (cases xs) auto
  have LR: "left = take (nat (?mid + 1)) xs" "right = (if ?mid = 0 \<and> length xs = 1 then xs else drop (nat (?mid + 1)) xs)"
    using assms(2) by (auto simp: split_halves_def Let_def split: if_splits)
  have mid: "0 \<le> ?mid" using n by linarith
  have small: "length xs \<noteq> 1 \<Longrightarrow> nat (?mid + 1) < length xs" using n by linarith
  have "nat (?mid + 1) \<noteq> 0" using mid by linarith
  then show "left \<noteq> []" unfolding LR(1) using assms(1) by (metis take_eq_Nil)
  show "right \<noteq> []" using LR(2) small n assms(1) by (auto split: if_splits)
  show "infix_of left xs"
    unfolding infix_of_def LR(1) by (rule exI [of _ "[]"], rule exI [of _ "drop (nat (?mid + 1)) xs"]) simp
  show "infix_of right xs"
  proof (cases "?mid = 0 \<and> length xs = 1")
    case True
    then have "right = xs" using LR(2) by simp
    then show ?thesis unfolding infix_of_def by (intro exI [of _ "[]"]) simp
  next
    case False
    then have "right = drop (nat (?mid + 1)) xs" using LR(2) by argo
    then show ?thesis
      unfolding infix_of_def by (intro exI [of _ "take (nat (?mid + 1)) xs"] exI [of _ "[]"]) simp
  qed
  show "length left \<le> length xs" "length right \<le> length xs" using LR by auto
  show "length right \<noteq> 1 \<Longrightarrow> length right < length xs" using LR(2) mid n by (auto split: if_splits)
  show "length left \<noteq> 1 \<Longrightarrow> length left < length xs"
    using LR(1) small n by (cases "length xs = 1") auto
qed

lemma split_halves_defined:
  "xs \<noteq> [] \<Longrightarrow> \<exists>left right. split_halves xs 0 (int (length xs) - 1) = Some (left, right)"
proof -
  assume "xs \<noteq> []"
  then have "1 \<le> length xs" by (cases xs) auto
  then have "0 \<le> (int (length xs) - 1) div 2" "nat ((int (length xs) - 1) div 2 + 1) \<le> length xs" by linarith+
  then show ?thesis by (simp add: split_halves_def Let_def)
qed

lemma infix_of_sub: "infix_of ks xs \<Longrightarrow> set ks \<subseteq> set xs \<and> (sorted xs \<longrightarrow> sorted ks) \<and> (distinct xs \<longrightarrow> distinct ks)"
  by (auto simp: infix_of_def sorted_append)

text \<open>The outcome of a search that started in \<open>st\<close> with the memory of \<open>m0\<close> and ended in \<open>st'\<close>.\<close>

definition search_outcome ::
    "((addr \<Rightarrow> byte option) \<Rightarrow> int) \<Rightarrow> int set \<Rightarrow> seq_log \<Rightarrow> 'w cmem \<Rightarrow> int list \<Rightarrow> int \<Rightarrow> 'w reactor_run \<Rightarrow> 'w reactor_run \<Rightarrow> bool" where
  "search_outcome status K s m0 xs rounds st st' \<longleftrightarrow> (\<exists>ks. ks \<noteq> [] \<and> infix_of ks xs \<and>
     pm (rr_mem st') = abs_revert s m0 (rev ks) (pm m0) \<and> rr_binary_reverted_items st' = int (length ks) \<and>
     rr_binary_success st' = (if recovers status (pm (rr_mem st')) then 1 else rr_binary_success st) \<and>
     rr_binary_reversion_count st' = 0 \<and> rr_slog st' = s \<and>
     revert_inv s K (rr_mem st') \<and> keeps_old s m0 (rr_mem st') \<and>
     rr_total_reverted_items st' = rr_total_reverted_items st \<and>
     rr_total_reexecutions st < rr_total_reexecutions st' \<and>
     rr_total_reexecutions st' \<le> rr_total_reexecutions st + rounds)"

lemma search_outcome_sub:
  assumes "search_outcome status K s m0 ks rounds st1 st'" and "infix_of ks xs"
    and "rr_binary_success st1 = rr_binary_success st"
    and "rr_total_reexecutions st1 = rr_total_reexecutions st + 1"
    and "rr_total_reverted_items st1 = rr_total_reverted_items st"
  shows "search_outcome status K s m0 xs (rounds + 1) st st'"
proof -
  obtain js where js: "js \<noteq> []" "infix_of js ks" "pm (rr_mem st') = abs_revert s m0 (rev js) (pm m0)"
    "rr_binary_reverted_items st' = int (length js)"
    "rr_binary_success st' = (if recovers status (pm (rr_mem st')) then 1 else rr_binary_success st1)"
    "rr_binary_reversion_count st' = 0" "rr_slog st' = s" "revert_inv s K (rr_mem st')" "keeps_old s m0 (rr_mem st')"
    "rr_total_reverted_items st' = rr_total_reverted_items st1" "rr_total_reexecutions st1 < rr_total_reexecutions st'"
    "rr_total_reexecutions st' \<le> rr_total_reexecutions st1 + rounds"
    using assms(1) unfolding search_outcome_def by blast
  have "infix_of js xs" by (rule infix_of_trans [OF js(2) assms(2)])
  then show ?thesis
    unfolding search_outcome_def using js assms(3-5) by (intro exI [of _ js]) simp
qed

text \<open>
  One level of the search, spelled out: the right half is reverted and tried, and undone again; which call follows depends on whether
  the program recovered.
\<close>

lemma binary_reversion_level:
  assumes ok: "reaction_ok rx pop status s" and "xs \<noteq> []" and "sorted xs" and "distinct xs" and "set xs \<subseteq> K" and inv: "run_inv s K m0 st"
    and sp: "split_halves xs 0 (int (length xs) - 1) = Some (left, right)"
  obtains m1 m2 st2 where "st2 = st\<lparr>rr_mem := m1, rr_pop := pop, rr_binary_reverted_items := int (length right),
      rr_total_reexecutions := rr_total_reexecutions st + 1, rr_binary_reversion_count := rr_binary_reversion_count st + 1\<rparr>"
    and "pm m1 = abs_revert s m0 (rev right) (pm m0)" and "revert_inv s K m1" and "keeps_old s m0 m1"
    and "run_inv s K m0 (st2\<lparr>rr_mem := m2\<rparr>)"
    and "binary_reversion rx flag0 xs 0 (int (length xs) - 1) st =
     (if recovers status (pm m1) then
        if rr_binary_reversion_count st + 1 > 2 \<or> length right = 1
        then Some (0, st2\<lparr>rr_binary_reversion_count := 0, rr_binary_success := 1\<rparr>)
        else map_option (\<lambda>(_, st4). (- 1, st4)) (binary_reversion rx flag0 right 0 (int (length right) - 1) (st2\<lparr>rr_mem := m2\<rparr>))
      else if rr_binary_reversion_count st + 1 > 2 \<or> length left = 1
        then (case attempt rx left (length xs) (- 1) (st2\<lparr>rr_mem := m2, rr_binary_reversion_count := 0\<rparr>) of None \<Rightarrow> None
          | Some (f, st4) \<Rightarrow> Some (1, if f = 1 then st4\<lparr>rr_binary_success := 1\<rparr> else st4))
        else map_option (\<lambda>(_, st4). (- 1, st4)) (binary_reversion rx flag0 left 0 (int (length left) - 1) (st2\<lparr>rr_mem := m2\<rparr>)))"
proof -
  note half = split_halves_standard [OF assms(2) sp]
  have sub: "set right \<subseteq> K" "sorted right" "distinct right" using infix_of_sub [OF half(4)] assms(3-5) by auto
  have n: "\<not> int (length xs) - 1 < 0" using assms(2) by (cases xs) auto
  obtain m1 where at: "attempt rx right (length xs) flag0 st =
      Some (if recovers status (pm m1) then 1 else - 1, st\<lparr>rr_mem := m1, rr_pop := pop,
        rr_binary_reverted_items := int (length right), rr_total_reexecutions := rr_total_reexecutions st + 1\<rparr>)"
    "ofold (revert_one (rx_uninit rx) s (rx_clog rx)) (rev right) (rr_mem st) = Some m1"
    "pm m1 = abs_revert s m0 (rev right) (pm m0)" "revert_inv s K m1" "keeps_old s m0 m1"
    using attempt_quiet [OF ok inv sub(1) half(2) sub(2) half(6), of flag0] by blast
  define st2 where "st2 = st\<lparr>rr_mem := m1, rr_pop := pop, rr_binary_reverted_items := int (length right),
      rr_total_reexecutions := rr_total_reexecutions st + 1, rr_binary_reversion_count := rr_binary_reversion_count st + 1\<rparr>"
  have st2: "rr_slog st2 = s" "rr_mem st2 = m1" using inv by (simp_all add: st2_def run_inv_def)
  obtain m2 where un: "undo_part rx right st2 = Some (st2\<lparr>rr_mem := m2\<rparr>)" "run_inv s K m0 (st2\<lparr>rr_mem := m2\<rparr>)"
    using undo_part_quiet [OF inv sub(1,3) at(2) st2 at(5)] by blast
  show thesis
    by (rule that [OF st2_def at(3-5) un(2)], use sp at(1) un(1) n in
      \<open>subst binary_reversion.simps, simp add: Let_def BINARY_REVERSION_ATTEMPTS_def st2_def\<close>)
qed

lemma binary_reversion_search:
  assumes ok: "reaction_ok rx pop status s" and "xs \<noteq> []" and "sorted xs" and "distinct xs" and "set xs \<subseteq> K"
    and "run_inv s K m0 st" and "0 \<le> rr_binary_reversion_count st" and "rr_binary_reversion_count st \<le> 2"
  shows "\<exists>r st'. binary_reversion rx flag0 xs 0 (int (length xs) - 1) st = Some (r, st') \<and>
    search_outcome status K s m0 xs (4 - rr_binary_reversion_count st) st st'"
  using assms(2-)
proof (induction "length xs" arbitrary: xs st rule: less_induct)
  case less
  note inv = less.prems(5)
  let ?c = "rr_binary_reversion_count st"
  obtain left right where sp: "split_halves xs 0 (int (length xs) - 1) = Some (left, right)"
    using split_halves_defined [OF less.prems(1)] by blast
  note half = split_halves_standard [OF less.prems(1) sp]
  have sub: "set left \<subseteq> K" "sorted left" "distinct left" "set right \<subseteq> K" "sorted right" "distinct right"
    using infix_of_sub [OF half(3)] infix_of_sub [OF half(4)] less.prems by auto
  obtain m1 m2 st2 where st2_def: "st2 = st\<lparr>rr_mem := m1, rr_pop := pop, rr_binary_reverted_items := int (length right),
      rr_total_reexecutions := rr_total_reexecutions st + 1, rr_binary_reversion_count := ?c + 1\<rparr>"
    and at: "pm m1 = abs_revert s m0 (rev right) (pm m0)" "revert_inv s K m1" "keeps_old s m0 m1"
    and un: "run_inv s K m0 (st2\<lparr>rr_mem := m2\<rparr>)"
    and unfold: "binary_reversion rx flag0 xs 0 (int (length xs) - 1) st =
     (if recovers status (pm m1) then
        if ?c + 1 > 2 \<or> length right = 1
        then Some (0, st2\<lparr>rr_binary_reversion_count := 0, rr_binary_success := 1\<rparr>)
        else map_option (\<lambda>(_, st4). (- 1, st4)) (binary_reversion rx flag0 right 0 (int (length right) - 1) (st2\<lparr>rr_mem := m2\<rparr>))
      else if ?c + 1 > 2 \<or> length left = 1
        then (case attempt rx left (length xs) (- 1) (st2\<lparr>rr_mem := m2, rr_binary_reversion_count := 0\<rparr>) of None \<Rightarrow> None
          | Some (f, st4) \<Rightarrow> Some (1, if f = 1 then st4\<lparr>rr_binary_success := 1\<rparr> else st4))
        else map_option (\<lambda>(_, st4). (- 1, st4)) (binary_reversion rx flag0 left 0 (int (length left) - 1) (st2\<lparr>rr_mem := m2\<rparr>)))"
    by (rule binary_reversion_level [OF ok less.prems(1-5) sp])
  have st2: "rr_slog st2 = s" "rr_mem st2 = m1" "rr_binary_success st2 = rr_binary_success st"
    "rr_total_reexecutions st2 = rr_total_reexecutions st + 1" "rr_binary_reversion_count st2 = ?c + 1"
    "rr_total_reverted_items st2 = rr_total_reverted_items st"
    using inv by (simp_all add: st2_def run_inv_def)
  have rec: "\<exists>r st'. map_option (\<lambda>(_, st4). (- 1 :: int, st4)) (binary_reversion rx flag0 half_list 0 (int (length half_list) - 1) (st2\<lparr>rr_mem := m2\<rparr>))
        = Some (r, st') \<and> search_outcome status K s m0 xs (4 - ?c) st st'"
    if h: "length half_list < length xs" "half_list \<noteq> []" "sorted half_list" "distinct half_list" "set half_list \<subseteq> K"
      "infix_of half_list xs" "\<not> ?c + 1 > 2" for half_list
  proof -
    obtain r st' where r: "binary_reversion rx flag0 half_list 0 (int (length half_list) - 1) (st2\<lparr>rr_mem := m2\<rparr>) = Some (r, st')"
      "search_outcome status K s m0 half_list (4 - (?c + 1)) (st2\<lparr>rr_mem := m2\<rparr>) st'"
      using less.hyps [OF h(1-5) un] less.prems(6) h(7) st2 by auto
    have "search_outcome status K s m0 xs (4 - (?c + 1) + 1) st st'"
      by (rule search_outcome_sub [OF r(2) h(6)]) (simp_all add: st2)
    then show ?thesis using r(1) by simp
  qed
  show ?case
  proof (cases "recovers status (pm m1)")
    case rc: True
    show ?thesis
    proof (cases "?c + 1 > 2 \<or> length right = 1")
      case True
      have "search_outcome status K s m0 xs (4 - ?c) st (st2\<lparr>rr_binary_reversion_count := 0, rr_binary_success := 1\<rparr>)"
        unfolding search_outcome_def using half(2,4) at(1,2,3) rc less.prems(7) st2
        by (intro exI [of _ right]) (auto simp: st2_def)
      then show ?thesis using unfold rc True by auto
    next
      case False
      then show ?thesis using unfold rc rec [OF half(7) half(2) sub(5,6,4) half(4)] by auto
    qed
  next
    case nrc: False
    show ?thesis
    proof (cases "?c + 1 > 2 \<or> length left = 1")
      case True
      let ?st3 = "st2\<lparr>rr_mem := m2, rr_binary_reversion_count := 0\<rparr>"
      have "run_inv s K m0 ?st3" using un by (simp add: run_inv_def)
      then obtain m3 where at2: "attempt rx left (length xs) (- 1) ?st3 =
          Some (if recovers status (pm m3) then 1 else - 1, ?st3\<lparr>rr_mem := m3, rr_pop := pop,
            rr_binary_reverted_items := int (length left), rr_total_reexecutions := rr_total_reexecutions ?st3 + 1\<rparr>)"
        "pm m3 = abs_revert s m0 (rev left) (pm m0)" "revert_inv s K m3" "keeps_old s m0 m3"
        using attempt_quiet [OF ok _ sub(1) half(1) sub(2) half(5)] by blast
      let ?st4 = "?st3\<lparr>rr_mem := m3, rr_pop := pop,
            rr_binary_reverted_items := int (length left), rr_total_reexecutions := rr_total_reexecutions ?st3 + 1\<rparr>"
      have "search_outcome status K s m0 xs (4 - ?c) st
          (if recovers status (pm m3) then ?st4\<lparr>rr_binary_success := 1\<rparr> else ?st4)"
        unfolding search_outcome_def using half(1,3) at2(2-4) less.prems(7) st2
        by (intro exI [of _ left]) (auto simp: st2_def)
      then show ?thesis using unfold nrc True at2(1) by auto
    next
      case False
      then show ?thesis using unfold nrc rec [OF half(8) half(1) sub(2,3,1) half(3)] by auto
    qed
  qed
qed

lemma addresses_at_abs:
  assumes "seq_wf s"
  shows "addresses_at pop s \<longleftrightarrow> (\<forall>k d. seq_abs s k = Some d \<longrightarrow> sd_sorted_pmem_address d = pop + sd_offset d)"
  unfolding addresses_at_def seq_abs_node [OF assms] by blast

lemma run_inv_start: "revert_inv (rr_slog st) K (rr_mem st) \<Longrightarrow> run_inv (rr_slog st) K (rr_mem st) st"
  by (simp add: run_inv_def keeps_old_def)

text \<open>A reaction on the one-entry log: the program recovers when the older version is back.\<close>

definition sample_reaction :: "unit reaction" where
  "sample_reaction = \<lparr>rx_env = \<lparr>env_system = (\<lambda>m. (if pm m 8192 = Some 3 then 0 else 256, m)), env_kill = (\<lambda>m. m),
       env_open = (\<lambda>m. (Some 8128, m)), env_close = (\<lambda>_ m. m)\<rparr>,
     rx_options = zero_options\<lparr>opt_pmem_library := Some ''libpmemobj''\<rparr>, rx_clog = sample_clog,
     rx_pool_address = 0, rx_uninit = sample_data, rx_coarse_grained_tries = 0,
     rx_uninit_flag = 0\<rparr>"

definition sample_run :: "unit reactor_run" where
  "sample_run = \<lparr>rr_mem = sample_pool, rr_slog = sample_log, rr_pop = 8128, rr_binary_success = - 1,
     rr_binary_reversion_count = 0, rr_binary_reverted_items = 0, rr_total_reverted_items = 0, rr_total_reexecutions = 0\<rparr>"

lemma sample_reaction_ok:
  "reaction_ok sample_reaction 8128 (\<lambda>p. if p 8192 = Some 3 then 0 else 256) (rr_slog sample_run)"
proof -
  have "addresses_at 8128 sample_log"
    unfolding addresses_at_abs [OF sample_log_abs(1)] by (simp add: sample_log_abs) (simp add: sample_data_def)
  then show ?thesis
    by (simp add: reaction_ok_def quiet_env_def uses_libpmemobj_def sample_reaction_def sample_run_def MAX_COARSE_ATTEMPTS_def)
qed

section \<open>Properties\<close>





end
