(* ===== verification/LogCreation.thy ===== *)
theory LogCreation
  imports Rollback
begin

text \<open>
  The preparation steps 4a to 4c of \<open>Reactor::react\<close> (\<open>reactor/lib/core.cpp\<close>): allocating and filling the
  sequence log, the revert log and the transaction log, the multimap from offsets to sequence numbers,
  and the assignment of the current pool addresses to the log entries through that multimap. The
  last step is shown to compute the same as the direct triple loop \<open>sort_by_sequence_number\<close> of
  \<open>reactor/lib/rollback.c\<close>, which it replaced. A \<open>std::multimap\<close> is the list of its pairs in the order of
  insertion; \<open>equal_range\<close> keeps that order among equal keys.
\<close>

section \<open>Multimaps\<close>

type_synonym ('k, 'v) multimap = "('k \<times> 'v) list"

definition equal_range :: "('k, 'v) multimap \<Rightarrow> 'k \<Rightarrow> 'v list" where
  "equal_range mm k = map snd (filter (\<lambda>kv. fst kv = k) mm)"

section \<open>Operations\<close>

definition LOG_SIZE :: nat where "LOG_SIZE = 16000010"

text \<open>\<open>sizeof(struct seq_node)\<close> is 144 bytes, 18 pointer cells: the revert log's array is that much larger.\<close>

definition seq_node_cells :: nat where "seq_node_cells = 18"

text \<open>The result is the sequence log, \<open>*total_size\<close>, the revert log and the memory.\<close>

definition seq_log_creation ::
    "nat \<Rightarrow> single_data \<Rightarrow> checkpoint_log \<Rightarrow> 'w cmem \<Rightarrow> (seq_log \<times> nat \<times> seq_log \<times> 'w cmem) option" where
  "seq_log_creation log_size uninit c_log m = do {
     let s_log = empty_seq_log log_size log_size;
     (m', s_log', total_size, _) \<leftarrow> order_by_sequence_num c_log (m, s_log, 0, uninit);
     let r_log = empty_seq_log total_size (seq_node_cells * total_size);
     Some (s_log', total_size, r_log, m')
   }"

text \<open>
  After filling the log, the entries in the bucket of transaction 1 are printed as \<open>double\<close> and as \<open>int\<close>,
  which reads eight bytes of each entry's buffer.
\<close>

definition tx_log_creation :: "nat \<Rightarrow> single_data \<Rightarrow> checkpoint_log \<Rightarrow> 'w cmem \<Rightarrow> (tx_log \<times> 'w cmem) option" where
  "tx_log_creation log_size uninit c_log m = do {
     (m', t_log, _) \<leftarrow> order_by_tx_id c_log (m, empty_tx_log log_size, uninit);
     pos \<leftarrow> txhashCode t_log 1;
     t_list \<leftarrow> chain_at (tl_list t_log) pos;
     if list_all (\<lambda>t_temp. load_bytes m' (sd_data (tn_ordered_data t_temp)) 8 \<noteq> None) t_list
     then Some (t_log, m') else None
   }"

definition offset_seq_creation :: "seq_log \<Rightarrow> (addr, int) multimap \<Rightarrow> (addr, int) multimap option" where
  "offset_seq_creation s_log offset_seq_map = map_option
     (\<lambda>nodes. offset_seq_map @ map (\<lambda>temp. (sd_offset (sn_ordered_data temp), sn_sequence_number temp)) nodes)
     (seq_nodes s_log)"

definition sort_creation ::
    "addr list \<Rightarrow> addr list \<Rightarrow> nat \<Rightarrow> (addr, int) multimap \<Rightarrow> seq_log \<Rightarrow> seq_log option" where
  "sort_creation offsets pmem_addresses num_data offset_seq_map s_log =
     ofold (\<lambda>j s_log. do {
         off \<leftarrow> slot offsets j;
         a \<leftarrow> slot pmem_addresses j;
         ofold (\<lambda>k s. lookup_modify s k a) (equal_range offset_seq_map off) s_log
       }) [0..<int_loop_bound num_data] s_log"

text \<open>\<open>findSmallestElement\<close>: the first element is read whatever the length.\<close>

definition findSmallestElement :: "int list \<Rightarrow> int \<Rightarrow> int option" where
  "findSmallestElement arr n = do {
     temp0 \<leftarrow> slot arr 0;
     ofold (\<lambda>i temp. do { x \<leftarrow> slot arr i; Some (if temp > x then x else temp) }) [0..<nat n] temp0
   }"

text \<open>
  \<open>address_seq_creation\<close>: the multimap from entry addresses to sequence numbers, and for the trace items of
  the fault instruction the highest number found at their address. The trace is the list of its
  instructions and addresses; \<open>cells\<close> is the size of the array \<open>sequences\<close>. The result is the multimap,
  \<open>*highest_num\<close> and \<open>*starting_seq_num\<close>.
\<close>

definition highest_of :: "int list \<Rightarrow> int" where
  "highest_of qs = fold (\<lambda>q highest. if q > highest then q else highest) qs (- 1)"

definition address_seq_creation ::
    "nat \<Rightarrow> ('i \<times> addr) list \<Rightarrow> 'i \<Rightarrow> seq_log \<Rightarrow> int \<times> int \<Rightarrow> ((addr, int) multimap \<times> int \<times> int) option" where
  "address_seq_creation cells trace fault_inst s_log st = do {
     nodes \<leftarrow> seq_nodes s_log;
     let address_seq_nums = map (\<lambda>temp. (sd_address (sn_ordered_data temp), sn_sequence_number temp)) nodes;
     (highest, starting) \<leftarrow> ofold (\<lambda>(instr, a) (highest, starting).
         if instr = fault_inst
         then let qs = equal_range address_seq_nums a; h = highest_of qs in
           if length qs \<le> cells then Some (h, if h \<noteq> - 1 then h else starting) else None
         else Some (highest, starting)) trace st;
     Some (address_seq_nums, highest, starting)
   }"

section \<open>Lemmas\<close>

lemma modify_all_abs:
  assumes "seq_wf s" and "\<forall>k \<in> set ks. seq_key k"
  shows "\<exists>s'. ofold (\<lambda>k s. lookup_modify s k a) ks s = Some s' \<and> seq_wf s' \<and> (\<forall>k. seq_abs s' k =
    (if k \<in> set ks then map_option (sd_sorted_pmem_address_update (\<lambda>_. a)) (seq_abs s k) else seq_abs s k))"
  using assms
proof (induction ks arbitrary: s)
  case (Cons k ks)
  obtain s1 where s1: "lookup_modify s k a = Some s1" "seq_wf s1"
    "seq_abs s1 = (seq_abs s)(k := map_option (sd_sorted_pmem_address_update (\<lambda>_. a)) (seq_abs s k))"
    using lookup_modify_abs [OF Cons.prems(1), of k a] Cons.prems(2) by auto
  obtain s2 where "ofold (\<lambda>k s. lookup_modify s k a) ks s1 = Some s2" "seq_wf s2" "\<forall>k. seq_abs s2 k =
    (if k \<in> set ks then map_option (sd_sorted_pmem_address_update (\<lambda>_. a)) (seq_abs s1 k) else seq_abs s1 k)"
    using Cons.IH [OF s1(2)] Cons.prems(2) by auto
  then show ?case using s1 by (auto simp: option.map_comp comp_def)
qed simp

lemma offset_range:
  assumes "seq_wf s" and "offset_seq_creation s [] = Some mm"
  shows "set (equal_range mm off) = {k. \<exists>d. seq_abs s k = Some d \<and> sd_offset d = off}"
proof -
  have mm: "mm = map (\<lambda>temp. (sd_offset (sn_ordered_data temp), sn_sequence_number temp)) (concat (sl_list s))"
    using assms by (simp add: offset_seq_creation_def seq_nodes_wf)
  show ?thesis unfolding seq_abs_node [OF assms(1)] mm
    by (auto simp: equal_range_def filter_map comp_def image_iff)
qed

lemma sort_creation_abs:
  assumes wf: "seq_wf s" and mm: "offset_seq_creation s [] = Some mm"
    and len: "n \<le> length offs" "n \<le> length addrs"
  shows "\<exists>s'. ofold (\<lambda>j s_log. do { off \<leftarrow> slot offs j; a \<leftarrow> slot addrs j;
         ofold (\<lambda>k s. lookup_modify s k a) (equal_range mm off) s_log }) [0..<n] s = Some s' \<and> seq_wf s' \<and>
    (\<forall>k. seq_abs s' k = map_option (assign_address offs addrs n) (seq_abs s k))"
  using len
proof (induction n)
  case 0
  then show ?case using wf by (simp add: assign_address_def option.map_ident)
next
  case (Suc n)
  let ?F = "\<lambda>j s_log. do { off \<leftarrow> slot offs j; a \<leftarrow> slot addrs j;
         ofold (\<lambda>k s. lookup_modify s k a) (equal_range mm off) s_log }"
  obtain s1 where s1: "ofold ?F [0..<n] s = Some s1" "seq_wf s1"
    "\<forall>k. seq_abs s1 k = map_option (assign_address offs addrs n) (seq_abs s k)"
    using Suc by auto
  let ?ks = "equal_range mm (offs ! n)"
  have ks: "set ?ks = {k. \<exists>d. seq_abs s k = Some d \<and> sd_offset d = offs ! n}" by (rule offset_range [OF wf mm])
  have "\<forall>k \<in> set ?ks. seq_key k"
    unfolding ks using seq_wfD(7) [OF wf] seq_abs_node [OF wf] by (auto simp: seq_key_def)
  then obtain s2 where s2: "ofold (\<lambda>k s. lookup_modify s k (addrs ! n)) ?ks s1 = Some s2" "seq_wf s2" "\<forall>k. seq_abs s2 k =
    (if k \<in> set ?ks then map_option (sd_sorted_pmem_address_update (\<lambda>_. addrs ! n)) (seq_abs s1 k) else seq_abs s1 k)"
    using modify_all_abs [OF s1(2)] by blast
  have "seq_abs s2 k = map_option (assign_address offs addrs (Suc n)) (seq_abs s k)" for k
  proof (cases "seq_abs s k")
    case (Some d)
    have "sd_offset (assign_address offs addrs n d) = sd_offset d"
      using assign_address_shape [of offs addrs n d] by auto
    then show ?thesis using Some s2(3) s1(3) ks by (auto simp: assign_address_Suc Let_def)
  qed (use s2(3) s1(3) in auto)
  moreover have "ofold ?F [0..<Suc n] s = Some s2"
  proof -
    have "?F n s1 = Some s2" using s2(1) Suc.prems by (simp add: slot_def)
    then show ?thesis using s1(1) by (simp only: upt_Suc_append le0 ofold_append ofold_single bind.bind_lunit)
  qed
  ultimately show ?case using s2(2) by blast
qed

section \<open>Properties\<close>

text \<open>
  The multimap-driven assignment of pool addresses in \<open>react\<close> is equivalent to the direct search through
  the whole log in \<open>sort_by_sequence_number\<close>: both succeed, and afterwards the two logs hold the same entry
  under every sequence number.
\<close>

theorem sort_creation_equivalent:
  assumes "seq_wf s" and "offset_seq_creation s [] = Some mm"
    and "n \<le> length offs" and "n \<le> length addrs" and "n < 2 ^ 31"
  shows "\<exists>s1 s2. sort_creation offs addrs n mm s = Some s1 \<and> sort_by_sequence_number (int n) addrs offs s = Some s2 \<and>
    seq_wf s1 \<and> seq_abs s1 = seq_abs s2"
proof -
  obtain s1 where "sort_creation offs addrs n mm s = Some s1" "seq_wf s1"
    "\<forall>k. seq_abs s1 k = map_option (assign_address offs addrs n) (seq_abs s k)"
    using sort_creation_abs [OF assms(1-4)] assms(5) by (auto simp: sort_creation_def int_loop_bound_id)
  moreover have "sort_by_sequence_number (int n) addrs offs s = Some (map_log (assign_address offs addrs n) s)"
    using seq_wfD(1,3) [OF assms(1)] assms(3,4) by (intro sort_by_sequence_number_eq) simp_all
  ultimately show ?thesis by (auto simp: seq_abs_map_log fun_eq_iff)
qed

theorem sort_creation_equivalent_witness:
  "\<exists>mm s1 s2 d. offset_seq_creation sample_log [] = Some mm \<and> sort_creation [8, 64] [900, 901] 2 mm sample_log = Some s1 \<and>
    sort_by_sequence_number 2 [900, 901] [8, 64] sample_log = Some s2 \<and> seq_abs s1 = seq_abs s2 \<and>
    seq_abs s1 7 = Some d \<and> sd_sorted_pmem_address d = 901"
proof -
  obtain mm where mm: "offset_seq_creation sample_log [] = Some mm"
    using seq_nodes_wf [OF sample_log_abs(1)] by (simp add: offset_seq_creation_def)
  obtain s1 s2 where *: "sort_creation [8, 64] [900, 901] 2 mm sample_log = Some s1"
    "sort_by_sequence_number 2 [900, 901] [8, 64] sample_log = Some s2" "seq_abs s1 = seq_abs s2"
    using sort_creation_equivalent [OF sample_log_abs(1) mm, of 2 "[8, 64]" "[900, 901]"] by auto
  have "s2 = map_log (assign_address [8, 64] [900, 901] 2) sample_log"
    using *(2) sort_by_sequence_number_eq [of sample_log 2 "[900, 901]" "[8, 64]"] seq_wfD(1,3) [OF sample_log_abs(1)] by simp
  then have "seq_abs s1 7 = Some (assign_address [8, 64] [900, 901] 2 sample_data)"
    using *(3) by (simp add: seq_abs_map_log sample_log_abs)
  moreover have "sd_sorted_pmem_address (assign_address [8, 64] [900, 901] 2 sample_data) = 901"
    by (simp add: assign_address_def upto_small sample_data_def)
  ultimately show ?thesis using mm * by blast
qed

end
