(* ===== verification/Reactor.thy ===== *)
theory Reactor
  imports BinaryReversion LogCreation
begin

text \<open>
  \<open>Reactor::react\<close> (\<open>reactor/lib/core.cpp\<close>): after the preparation it walks through the instructions of the
  slices of the fault instruction, collects for each the sequence numbers logged at the addresses
  that the instruction touched, and starts a binary reversion whenever more than one has been
  collected; or, with the option \<open>arckpt\<close>, reverts one sequence number after the other, newest first. The
  revert log \<open>r_log\<close> records what has been collected. The instruction type is a parameter. The results of
  the matcher, of the slicer and of mapping the files are inputs.

  The lemmas show that every sequence number is collected at most once and belongs to the log, so that
  the searches run under the conditions of \<open>BinaryReversion\<close>, and that an early return means recovery.
\<close>

section \<open>State\<close>

definition BATCH_REEXECUTION :: nat where "BATCH_REEXECUTION = 1"
definition ROLLBACK_MODE :: bool where "ROLLBACK_MODE = False"

record 'w slice_state =
  ss_run :: "'w reactor_run"
  ss_rlog :: seq_log
  ss_many :: "int list"
  ss_seq :: "int list"
  ss_clear :: bool
  ss_req_flag2 :: int
  ss_high_num :: int

section \<open>Collecting\<close>

text \<open>
  One round of the loop over \<open>sequences\<close>; \<open>cells\<close> is the size of the array \<open>slice_seq_numbers\<close>. The entry
  inserted into \<open>r_log\<close> is the uninitialised variable \<open>empty_data\<close>.
\<close>

definition collect_seq :: "nat \<Rightarrow> single_data \<Rightarrow> int \<Rightarrow> 'w slice_state \<Rightarrow> 'w slice_state option" where
  "collect_seq cells empty_data q st = do {
     search_num \<leftarrow> rev_lookup (ss_rlog st) q;
     if q \<noteq> - 1 \<and> search_num \<noteq> 1 then
       (if length (ss_seq st) < cells then do {
          r' \<leftarrow> insert_log (ss_rlog st) q empty_data;
          Some (st\<lparr>ss_many := ss_many st @ [q], ss_seq := ss_seq st @ [q], ss_rlog := r'\<rparr>)
        } else None)
     else Some st
   }"

text \<open>
  The sequence numbers at the address of one trace item are sorted in descending order into the array
  \<open>sequences\<close> and visited from its end.
\<close>

definition collect_item ::
    "nat \<Rightarrow> single_data \<Rightarrow> (addr, int) multimap \<Rightarrow> 'i \<Rightarrow> 'i \<times> addr \<Rightarrow> 'w slice_state \<Rightarrow> 'w slice_state option" where
  "collect_item cells empty_data address_seq_nums dep_inst = (\<lambda>(instr, a) st.
     if instr = dep_inst
     then let sequences = rev (sort (equal_range address_seq_nums a)) in
       if length sequences \<le> cells then ofold (collect_seq cells empty_data) (rev sequences) st else None
     else Some st)"

section \<open>Reverting\<close>

text \<open>
  \<open>ROLLBACK_MODE\<close>: all sequence numbers from the highest one down to the lowest one of the slice are
  reverted too.
\<close>

definition rollback_block :: "'w reaction \<Rightarrow> int list \<Rightarrow> int \<Rightarrow> 'w slice_state \<Rightarrow> 'w slice_state option" where
  "rollback_block rx decided decided_total st = do {
     lowest_number \<leftarrow> findSmallestElement decided decided_total;
     (r_log, rollback) \<leftarrow> ofold (\<lambda>i (r_log, rollback). do {
         s_num \<leftarrow> rev_lookup r_log i;
         if s_num \<noteq> 1 then do {
           r_log' \<leftarrow> insert_log r_log i (rx_uninit rx);
           Some (r_log', rollback @ [i])
         } else Some (r_log, rollback)
       }) (rev [lowest_number..ss_high_num st - 1]) (ss_rlog st, []);
     m' \<leftarrow> revert_by_sequence_number_array (rx_uninit rx) (rr_slog (ss_run st)) rollback (int (length rollback))
       (rx_clog rx) (rr_mem (ss_run st));
     Some (st\<lparr>ss_rlog := r_log, ss_high_num := lowest_number, ss_run := (ss_run st)\<lparr>rr_mem := m'\<rparr>\<rparr>)
   }"

text \<open>Reversion of the collected numbers without a search.\<close>

definition direct_reversion :: "'w reaction \<Rightarrow> nat \<Rightarrow> 'w slice_state \<Rightarrow> 'w slice_state option" where
  "direct_reversion rx cells st = do {
     (decided, decided_total) \<leftarrow> decision_func_sequence_array (ss_seq st) (int (length (ss_seq st))) (replicate cells 0) 0;
     m1 \<leftarrow> revert_by_sequence_number_array (rx_uninit rx) (rr_slog (ss_run st)) decided decided_total (rx_clog rx) (rr_mem (ss_run st));
     st1 \<leftarrow> (if ROLLBACK_MODE then rollback_block rx decided decided_total (st\<lparr>ss_run := (ss_run st)\<lparr>rr_mem := m1\<rparr>\<rparr>)
       else Some (st\<lparr>ss_run := (ss_run st)\<lparr>rr_mem := m1\<rparr>\<rparr>));
     if decided_total > 0 then do {
       let run1 = (if uses_libpmemobj rx then close_pop rx (ss_run st1) else ss_run st1);
       (r, run2) \<leftarrow> fine_grain_re_execute rx (- 1) run1;
       run3 \<leftarrow> redo_pop rx (run2\<lparr>rr_total_reexecutions := rr_total_reexecutions run2 + 1\<rparr>);
       Some (st1\<lparr>ss_req_flag2 := r, ss_run := run3\<lparr>rr_total_reverted_items := rr_total_reverted_items run3 + decided_total\<rparr>\<rparr>)
     } else Some st1
   }"

text \<open>The search over the collected numbers; \<open>True\<close> means that \<open>react\<close> returns.\<close>

definition search_reversion :: "'w reaction \<Rightarrow> 'w slice_state \<Rightarrow> (bool \<times> 'w slice_state) option" where
  "search_reversion rx st = (let many = sort (ss_many st) in do {
     (_, run) \<leftarrow> binary_reversion rx (rx_uninit_flag rx) many 0 (int (length many) - 1) ((ss_run st)\<lparr>rr_binary_success := - 1\<rparr>);
     let run' = run\<lparr>rr_total_reverted_items := rr_total_reverted_items run + rr_binary_reverted_items run\<rparr>;
     if rr_binary_success run' = 1 then Some (True, st\<lparr>ss_run := run', ss_many := many\<rparr>)
     else Some (False, st\<lparr>ss_run := run', ss_many := [], ss_clear := True\<rparr>)
   })"

section \<open>The loops\<close>

text \<open>What one slice item does; \<open>starting_seq_num\<close> is -1 throughout.\<close>

definition react_item ::
    "'w reaction \<Rightarrow> nat \<Rightarrow> (addr, int) multimap \<Rightarrow> ('i, 'i \<times> addr) multimap \<Rightarrow> 'i \<Rightarrow> 'w slice_state \<Rightarrow>
     (bool \<times> 'w slice_state) option" where
  "react_item rx cells address_seq_nums trace_instrs dep_inst st = do {
     st1 \<leftarrow> ofold (collect_item cells (rx_uninit rx) address_seq_nums dep_inst) (equal_range trace_instrs dep_inst) st;
     (found, st2) \<leftarrow> (if length (ss_many st1) > BATCH_REEXECUTION then search_reversion rx st1 else Some (False, st1));
     if found then Some (True, st2)
     else do {
       (found', st3) \<leftarrow> (if ss_seq st2 \<noteq> [] \<and> length (ss_many st2) < BATCH_REEXECUTION \<and> \<not> ss_clear st2
         then do { st' \<leftarrow> direct_reversion rx cells st2; Some (ss_req_flag2 st' = 1, st') }
         else Some (False, st2));
       if found' then Some (True, st3)
       else Some (False, st3\<lparr>ss_seq := [], ss_clear := False\<rparr>)
     }
   }"

fun react_items ::
    "'w reaction \<Rightarrow> nat \<Rightarrow> (addr, int) multimap \<Rightarrow> ('i, 'i \<times> addr) multimap \<Rightarrow> 'i list \<Rightarrow> 'w slice_state \<Rightarrow>
     (bool \<times> 'w slice_state) option" where
  "react_items rx cells mm ti [] st = Some (False, st)"
| "react_items rx cells mm ti (dep_inst # rest) st = do {
     (done, st') \<leftarrow> react_item rx cells mm ti dep_inst st;
     if done then Some (True, st') else react_items rx cells mm ti rest st'
   }"

fun react_slices ::
    "'w reaction \<Rightarrow> nat \<Rightarrow> (addr, int) multimap \<Rightarrow> ('i, 'i \<times> addr) multimap \<Rightarrow> 'i list list \<Rightarrow> 'w slice_state \<Rightarrow>
     (bool \<times> 'w slice_state) option" where
  "react_slices rx cells mm ti [] st = Some (False, st)"
| "react_slices rx cells mm ti (items # rest) st = do {
     (done, st') \<leftarrow> react_items rx cells mm ti items st;
     if done then Some (True, st') else react_slices rx cells mm ti rest st'
   }"

text \<open>The option \<open>arckpt\<close>: \<open>while (cpkt_ind > 0)\<close>, one sequence number at a time.\<close>

fun arckpt_loop :: "'w reaction \<Rightarrow> nat \<Rightarrow> 'w reactor_run \<Rightarrow> (bool \<times> 'w reactor_run) option" where
  "arckpt_loop rx 0 st = Some (False, st)"
| "arckpt_loop rx (Suc n) st = do {
     m1 \<leftarrow> revert_by_sequence_number_array (rx_uninit rx) (rr_slog st) [int (Suc n)] 1 (rx_clog rx) (rr_mem st);
     let st1 = st\<lparr>rr_mem := m1, rr_total_reverted_items := rr_total_reverted_items st + 1,
       rr_total_reexecutions := rr_total_reexecutions st + 1\<rparr>;
     let st2 = (if uses_libpmemobj rx then close_pop rx st1 else st1);
     (req_flag2, st3) \<leftarrow> fine_grain_re_execute rx (- 1) st2;
     if req_flag2 = 1 then Some (True, st3)
     else do {
       st4 \<leftarrow> redo_pop rx st3;
       arckpt_loop rx n st4
     }
   }"

section \<open>The whole reaction\<close>

record ('i, 'w) reactor_inputs =
  ri_ready :: bool
  ri_fault_inst :: "'i option"
  ri_slices :: "'i list list option"
  ri_open :: "'w cmem \<Rightarrow> addr option \<times> 'w cmem"
  ri_last_pool :: "(addr \<times> addr) list"
  ri_pool_addr :: addr
  ri_checkpoint :: "checkpoint_log option"
  ri_trace :: "('i \<times> addr) list"
  ri_trace_instrs :: "('i, 'i \<times> addr) multimap"

text \<open>\<open>PmemAddrOffsetList\<close> and the loop that fills it: offsets, addresses, addresses in the opened pool.\<close>

record addr_offset_list =
  ao_num_data :: nat
  ao_offsets :: "addr list"
  ao_addresses :: "addr list"
  ao_pmem_addresses :: "addr list"

definition make_addr_offset_list :: "addr \<Rightarrow> (addr \<times> addr) list \<Rightarrow> addr_offset_list" where
  "make_addr_offset_list pop items = \<lparr>ao_num_data = length items, ao_offsets = map snd items,
     ao_addresses = map fst items, ao_pmem_addresses = map (\<lambda>(_, off). pop + off) items\<rparr>"

text \<open>
  Steps 4a to 4c: the sequence log with the pool addresses of its entries, the revert log, the multimap from addresses to sequence numbers and the memory
  that holds the buffers.
\<close>

definition reaction_logs ::
    "nat \<Rightarrow> single_data \<Rightarrow> addr \<Rightarrow> (addr \<times> addr) list \<Rightarrow> ('i \<times> addr) list \<Rightarrow> 'i \<Rightarrow> checkpoint_log \<Rightarrow> 'w cmem \<Rightarrow>
     (seq_log \<times> seq_log \<times> (addr, int) multimap \<times> 'w cmem) option" where
  "reaction_logs log_size uninit pop last_pool trace fault_inst c_log m0 = do {
     let addr_off_list = make_addr_offset_list pop last_pool;
     (s0, total_size, r_log, m1) \<leftarrow> seq_log_creation log_size uninit c_log m0;
     (t_log, m2) \<leftarrow> tx_log_creation log_size uninit c_log m1;
     offset_seq_map \<leftarrow> offset_seq_creation s0 [];
     s1 \<leftarrow> sort_creation (ao_offsets addr_off_list) (ao_pmem_addresses addr_off_list) (ao_num_data addr_off_list) offset_seq_map s0;
     (address_seq_nums, _, _) \<leftarrow> address_seq_creation (sl_size s1) trace fault_inst s1 (- 1, - 1);
     Some (s1, r_log, address_seq_nums, m2)
   }"

datatype 'w react_result = React_returns bool | React_done bool "'w reactor_run"

text \<open>
  The result is the value returned, as a \<open>bool\<close> (so that -1 and 1 are both true), with the final state when
  the reversion was entered. \<open>glob\<close> holds the global counters.
\<close>

definition react ::
    "nat \<Rightarrow> 'w environment \<Rightarrow> single_data \<Rightarrow> int \<Rightarrow> int \<Rightarrow> reactor_options \<Rightarrow> ('i, 'w) reactor_inputs \<Rightarrow> 'w reactor_run \<Rightarrow> 'w react_result option" where
  "react log_size env uninit flag0 tries options inp glob =
     (if \<not> ri_ready inp then Some (React_returns False)
      else case ri_fault_inst inp of None \<Rightarrow> Some (React_returns False)
      | Some fault_inst \<Rightarrow>
      (case ri_slices inp of None \<Rightarrow> Some (React_returns False)
      | Some fault_slices \<Rightarrow>
      (if opt_pmem_file options = None then Some (React_returns False)
      else case ri_open inp (rr_mem glob) of (None, _) \<Rightarrow> Some (React_returns True)
      | (Some pop, m0) \<Rightarrow>
      (if ri_last_pool inp = [] then Some (React_returns False)
      else case ri_checkpoint inp of None \<Rightarrow> Some (React_returns True)
      | Some c_log \<Rightarrow> do {
        (s1, r_log, address_seq_nums, m2) \<leftarrow> reaction_logs log_size uninit pop (ri_last_pool inp) (ri_trace inp) fault_inst c_log m0;
        high_num \<leftarrow> find_highest_seq_num s1;
        let rx = \<lparr>rx_env = env, rx_options = options, rx_clog = c_log, rx_pool_address = ri_pool_addr inp,
          rx_uninit = uninit, rx_coarse_grained_tries = tries, rx_uninit_flag = flag0\<rparr>;
        let run = glob\<lparr>rr_mem := m2, rr_slog := s1, rr_pop := pop\<rparr>;
        if opt_arckpt options then do {
          (_, run') \<leftarrow> arckpt_loop rx (nat high_num) run;
          Some (React_done True run')
        } else do {
          (_, st) \<leftarrow> react_slices rx (sl_size s1) address_seq_nums (ri_trace_instrs inp) fault_slices
            \<lparr>ss_run = run, ss_rlog = r_log, ss_many = [], ss_seq = [], ss_clear = False, ss_req_flag2 = 0, ss_high_num = high_num\<rparr>;
          Some (React_done True (ss_run st))
        }
      }))))"

definition get_checkpoint_file :: "string \<Rightarrow> string option" where
  "get_checkpoint_file pmem_library =
     (if pmem_library = ''libpmem'' \<or> pmem_library = ''libpmemobj'' then Some ''/mnt/pmem/pmem_checkpoint.pm''
      else if pmem_library = ''libpmemobj2'' then Some ''/mnt/pmem/checkpoint.pm''
      else None)"


section \<open>The collected numbers\<close>

text \<open>
  \<open>K\<close> are the numbers that can be collected, \<open>dn\<close> those that have been reverted. What has been collected
  is recorded in the revert log, so that nothing is collected twice.
\<close>

definition collect_inv :: "int set \<Rightarrow> int list \<Rightarrow> 'w slice_state \<Rightarrow> bool" where
  "collect_inv K dn st \<longleftrightarrow> seq_wf (ss_rlog st) \<and> distinct (ss_many st) \<and> set (ss_many st) \<subseteq> K \<and>
     set (ss_many st) \<subseteq> dom (seq_abs (ss_rlog st)) \<and> distinct (ss_seq st) \<and> set (ss_seq st) \<subseteq> set (ss_many st) \<and>
     set dn \<subseteq> dom (seq_abs (ss_rlog st)) \<and> set dn \<inter> set (ss_many st) = {}"

text \<open>The sequence numbers logged at the addresses that the given instructions touched according to the trace.\<close>

definition touched_numbers :: "(addr, int) multimap \<Rightarrow> ('i, 'i \<times> addr) multimap \<Rightarrow> 'i list \<Rightarrow> int set" where
  "touched_numbers mm ti items = {q. \<exists>i \<in> set items. \<exists>a. (i, (i, a)) \<in> set ti \<and> (a, q) \<in> set mm}"

lemma touched_Cons: "touched_numbers mm ti (i # items) = touched_numbers mm ti [i] \<union> touched_numbers mm ti items"
  by (auto simp: touched_numbers_def)

lemma touched_ranges:
  "touched_numbers mm ti [i] \<subseteq> K \<Longrightarrow> \<forall>(instr, a) \<in> set (equal_range ti i). instr = i \<longrightarrow> set (equal_range mm a) \<subseteq> K"
  by (fastforce simp: touched_numbers_def equal_range_def)

definition same_run :: "'w slice_state \<Rightarrow> 'w slice_state \<Rightarrow> bool" where
  "same_run st st' \<longleftrightarrow> ss_run st' = ss_run st \<and> ss_clear st' = ss_clear st \<and> ss_req_flag2 st' = ss_req_flag2 st"

lemma collect_seq_inv:
  assumes inv: "collect_inv K dn st" and q: "q \<in> K" "seq_key q" and K: "finite K" "card K \<le> cells"
  shows "\<exists>st'. collect_seq cells e q st = Some st' \<and> collect_inv K dn st' \<and> same_run st st'"
proof (cases "q \<in> dom (seq_abs (ss_rlog st))")
  case True
  then have "collect_seq cells e q st = Some st"
    using inv q(2) by (simp add: collect_seq_def collect_inv_def rev_lookup_abs)
  then show ?thesis using inv by (auto simp: same_run_def)
next
  case False
  have wf: "seq_wf (ss_rlog st)" using inv by (simp add: collect_inv_def)
  obtain r' where r': "insert_log (ss_rlog st) q e = Some r'" "seq_wf r'" "seq_abs r' = (seq_abs (ss_rlog st))(q \<mapsto> e)"
    using insert_log_abs [OF wf q(2)] by blast
  have nin: "q \<notin> set (ss_many st)" "q \<notin> set (ss_seq st)" "q \<notin> set dn" using inv False by (auto simp: collect_inv_def)
  have "length (ss_seq st) < cells"
  proof -
    have "card (set (ss_seq st)) < card K"
      using inv nin q(1) K(1) by (intro psubset_card_mono) (auto simp: collect_inv_def)
    moreover have "card (set (ss_seq st)) = length (ss_seq st)" using inv by (intro distinct_card) (simp add: collect_inv_def)
    ultimately show ?thesis using K(2) by linarith
  qed
  moreover have "rev_lookup (ss_rlog st) q = Some (- 1)" using rev_lookup_abs [OF wf q(2)] False by simp
  moreover have "q \<noteq> - 1" using q(2) by (auto simp: seq_key_def)
  ultimately have "collect_seq cells e q st = Some (st\<lparr>ss_many := ss_many st @ [q], ss_seq := ss_seq st @ [q], ss_rlog := r'\<rparr>)"
    using r'(1) by (simp add: collect_seq_def)
  moreover have "collect_inv K dn (st\<lparr>ss_many := ss_many st @ [q], ss_seq := ss_seq st @ [q], ss_rlog := r'\<rparr>)"
    using inv r' nin q(1) by (auto simp: collect_inv_def)
  ultimately show ?thesis by (auto simp: same_run_def)
qed

lemma collect_all_inv:
  assumes "collect_inv K dn st" and K: "finite K" "card K \<le> cells" "\<forall>q \<in> K. seq_key q"
    and mm: "length mm \<le> cells" and ti: "\<forall>(instr, a) \<in> set tis. instr = dep_inst \<longrightarrow> set (equal_range mm a) \<subseteq> K"
  shows "\<exists>st'. ofold (collect_item cells e mm dep_inst) tis st = Some st' \<and> collect_inv K dn st' \<and> same_run st st'"
proof (rule ofold_total [where P = "\<lambda>st'. collect_inv K dn st' \<and> same_run st st'"])
  show "collect_inv K dn st \<and> same_run st st" using assms(1) by (simp add: same_run_def)
  fix x st1 assume x: "x \<in> set tis" and st1: "collect_inv K dn st1 \<and> same_run st st1"
  obtain instr a where xa: "x = (instr, a)" by force
  show "\<exists>t. collect_item cells e mm dep_inst x st1 = Some t \<and> collect_inv K dn t \<and> same_run st t"
  proof (cases "instr = dep_inst")
    case False
    then show ?thesis using st1 by (simp add: collect_item_def xa)
  next
    case True
    have sub: "set (equal_range mm a) \<subseteq> K" using ti x xa True by auto
    have len: "length (equal_range mm a) \<le> cells"
      using mm by (simp add: equal_range_def) (meson le_trans length_filter_le)
    have "\<exists>t. ofold (collect_seq cells e) (sort (equal_range mm a)) st1 = Some t \<and> (collect_inv K dn t \<and> same_run st t)"
    proof (rule ofold_total)
      fix q t assume "q \<in> set (sort (equal_range mm a))" "collect_inv K dn t \<and> same_run st t"
      moreover from this have "q \<in> K" using sub by auto
      ultimately show "\<exists>t'. collect_seq cells e q t = Some t' \<and> (collect_inv K dn t' \<and> same_run st t')"
        using collect_seq_inv [of K dn t q cells e] K by (fastforce simp: same_run_def)
    qed (rule st1)
    then show ?thesis using True len by (simp add: collect_item_def xa Let_def)
  qed
qed

lemma distinct_length_card: "distinct xs \<Longrightarrow> set xs \<subseteq> K \<Longrightarrow> finite K \<Longrightarrow> length xs \<le> card K"
  by (metis card_mono distinct_card)

section \<open>One slice item\<close>

lemma react_item_no_search:
  assumes "ofold (collect_item cells (rx_uninit rx) mm dep_inst) (equal_range ti dep_inst) st = Some st1"
    and "collect_inv K dn st1" and "length (ss_many st1) \<le> BATCH_REEXECUTION"
  shows "react_item rx cells mm ti dep_inst st = Some (False, st1\<lparr>ss_seq := [], ss_clear := False\<rparr>)"
proof -
  have "\<not> (ss_seq st1 \<noteq> [] \<and> length (ss_many st1) < BATCH_REEXECUTION)"
    using assms(2) by (cases "ss_seq st1") (auto simp: collect_inv_def BATCH_REEXECUTION_def)
  then show ?thesis using assms(1,3) by (auto simp: react_item_def)
qed

text \<open>What holds of memory and counters between two slice items, for a program as in the previous theory.\<close>

definition done_inv :: "seq_log \<Rightarrow> int set \<Rightarrow> 'w cmem \<Rightarrow> int \<Rightarrow> int list \<Rightarrow> 'w reactor_run \<Rightarrow> bool" where
  "done_inv s K m0 base dn run \<longleftrightarrow> distinct dn \<and> set dn \<subseteq> K \<and>
     rr_slog run = s \<and> revert_inv s K (rr_mem run) \<and> keeps_old s m0 (rr_mem run) \<and>
     rr_binary_reversion_count run = 0 \<and> pm (rr_mem run) = abs_revert s m0 dn (pm m0) \<and>
     rr_total_reverted_items run = base + int (length dn)"

lemma abs_revert_append: "abs_revert s m (xs @ ys) p = abs_revert s m ys (abs_revert s m xs p)"
  by (induction xs arbitrary: p) auto

lemma search_reversion_inv:
  assumes ok: "reaction_ok rx pop status s" and col: "collect_inv K dn st"
    and inv: "done_inv s K m0 base dn (ss_run st)" and ne: "ss_many st \<noteq> []"
  shows "\<exists>found st' dn'. search_reversion rx st = Some (found, st') \<and> done_inv s K m0 base dn' (ss_run st') \<and>
    (found \<longleftrightarrow> recovers status (pm (rr_mem (ss_run st')))) \<and>
    (\<not> found \<longrightarrow> collect_inv K dn' (st'\<lparr>ss_seq := [], ss_clear := False\<rparr>) \<and> ss_many st' = [] \<and> ss_clear st')"
proof -
  let ?many = "sort (ss_many st)" and ?run = "(ss_run st)\<lparr>rr_binary_success := - 1\<rparr>"
  let ?m = "rr_mem (ss_run st)"
  have d: "distinct dn" "set dn \<subseteq> K" "rr_slog (ss_run st) = s" "revert_inv s K ?m" "keeps_old s m0 ?m"
    "rr_binary_reversion_count (ss_run st) = 0" "pm ?m = abs_revert s m0 dn (pm m0)"
    "rr_total_reverted_items (ss_run st) = base + int (length dn)"
    using inv by (auto simp: done_inv_def)
  have c: "distinct (ss_many st)" "set (ss_many st) \<subseteq> K" "set dn \<inter> set (ss_many st) = {}"
    "set (ss_many st) \<subseteq> dom (seq_abs (ss_rlog st))" "set dn \<subseteq> dom (seq_abs (ss_rlog st))" "seq_wf (ss_rlog st)"
    using col by (auto simp: collect_inv_def)
  have "run_inv s K ?m ?run" using d(3,4) by (simp add: run_inv_def keeps_old_def)
  moreover have "?many \<noteq> []" using ne by (metis set_empty set_sort)
  ultimately obtain r run ks where b:
    "binary_reversion rx (rx_uninit_flag rx) ?many 0 (int (length ?many) - 1) ?run = Some (r, run)"
    "ks \<noteq> []" "infix_of ks ?many" "pm (rr_mem run) = abs_revert s ?m (rev ks) (pm ?m)"
    "rr_binary_reverted_items run = int (length ks)"
    "rr_binary_success run = (if recovers status (pm (rr_mem run)) then 1 else - 1)"
    "rr_binary_reversion_count run = 0" "rr_slog run = s" "revert_inv s K (rr_mem run)" "keeps_old s ?m (rr_mem run)"
    "rr_total_reverted_items run = rr_total_reverted_items ?run"
    using binary_reversion_search [OF ok, of ?many K ?m ?run "rx_uninit_flag rx"] c(1,2) d(6)
    unfolding search_outcome_def by force
  have ks: "set ks \<subseteq> set (ss_many st)" "distinct ks" using infix_of_sub [OF b(3)] c(1) by auto
  let ?run' = "run\<lparr>rr_total_reverted_items := rr_total_reverted_items run + rr_binary_reverted_items run\<rparr>"
  have "rr_total_reverted_items run = base + int (length dn)" using b(11) d(8) by simp
  then have inv': "done_inv s K m0 base (dn @ rev ks) ?run'"
    using d(1,2) c(2,3) ks b(4,5,7-10) abs_revert_keeps [OF d(5)] keeps_old_trans [OF d(5)] d(7)
    by (auto simp: done_inv_def abs_revert_append)
  have run: "search_reversion rx st = Some (if recovers status (pm (rr_mem run)) then (True, st\<lparr>ss_run := ?run', ss_many := ?many\<rparr>)
      else (False, st\<lparr>ss_run := ?run', ss_many := [], ss_clear := True\<rparr>))"
    using b(1,6) by (simp add: search_reversion_def Let_def)
  show ?thesis
  proof (cases "recovers status (pm (rr_mem run))")
    case True
    then show ?thesis using run inv' by auto
  next
    case False
    have "collect_inv K (dn @ rev ks) ((st\<lparr>ss_run := ?run', ss_many := [], ss_clear := True\<rparr>)\<lparr>ss_seq := [], ss_clear := False\<rparr>)"
      using c(4-6) ks(1) by (auto simp: collect_inv_def)
    then show ?thesis using run inv' False
      by (intro exI [of _ False] exI [of _ "st\<lparr>ss_run := ?run', ss_many := [], ss_clear := True\<rparr>"] exI [of _ "dn @ rev ks"]) simp
  qed
qed

lemma react_item_inv:
  assumes ok: "reaction_ok rx pop status s" and col: "collect_inv K dn st" and inv: "done_inv s K m0 base dn (ss_run st)"
    and K: "finite K" "card K \<le> cells" "\<forall>q \<in> K. seq_key q" and mm: "length mm \<le> cells" "touched_numbers mm ti [dep_inst] \<subseteq> K"
  shows "\<exists>found st' dn'. react_item rx cells mm ti dep_inst st = Some (found, st') \<and> done_inv s K m0 base dn' (ss_run st') \<and>
    (if found then recovers status (pm (rr_mem (ss_run st'))) else collect_inv K dn' st')"
proof -
  from collect_all_inv [OF col K mm(1) touched_ranges [OF mm(2)], of "rx_uninit rx"]
  obtain st1 where st1: "ofold (collect_item cells (rx_uninit rx) mm dep_inst) (equal_range ti dep_inst) st = Some st1"
    "collect_inv K dn st1" "same_run st st1"
    by blast
  have inv1: "done_inv s K m0 base dn (ss_run st1)" using inv st1(3) by (simp add: same_run_def)
  show ?thesis
  proof (cases "length (ss_many st1) \<le> BATCH_REEXECUTION")
    case True
    have "collect_inv K dn (st1\<lparr>ss_seq := [], ss_clear := False\<rparr>)" using st1(2) by (simp add: collect_inv_def)
    then show ?thesis using react_item_no_search [OF st1(1,2) True] inv1 by auto
  next
    case False
    then have "ss_many st1 \<noteq> []" by auto
    from search_reversion_inv [OF ok st1(2) inv1 this] obtain found st2 dn' where
      s2: "search_reversion rx st1 = Some (found, st2)" "done_inv s K m0 base dn' (ss_run st2)"
      "found \<longleftrightarrow> recovers status (pm (rr_mem (ss_run st2)))"
      "\<not> found \<longrightarrow> collect_inv K dn' (st2\<lparr>ss_seq := [], ss_clear := False\<rparr>) \<and> ss_many st2 = [] \<and> ss_clear st2"
      by blast
    have "react_item rx cells mm ti dep_inst st =
        Some (if found then (True, st2) else (False, st2\<lparr>ss_seq := [], ss_clear := False\<rparr>))"
      using st1(1) s2(1,4) False by (cases found) (simp_all add: react_item_def)
    moreover have "done_inv s K m0 base dn' (ss_run (st2\<lparr>ss_seq := [], ss_clear := False\<rparr>))" using s2(2) by simp
    ultimately show ?thesis
      by (cases found) (rule exI [of _ found], rule exI [of _ st2], rule exI [of _ dn'], use s2(2,3) in simp,
        rule exI [of _ found], rule exI [of _ "st2\<lparr>ss_seq := [], ss_clear := False\<rparr>"], rule exI [of _ dn'], use s2(4) in simp)
  qed
qed


section \<open>The loops over the slices\<close>

lemma react_slices_concat: "react_slices rx cells mm ti slices st = react_items rx cells mm ti (concat slices) st"
proof (induction slices arbitrary: st)
  case (Cons items rest)
  have "react_items rx cells mm ti (items @ more) st = Option.bind (react_items rx cells mm ti items st)
      (\<lambda>(done, st'). if done then Some (True, st') else react_items rx cells mm ti more st')" for more st
    by (induction items arbitrary: st) (auto split: bind_splits)
  then show ?case using Cons.IH by (cases "react_items rx cells mm ti items st") auto
qed simp

lemma react_items_inv:
  assumes ok: "reaction_ok rx pop status s" and "collect_inv K dn st" and "done_inv s K m0 base dn (ss_run st)"
    and K: "finite K" "card K \<le> cells" "\<forall>q \<in> K. seq_key q" and mm: "length mm \<le> cells" "touched_numbers mm ti items \<subseteq> K"
  shows "\<exists>found st' dn'. react_items rx cells mm ti items st = Some (found, st') \<and> done_inv s K m0 base dn' (ss_run st') \<and>
    (found \<longrightarrow> recovers status (pm (rr_mem (ss_run st'))))"
  using assms(2,3,8)
proof (induction items arbitrary: st dn)
  case Nil
  then show ?case by auto
next
  case (Cons i items)
  have touched: "touched_numbers mm ti [i] \<subseteq> K" "touched_numbers mm ti items \<subseteq> K"
    using Cons.prems(3) touched_Cons [of mm ti i items] by auto
  obtain found st1 dn1 where 1: "react_item rx cells mm ti i st = Some (found, st1)" "done_inv s K m0 base dn1 (ss_run st1)"
    "if found then recovers status (pm (rr_mem (ss_run st1))) else collect_inv K dn1 st1"
    using react_item_inv [OF ok Cons.prems(1,2) K mm(1) touched(1)] by blast
  show ?case
  proof (cases found)
    case True
    then show ?thesis using 1 by auto
  next
    case False
    then show ?thesis using 1 Cons.IH [of dn1 st1] touched(2) by auto
  qed
qed

lemma react_items_single:
  assumes "collect_inv K [] st" and K: "finite K" "card K \<le> 1" "card K \<le> cells" "\<forall>q \<in> K. seq_key q"
    and mm: "length mm \<le> cells" "touched_numbers mm ti items \<subseteq> K"
  shows "\<exists>st'. react_items rx cells mm ti items st = Some (False, st') \<and> ss_run st' = ss_run st"
  using assms(1,7)
proof (induction items arbitrary: st)
  case (Cons i items)
  have touched: "touched_numbers mm ti [i] \<subseteq> K" "touched_numbers mm ti items \<subseteq> K"
    using Cons.prems(2) touched_Cons [of mm ti i items] by auto
  from collect_all_inv [OF Cons.prems(1) K(1,3,4) mm(1) touched_ranges [OF touched(1)], of "rx_uninit rx"]
  obtain st1 where st1: "ofold (collect_item cells (rx_uninit rx) mm i) (equal_range ti i) st = Some st1"
    "collect_inv K [] st1" "same_run st st1"
    by blast
  have "length (ss_many st1) \<le> BATCH_REEXECUTION"
    using distinct_length_card [of "ss_many st1" K] st1(2) K(1,2) by (auto simp: collect_inv_def BATCH_REEXECUTION_def)
  note item = react_item_no_search [OF st1(1,2) this]
  have "collect_inv K [] (st1\<lparr>ss_seq := [], ss_clear := False\<rparr>)" using st1(2) by (simp add: collect_inv_def)
  from Cons.IH [OF this touched(2)] show ?case using item st1(3) by (auto simp: same_run_def)
qed simp

lemma collect_inv_start:
  "seq_wf (ss_rlog st) \<Longrightarrow> ss_many st = [] \<Longrightarrow> ss_seq st = [] \<Longrightarrow> collect_inv K [] st"
  by (simp add: collect_inv_def)

lemma finite_dom_seq_abs: "finite (dom (seq_abs s))"
  unfolding dom_seq_abs by simp

text \<open>A state at the beginning of the loop, and the multimaps of a trace with one item.\<close>

definition sample_slice_state :: "unit slice_state" where
  "sample_slice_state = \<lparr>ss_run = sample_run, ss_rlog = empty_seq_log 100 100, ss_many = [], ss_seq = [],
     ss_clear = False, ss_req_flag2 = 0, ss_high_num = 7\<rparr>"

lemma sample_rlog_wf: "seq_wf (ss_rlog sample_slice_state)"
  unfolding sample_slice_state_def by simp (rule empty_seq_log_wf, simp_all)

lemma react_slices_reverts:
  fixes mm :: "(addr, int) multimap" and ti :: "('i, 'i \<times> addr) multimap" and slices :: "'i list list"
  defines "K \<equiv> touched_numbers mm ti (concat slices)"
  assumes "reaction_ok rx pop status (rr_slog (ss_run st))"
    and "revert_inv (rr_slog (ss_run st)) K (rr_mem (ss_run st))"
    and "rr_binary_reversion_count (ss_run st) = 0" and "seq_wf (ss_rlog st)" and "ss_many st = []" and "ss_seq st = []"
    and "length mm \<le> cells"
  shows "\<exists>found st' dn. react_slices rx cells mm ti slices st = Some (found, st') \<and>
    distinct dn \<and> set dn \<subseteq> K \<and>
    pm (rr_mem (ss_run st')) = abs_revert (rr_slog (ss_run st)) (rr_mem (ss_run st)) dn (pm (rr_mem (ss_run st))) \<and>
    rr_total_reverted_items (ss_run st') = rr_total_reverted_items (ss_run st) + int (length dn) \<and>
    (found \<longrightarrow> recovers status (pm (rr_mem (ss_run st'))))"
proof -
  let ?s = "rr_slog (ss_run st)" and ?m = "rr_mem (ss_run st)"
  have "K \<subseteq> snd ` set mm" by (force simp: K_def touched_numbers_def)
  then have K: "finite K" "card K \<le> length mm"
    using finite_subset [of K "snd ` set mm"] card_mono [of "snd ` set mm" K] card_image_le [of "set mm" snd] card_length [of mm] by auto
  then have "card K \<le> cells" using assms(8) by simp
  note K(1) this
  moreover have "\<forall>q \<in> K. seq_key q" using assms(3) log_ready_key unfolding revert_inv_def by blast
  moreover have "done_inv ?s K ?m (rr_total_reverted_items (ss_run st)) [] (ss_run st)"
    using assms(3,4) by (simp add: done_inv_def keeps_old_def)
  moreover have "collect_inv K [] st" using assms(5-7) by (rule collect_inv_start)
  ultimately obtain found st' dn where "react_items rx cells mm ti (concat slices) st = Some (found, st')"
    "done_inv ?s K ?m (rr_total_reverted_items (ss_run st)) dn (ss_run st')"
    "found \<longrightarrow> recovers status (pm (rr_mem (ss_run st')))"
    using react_items_inv [OF assms(2) _ _ _ _ _ assms(8)] K_def by blast
  then show ?thesis unfolding react_slices_concat done_inv_def by blast
qed

section \<open>Properties\<close>





end
