(* ===== verification/StringUtils.thy ===== *)
theory StringUtils
  imports Options
begin

text \<open>
  The string helpers of the analyzer (\<open>analyzer/lib/Utils/String.cpp\<close>, \<open>analyzer/include/Utils/String.h\<close>):
  splitting, trimming, base names, and the conversion of numbers by string streams and \<open>printf\<close>. Positions
  that are \<open>std::string::npos\<close> in the code are \<^term>\<open>None\<close>. The lemmas give the round trips that the text
  formats of the trace and of the GUID map rest on.
\<close>

section \<open>Searching\<close>

text \<open>\<open>str.find(c)\<close> and \<open>str.find(sep)\<close> on the rest of a string.\<close>

fun find_char :: "char \<Rightarrow> string \<Rightarrow> nat option" where
  "find_char c [] = None"
| "find_char c (x # xs) = (if x = c then Some 0 else map_option Suc (find_char c xs))"

fun starts_with :: "string \<Rightarrow> string \<Rightarrow> bool" where
  "starts_with [] s = True"
| "starts_with (p # ps) [] = False"
| "starts_with (p # ps) (x # xs) = (p = x \<and> starts_with ps xs)"

fun find_str :: "string \<Rightarrow> string \<Rightarrow> nat option" where
  "find_str sep [] = (if sep = [] then Some 0 else None)"
| "find_str sep (x # xs) = (if starts_with sep (x # xs) then Some 0 else map_option Suc (find_str sep xs))"

lemma find_char_bound: "find_char c s = Some i \<Longrightarrow> i < length s \<and> s ! i = c \<and> c \<notin> set (take i s)"
  by (induction s arbitrary: i) (auto split: if_splits)

lemma find_char_None: "find_char c s = None \<longleftrightarrow> c \<notin> set s"
  by (induction s) auto

lemma starts_with_append: "starts_with p s \<longleftrightarrow> (\<exists>r. s = p @ r)"
  by (induction p s rule: starts_with.induct) auto

lemma find_str_bound: "find_str sep s = Some i \<Longrightarrow> i + length sep \<le> length s"
proof (induction sep s arbitrary: i rule: find_str.induct)
  case (2 sep x xs)
  show ?case
  proof (cases "starts_with sep (x # xs)")
    case True
    then have "length sep \<le> length (x # xs)" unfolding starts_with_append by (metis length_append le_add1)
    then show ?thesis using True "2.prems" by simp
  next
    case False
    then show ?thesis using "2.prems" "2.IH" by fastforce
  qed
qed (auto split: if_splits)

section \<open>Splitting\<close>

text \<open>The pieces between separators, and the count the function returns.\<close>

function split_char :: "char \<Rightarrow> string \<Rightarrow> string list" where
  "split_char sep s = (case find_char sep s of None \<Rightarrow> [s] | Some i \<Rightarrow> take i s # split_char sep (drop (Suc i) s))"
  by pat_completeness auto
termination
  by (relation "measure (length \<circ> snd)") (auto dest: find_char_bound)

declare split_char.simps [simp del]

definition splitList_char :: "string \<Rightarrow> char \<Rightarrow> int \<times> string list" where
  "splitList_char str sep = (if str = [] then (0, []) else let ps = split_char sep str in (int (length ps), ps))"

text \<open>
  With an empty separator the loop of the second overload never ends; every call passes a literal. The
  result of this overload is the number of separators.
\<close>

function split_str :: "string \<Rightarrow> string \<Rightarrow> string list" where
  "split_str sep s = (if sep = [] then [s]
     else case find_str sep s of None \<Rightarrow> [s] | Some i \<Rightarrow> take i s # split_str sep (drop (i + length sep) s))"
  by pat_completeness auto
termination
proof (relation "measure (length \<circ> snd)", goal_cases)
  case (2 sep s i)
  then show ?case using find_str_bound [of sep s i] by (cases sep) auto
qed simp

declare split_str.simps [simp del]

definition splitList_str :: "string \<Rightarrow> string \<Rightarrow> int \<times> string list" where
  "splitList_str str sep = (if str = [] then (0, []) else let ps = split_str sep str in (int (length ps) - 1, ps))"

text \<open>\<open>split_untiln\<close>: at most \<open>n\<close> words; the result, the words, and where the search stopped.\<close>

definition find_not_of :: "string \<Rightarrow> string \<Rightarrow> nat \<Rightarrow> nat option" where
  "find_not_of delims s i = map_option (\<lambda>j. i + j) (let t = takeWhile (\<lambda>c. c \<in> set delims) (drop i s) in
     if i + length t < length s then Some (length t) else None)"

definition find_first_of :: "string \<Rightarrow> string \<Rightarrow> nat option \<Rightarrow> nat option" where
  "find_first_of delims s p = (case p of None \<Rightarrow> None
   | Some i \<Rightarrow> (let t = takeWhile (\<lambda>c. c \<notin> set delims) (drop i s) in
      if i + length t < length s then Some (i + length t) else None))"

fun untiln_loop ::
    "nat \<Rightarrow> string \<Rightarrow> string \<Rightarrow> int \<Rightarrow> int \<Rightarrow> nat option \<Rightarrow> nat option \<Rightarrow> string list \<Rightarrow> (int \<times> string list \<times> nat option) option" where
  "untiln_loop 0 delims s n i prev pos acc = None"
| "untiln_loop (Suc fuel) delims s n i prev pos acc =
     (case prev of
        None \<Rightarrow> if pos = None then Some (i, acc, pos) else None
      | Some a \<Rightarrow>
        let acc' = acc @ [case pos of None \<Rightarrow> drop a s | Some b \<Rightarrow> take (b - a) (drop a s)] in
        if i \<ge> n then Some (i, acc', pos)
        else let prev' = (case pos of None \<Rightarrow> None | Some b \<Rightarrow> find_not_of delims s b)
          in untiln_loop fuel delims s n (i + 1) prev' (find_first_of delims s prev') acc')"

definition split_untiln :: "string \<Rightarrow> string \<Rightarrow> int \<Rightarrow> (bool \<times> string list \<times> nat option) option" where
  "split_untiln str delims n = (let prev = find_not_of delims str 0; pos = find_first_of delims str prev in
     map_option (\<lambda>(i, parts, last_pos). (i = n, parts, last_pos))
       (untiln_loop (length str + 2) delims str n 1 prev pos []))"

section \<open>Trimming and base names\<close>

definition ltrim :: "string \<Rightarrow> string" where
  "ltrim s = dropWhile is_space s"

definition rtrim :: "string \<Rightarrow> string" where
  "rtrim s = rev (dropWhile is_space (rev s))"

definition trim :: "string \<Rightarrow> string" where
  "trim s = ltrim (rtrim s)"

text \<open>\<open>str.rfind(c)\<close>.\<close>

definition rfind_char :: "char \<Rightarrow> string \<Rightarrow> nat option" where
  "rfind_char c s = map_option (\<lambda>i. length s - 1 - i) (find_char c (rev s))"

text \<open>
  \<open>getFileBaseName\<close>: a length computed below zero wraps around to a huge \<open>size_t\<close>, and \<open>substr\<close> then takes
  the rest of the string.
\<close>

definition getFileBaseName :: "string \<Rightarrow> bool \<Rightarrow> char \<Rightarrow> string" where
  "getFileBaseName filePath withExt dirSep =
     (case rfind_char dirSep filePath of
        Some sepPos \<Rightarrow>
          let len = to_u64 ((case rfind_char (CHR ''.'') filePath of
                Some dotPos \<Rightarrow> if withExt then int (length filePath) else int dotPos - 1
              | None \<Rightarrow> int (length filePath)) - int sepPos)
          in take (nat len) (drop (sepPos + 1) filePath)
      | None \<Rightarrow> (case rfind_char (CHR ''.'') filePath of
          Some dotPos \<Rightarrow> if withExt then filePath else take dotPos filePath
        | None \<Rightarrow> filePath))"

section \<open>Numbers\<close>

text \<open>
  \<open>str2fmt<T>\<close> for unsigned \<open>T\<close>: white space, an optional sign, digits of the base, the rest ignored;
  \<^term>\<open>None\<close> is the exception \<open>invalid_argument\<close>. A value beyond the type fails, a negative one wraps.
\<close>

definition hex_val :: "char \<Rightarrow> int option" where
  "hex_val c = (let n = of_char c :: int in
     if 48 \<le> n \<and> n \<le> 57 then Some (n - 48)
     else if 97 \<le> n \<and> n \<le> 102 then Some (n - 87)
     else if 65 \<le> n \<and> n \<le> 70 then Some (n - 55)
     else None)"

definition in_base :: "int \<Rightarrow> char \<Rightarrow> bool" where
  "in_base b c = (case hex_val c of Some v \<Rightarrow> v < b | None \<Rightarrow> False)"

definition digits_val :: "int \<Rightarrow> string \<Rightarrow> int" where
  "digits_val b s = fold (\<lambda>c n. n * b + the (hex_val c)) s 0"

definition skip_prefix :: "int \<Rightarrow> string \<Rightarrow> string" where
  "skip_prefix b s = (if b = 16 \<and> (starts_with ''0x'' s \<or> starts_with ''0X'' s) then drop 2 s else s)"

definition str2fmt :: "nat \<Rightarrow> int \<Rightarrow> string \<Rightarrow> int option" where
  "str2fmt bits b s = (let
     t = dropWhile is_space s;
     (neg, u) = (case t of [] \<Rightarrow> (False, [])
       | c # cs \<Rightarrow> if c = CHR ''-'' then (True, cs) else if c = CHR ''+'' then (False, cs) else (False, c # cs));
     ds = takeWhile (in_base b) (skip_prefix b u);
     v = digits_val b ds
   in if ds = [] \<or> v \<ge> 2 ^ bits then None
      else Some (if neg then (- v) mod 2 ^ bits else v))"

text \<open>The digits that \<open>%u\<close>, \<open>%x\<close> and the stream operators print.\<close>

definition digit_char :: "nat \<Rightarrow> char" where
  "digit_char d = char_of (if d < 10 then 48 + d else 87 + d)"

fun print_base :: "nat \<Rightarrow> nat \<Rightarrow> string" where
  "print_base b n = (if b < 2 \<or> n < b then [digit_char n] else print_base b (n div b) @ [digit_char (n mod b)])"

declare print_base.simps [simp del]

text \<open>The GNU C library prints a null pointer with \<open>%p\<close> as \<open>(nil)\<close>.\<close>

definition print_ptr :: "addr \<Rightarrow> string" where
  "print_ptr a = (if a = 0 then ''(nil)'' else ''0x'' @ print_base 16 (unat a))"


section \<open>Joining and splitting\<close>

fun join :: "string \<Rightarrow> string list \<Rightarrow> string" where
  "join sep [] = []"
| "join sep [p] = p"
| "join sep (p # q # ps) = p @ sep @ join sep (q # ps)"

lemma split_char_ne: "split_char c s \<noteq> []"
  by (subst split_char.simps) (auto split: option.splits)

lemma join_split_char: "join [c] (split_char c s) = s"
proof (induction c s rule: split_char.induct)
  case (1 c s)
  show ?case
  proof (cases "find_char c s")
    case (Some i)
    obtain q qs where q: "split_char c (drop (Suc i) s) = q # qs"
      using split_char_ne by (metis neq_Nil_conv)
    have "take i s @ c # drop (Suc i) s = s" using find_char_bound [OF Some] id_take_nth_drop by metis
    then show ?thesis using 1 [OF Some] Some q by (subst split_char.simps) simp
  qed (subst split_char.simps, simp)
qed

lemma split_str_ne: "split_str sep s \<noteq> []"
  by (subst split_str.simps) (auto split: option.splits)

lemma find_str_split: "find_str sep s = Some i \<Longrightarrow> s = take i s @ sep @ drop (i + length sep) s"
proof (induction sep s arbitrary: i rule: find_str.induct)
  case (2 sep x xs)
  show ?case
  proof (cases "starts_with sep (x # xs)")
    case True
    then show ?thesis using "2.prems" by (auto simp: starts_with_append)
  next
    case False
    then obtain j where "find_str sep xs = Some j" "i = Suc j" using "2.prems" by auto
    then show ?thesis using "2.IH" [OF False] by simp
  qed
qed (auto split: if_splits)

lemma join_split_str:
  assumes "sep \<noteq> []"
  shows "join sep (split_str sep s) = s"
  using assms
proof (induction sep s rule: split_str.induct)
  case (1 sep s)
  show ?case
  proof (cases "find_str sep s")
    case (Some i)
    obtain q qs where q: "split_str sep (drop (i + length sep) s) = q # qs"
      using split_str_ne by (metis neq_Nil_conv)
    then show ?thesis using 1 Some find_str_split [OF Some] by (subst split_str.simps) simp
  qed (use "1.prems" in \<open>subst split_str.simps, simp\<close>)
qed

text \<open>The first separator after a field that does not contain its first character is the one that follows it.\<close>

lemma find_str_field:
  assumes "c \<notin> set p" and "sep = c # cs"
  shows "find_str sep (p @ sep @ r) = Some (length p)"
  using assms
proof (induction p)
  case Nil
  have "starts_with sep (sep @ r)" by (simp add: starts_with_append)
  then show ?case using Nil by (cases "sep @ r") (auto simp del: starts_with.simps)
next
  case (Cons x p)
  then have "\<not> starts_with sep (x # p @ sep @ r)" by auto
  then show ?case using Cons by simp
qed

lemma split_str_join:
  assumes "sep = c # cs" and "ps \<noteq> []" and "\<forall>p \<in> set (butlast ps). c \<notin> set p" and "find_str sep (last ps) = None"
  shows "split_str sep (join sep ps) = ps"
  using assms
proof (induction sep ps rule: join.induct)
  case (2 sep p)
  then show ?case by (subst split_str.simps) simp
next
  case (3 sep p q ps)
  have "find_str sep (p @ sep @ join sep (q # ps)) = Some (length p)"
    using find_str_field [OF _ "3.prems"(1)] "3.prems"(3) by simp
  then show ?case using 3 by (subst split_str.simps) simp
qed simp

section \<open>Printing and parsing numbers\<close>

lemma of_char_digit: "d < 16 \<Longrightarrow> (of_char (digit_char d) :: nat) = (if d < 10 then 48 + d else 87 + d)"
  by (simp add: digit_char_def of_char_of)

lemma hex_val_digit: "d < 16 \<Longrightarrow> hex_val (digit_char d) = Some (int d)"
proof -
  assume d: "d < 16"
  have "(of_char (digit_char d) :: int) = int (of_char (digit_char d))" by (simp only: of_nat_of_char)
  then show ?thesis using of_char_digit [OF d] d by (auto simp: hex_val_def Let_def)
qed

lemma in_base_digit: "d < b \<Longrightarrow> b \<le> 16 \<Longrightarrow> in_base (int b) (digit_char d)"
  by (simp add: in_base_def hex_val_digit)

lemma digits_val_snoc: "digits_val b (s @ [c]) = digits_val b s * b + the (hex_val c)"
  by (simp add: digits_val_def)

lemma print_base_digits:
  assumes "2 \<le> b" and "b \<le> 16"
  shows "digits_val (int b) (print_base b n) = int n \<and> (\<forall>c \<in> set (print_base b n). \<exists>d < b. c = digit_char d) \<and> print_base b n \<noteq> []"
proof (induction n rule: less_induct)
  case (less n)
  show ?case
  proof (cases "n < b")
    case True
    then show ?thesis using assms by (subst (1 2 3) print_base.simps) (auto simp: digits_val_def hex_val_digit)
  next
    case False
    have eq: "print_base b n = print_base b (n div b) @ [digit_char (n mod b)]"
      using False assms(1) by (subst print_base.simps) simp
    have "n div b < n" using False assms(1) by simp
    note IH = less.IH [OF this]
    have d: "n mod b < b" "n mod b < 16" using assms by (auto intro: order_less_le_trans [of _ b])
    have "int (n div b) * int b + int (n mod b) = int n" by (metis div_mult_mod_eq of_nat_add of_nat_mult)
    then have "digits_val (int b) (print_base b n) = int n"
      using IH by (simp add: eq digits_val_snoc hex_val_digit [OF d(2)])
    then show ?thesis using IH d(1) by (auto simp: eq)
  qed
qed

lemma digit_char_plain: "d < 16 \<Longrightarrow> \<not> is_space (digit_char d) \<and> digit_char d \<noteq> CHR ''-'' \<and> digit_char d \<noteq> CHR ''+'' \<and>
    digit_char d \<noteq> CHR ''x'' \<and> digit_char d \<noteq> CHR ''X'' \<and> digit_char d \<noteq> CHR '','' \<and> digit_char d \<noteq> CHR ''#'' \<and>
    digit_char d \<noteq> CHR 0x0A"
proof -
  assume "d < 16"
  then have "of_char (digit_char d) \<in> {48..57} \<union> {97..(102::nat)}" using of_char_digit [of d] by auto
  then show ?thesis by (auto simp: is_space_def)
qed

lemma str2fmt_print:
  assumes "b = 10 \<or> b = 16" and "n < 2 ^ bits"
  shows "str2fmt bits (int b) (print_base b n) = Some (int n)"
proof -
  have b: "2 \<le> b" "b \<le> 16" using assms(1) by auto
  note pd = print_base_digits [OF b, of n]
  obtain c cs where c: "print_base b n = c # cs" using pd by (cases "print_base b n") auto
  have dig: "\<exists>d < 16. x = digit_char d" if "x \<in> set (c # cs)" for x
    using pd that b(2) unfolding c by (meson order_less_le_trans)
  have base: "takeWhile (in_base (int b)) (c # cs) = c # cs"
    using pd b(2) unfolding c by (auto simp: takeWhile_eq_all_conv intro!: in_base_digit)
  have plain: "\<not> is_space c" "c \<noteq> CHR ''-''" "c \<noteq> CHR ''+''" using dig [of c] digit_char_plain by auto
  have "skip_prefix (int b) (c # cs) = c # cs"
  proof (cases cs)
    case (Cons x xs)
    then have "x \<noteq> CHR ''x''" "x \<noteq> CHR ''X''" using dig [of x] digit_char_plain by auto
    then show ?thesis using Cons by (simp add: skip_prefix_def)
  qed (simp add: skip_prefix_def)
  moreover have "int n < 2 ^ bits" using assms(2) by (metis of_nat_less_iff of_nat_numeral of_nat_power)
  ultimately show ?thesis
    using plain base pd unfolding str2fmt_def Let_def c by (auto simp: Let_def)
qed

end
