(* ===== verification/Paths.thy ===== *)
theory Paths
  imports StringUtils
begin

text \<open>
  The path helpers of the analyzer (\<open>analyzer/lib/Utils/Path.cpp\<close>): stripping leading components, the
  canonical form of a path, and the comparison of paths from the end, which the matcher uses to find
  source files. The buffer \<open>rpath\<close> is the string of the characters before \<open>dest\<close>; \<^term>\<open>None\<close> is an access
  before the start of the buffer, and memory allocation succeeds. The lemmas relate the byte-wise canonical form to
  a walk over the components of the path.
\<close>

section \<open>Operations\<close>

definition MAX_PATH :: nat where "MAX_PATH = 512"

definition is_slash :: "char \<Rightarrow> bool" where "is_slash c \<longleftrightarrow> c = CHR ''/''"

function strip_loop :: "int \<Rightarrow> int \<Rightarrow> string \<Rightarrow> string \<Rightarrow> string" where
  "strip_loop strips left p [] = p"
| "strip_loop strips left p (c # s) =
     (if is_slash c then
        let s' = dropWhile is_slash s;
          left' = (if strips < 0 then left else left - 1);
          p' = (if strips < 0 \<or> left' \<ge> 0 then s' else p)
        in if left' = 0 then p' else strip_loop strips left' p' s'
      else strip_loop strips left p s)"
  by pat_completeness auto
termination
  by (relation "measure (\<lambda>(_, _, _, s). length s)") (auto simp: le_imp_less_Suc length_dropWhile_le)

definition stripname :: "string \<Rightarrow> int \<Rightarrow> string" where
  "stripname name strips = (if strips = 0 then name else strip_loop strips strips name name)"

text \<open>\<open>while ((dest > rpath + 1) && (--dest)[-1] != '/');\<close>\<close>

function back_up :: "string \<Rightarrow> string" where
  "back_up out = (if length out > 1 then
     let out' = butlast out in if is_slash (last out') then out' else back_up out' else out)"
  by pat_completeness auto
termination
  by (relation "measure length") auto

declare back_up.simps [simp del]

definition go_up :: "string \<Rightarrow> string option" where
  "go_up out = (let out' = back_up out in
     if out' = [] then None
     else if \<not> is_slash (last out') then Some (butlast out') else Some out')"

text \<open>
  One component: \<open>limit\<close> is \<open>rpath_limit - rpath\<close>, \<open>resolved\<close> says that the caller supplied the buffer, which
  then cannot grow. \<open>Some None\<close> is the error exit.
\<close>

definition canon_step :: "bool \<Rightarrow> nat \<Rightarrow> string \<Rightarrow> string \<Rightarrow> (nat \<times> string) option option" where
  "canon_step resolved limit out part =
     (if part = ''.'' then Some (Some (limit, out))
      else if part = ''..'' then map_option (\<lambda>out'. Some (limit, out')) (go_up out)
      else let out1 = (if out \<noteq> [] \<and> \<not> is_slash (last out) then out @ ''/'' else out); n = length part in
        if length out1 + n \<ge> limit then
          (if resolved then Some None
           else Some (Some (limit + (if n + 1 > MAX_PATH then n + 1 else MAX_PATH), out1 @ part)))
        else Some (Some (limit, out1 @ part)))"

function canon_loop :: "bool \<Rightarrow> nat \<Rightarrow> string \<Rightarrow> string \<Rightarrow> string option option" where
  "canon_loop resolved limit out rest =
     (let start = dropWhile is_slash rest;
        part = takeWhile (\<lambda>c. \<not> is_slash c) start;
        rest' = dropWhile (\<lambda>c. \<not> is_slash c) start
      in if part = [] then Some (Some out)
         else case canon_step resolved limit out part of
             None \<Rightarrow> None
           | Some None \<Rightarrow> Some None
           | Some (Some (limit', out')) \<Rightarrow> canon_loop resolved limit' out' rest')"
  by pat_completeness auto
termination
proof (relation "measure (\<lambda>(_, _, _, s). length s)", goal_cases)
  case (2 resolved limit out rest start part rest' a aa l o')
  have "length start = length part + length rest'" using 2 by (metis length_append takeWhile_dropWhile_id)
  moreover have "length start \<le> length rest" using 2 by (simp add: length_dropWhile_le)
  moreover have "length part > 0" using 2(4) by simp
  ultimately have "length rest' < length rest" by linarith
  then show ?case by simp
qed simp

declare canon_loop.simps [simp del]

definition canonpath :: "string option \<Rightarrow> bool \<Rightarrow> string option option" where
  "canonpath name resolved = (case name of None \<Rightarrow> Some None
   | Some s \<Rightarrow>
     if s = [] then Some None
     else if \<not> is_slash (hd s) \<and> starts_with ''..'' s then Some None
     else (case canon_loop resolved MAX_PATH (if is_slash (hd s) then ''/'' else []) s of
         None \<Rightarrow> None
       | Some None \<Rightarrow> Some None
       | Some (Some out) \<Rightarrow> Some (Some (if length out > 1 \<and> is_slash (last out) then butlast out else out))))"

text \<open>\<open>while (i < len1 && j < len2 && PBUF[i] == path2[j])\<close>: how far it gets.\<close>

fun common_prefix :: "string \<Rightarrow> string \<Rightarrow> nat" where
  "common_prefix (x # xs) (y # ys) = (if x = y then Suc (common_prefix xs ys) else 0)"
| "common_prefix _ _ = 0"

definition starts_slash :: "string \<Rightarrow> bool" where
  "starts_slash s \<longleftrightarrow> s \<noteq> [] \<and> is_slash (hd s)"

definition pathendswith :: "string \<Rightarrow> string \<Rightarrow> bool option" where
  "pathendswith path1 path2 = (case canonpath (Some path1) True of None \<Rightarrow> None
   | Some None \<Rightarrow> Some False
   | Some (Some pbuf) \<Rightarrow>
     if length pbuf < length path2 then Some False
     else let i = length pbuf - length path2 in
       if starts_slash pbuf \<and> i > 0 \<and> \<not> starts_slash path2 \<and> \<not> is_slash (pbuf ! (i - 1)) then Some False
       else Some (i + common_prefix (drop i pbuf) path2 = length pbuf))"

definition pathneq :: "string \<Rightarrow> string \<Rightarrow> int \<Rightarrow> bool option" where
  "pathneq path1 path2 n = (case canonpath (Some path1) True of None \<Rightarrow> None
   | Some None \<Rightarrow> Some False
   | Some (Some pbuf) \<Rightarrow> Some (stripname pbuf n = path2))"

section \<open>Components\<close>

text \<open>The components that matter, and the walk over them; at the root, going up stays there.\<close>

definition components :: "string \<Rightarrow> string list" where
  "components s = filter (\<lambda>c. c \<noteq> [] \<and> c \<noteq> ''.'') (split_char (CHR ''/'') s)"

fun walk :: "bool \<Rightarrow> string list \<Rightarrow> string list \<Rightarrow> string list option" where
  "walk root st [] = Some st"
| "walk root st (c # cs) =
     (if c = ''..'' then (if st = [] then (if root then walk root [] cs else None) else walk root (butlast st) cs)
      else walk root (st @ [c]) cs)"

definition plain :: "string \<Rightarrow> bool" where
  "plain c \<longleftrightarrow> c \<noteq> [] \<and> CHR ''/'' \<notin> set c \<and> c \<noteq> ''.'' \<and> c \<noteq> ''..''"

lemma split_char_step: "split_char c s = takeWhile (\<lambda>x. x \<noteq> c) s #
    (case dropWhile (\<lambda>x. x \<noteq> c) s of [] \<Rightarrow> [] | _ # r \<Rightarrow> split_char c r)"
proof (cases "find_char c s")
  case None
  then have "c \<notin> set s" by (simp add: find_char_None)
  then have "takeWhile (\<lambda>x. x \<noteq> c) s = s" "dropWhile (\<lambda>x. x \<noteq> c) s = []" by (auto simp: takeWhile_eq_all_conv)
  then show ?thesis using None by (subst split_char.simps) (simp del: takeWhile_eq_all_conv dropWhile_eq_Nil_conv)
next
  case (Some i)
  note b = find_char_bound [OF Some]
  have s: "s = take i s @ c # drop (Suc i) s" using b id_take_nth_drop by metis
  have "\<forall>x \<in> set (take i s). x \<noteq> c" using b by auto
  then have tw: "takeWhile (\<lambda>x. x \<noteq> c) s = take i s" "dropWhile (\<lambda>x. x \<noteq> c) s = c # drop (Suc i) s"
    using takeWhile_append2 [of "take i s" "\<lambda>x. x \<noteq> c" "c # drop (Suc i) s"]
      dropWhile_append2 [of "take i s" "\<lambda>x. x \<noteq> c" "c # drop (Suc i) s"] by (simp_all add: s [symmetric])
  then show ?thesis using Some by (subst split_char.simps) simp
qed

lemma components_slash: "components (CHR ''/'' # s) = components s"
  by (subst components_def, subst split_char_step) (simp add: components_def)

lemma components_skip: "components (dropWhile is_slash s) = components s"
  by (induction s) (auto simp: is_slash_def components_slash)

lemma components_word:
  assumes "w \<noteq> []" and "CHR ''/'' \<notin> set w" and "r = [] \<or> is_slash (hd r)"
  shows "components (w @ r) = (if w = ''.'' then [] else [w]) @ components r"
proof -
  have w: "takeWhile (\<lambda>x. x \<noteq> CHR ''/'') w = w" "dropWhile (\<lambda>x. x \<noteq> CHR ''/'') w = []"
    using assms(2) by (auto simp: takeWhile_eq_all_conv)
  show ?thesis
  proof (cases r)
    case Nil
    have "components [] = []" by (simp add: components_def split_char.simps)
    then show ?thesis using assms(1) w Nil
      by (subst components_def, subst split_char_step) (simp del: takeWhile_eq_all_conv dropWhile_eq_Nil_conv)
  next
    case (Cons a r')
    then have "a = CHR ''/''" using assms(3) by (simp add: is_slash_def)
    moreover have "\<forall>x \<in> set w. x \<noteq> CHR ''/''" using assms(2) by auto
    ultimately show ?thesis using assms(1) Cons components_slash [of r']
      by (subst components_def, subst split_char_step) (simp add: takeWhile_append2 dropWhile_append2 components_def)
  qed
qed

lemma components_next:
  fixes rest :: string
  defines "start \<equiv> dropWhile is_slash rest"
  defines "part \<equiv> takeWhile (\<lambda>c. \<not> is_slash c) start" and "rest' \<equiv> dropWhile (\<lambda>c. \<not> is_slash c) start"
  shows "components rest = (if part = [] then [] else (if part = ''.'' then [] else [part]) @ components rest')"
    and "part \<noteq> [] \<Longrightarrow> CHR ''/'' \<notin> set part" and "rest' = [] \<or> is_slash (hd rest')"
proof -
  show slash: "CHR ''/'' \<notin> set part" unfolding part_def by (metis set_takeWhileD is_slash_def)
  show r: "rest' = [] \<or> is_slash (hd rest')" unfolding rest'_def
    using hd_dropWhile [of "\<lambda>c. \<not> is_slash c" start] by blast
  have st: "start = part @ rest'" by (simp add: part_def rest'_def)
  have c: "components rest = components start" by (simp add: start_def components_skip)
  show "components rest = (if part = [] then [] else (if part = ''.'' then [] else [part]) @ components rest')"
  proof (cases "part = []")
    case True
    have "start = []"
    proof (rule ccontr)
      assume "start \<noteq> []"
      then have "\<not> is_slash (hd start)" unfolding start_def by (rule hd_dropWhile)
      then show False using True \<open>start \<noteq> []\<close> by (cases start) (auto simp: part_def)
    qed
    then show ?thesis using True c by (simp add: components_def split_char.simps)
  qed (use c st components_word [OF _ slash r] in simp)
qed

section \<open>The buffer against the walk\<close>

text \<open>The buffer holds the components walked so far, possibly with a slash after the last.\<close>

definition holds :: "string \<Rightarrow> string list \<Rightarrow> string \<Rightarrow> bool" where
  "holds pre st out \<longleftrightarrow> (pre = [] \<or> pre = ''/'') \<and> list_all plain st \<and>
     (out = pre @ join ''/'' st \<or> st \<noteq> [] \<and> out = pre @ join ''/'' st @ ''/'')"

lemma join_snoc: "join sep (st @ [c]) = (if st = [] then c else join sep st @ sep @ c)"
  by (induction sep st rule: join.induct) auto

lemma plain_last: "plain c \<Longrightarrow> c \<noteq> [] \<and> \<not> is_slash (last c)"
  using last_in_set by (fastforce simp: plain_def is_slash_def)

lemma join_last:
  assumes "list_all plain st" and "st \<noteq> []"
  shows "join ''/'' st \<noteq> [] \<and> \<not> is_slash (last (join ''/'' st))"
proof -
  obtain st' c where st: "st = st' @ [c]" using assms(2) rev_exhaust by blast
  then have "plain c" using assms(1) by simp
  then show ?thesis using plain_last [of c] by (auto simp: st join_snoc)
qed

lemma back_up_word:
  assumes "c \<noteq> []" and "\<forall>x \<in> set c. \<not> is_slash x" and "x = [] \<or> is_slash (last x)"
  shows "back_up (x @ c) = (if x = [] then [hd c] else x)"
  using assms
proof (induction c rule: rev_induct)
  case (snoc a c)
  show ?case
  proof (cases "c = []")
    case True
    then show ?thesis using snoc.prems by (cases "x = []") (subst back_up.simps, auto simp: Let_def)+
  next
    case False
    then have "back_up (x @ c @ [a]) = back_up (x @ c)"
      using snoc.prems(2) last_in_set [OF False] by (subst back_up.simps) (auto simp: Let_def butlast_append)
    then show ?thesis using snoc False by simp
  qed
qed simp

lemma back_up_slash: "y \<noteq> [] \<Longrightarrow> \<not> is_slash (last y) \<Longrightarrow> back_up (y @ ''/'') = back_up y"
  by (subst back_up.simps) (simp add: Let_def)

lemma back_up_short: "length out \<le> 1 \<Longrightarrow> back_up out = out"
  by (subst back_up.simps) simp

lemma go_up_root: "holds pre [] out \<Longrightarrow> go_up out = (if pre = [] then None else Some pre)"
  by (auto simp: holds_def go_up_def back_up_short Let_def is_slash_def)

lemma go_up_holds:
  assumes "holds pre (st @ [c]) out"
  shows "\<exists>out'. go_up out = Some out' \<and> holds pre st out' \<and> length out' \<le> length out"
proof -
  have c: "plain c" and st: "list_all plain st" and pre: "pre = [] \<or> pre = ''/''" using assms by (auto simp: holds_def)
  define x where "x = pre @ (if st = [] then [] else join ''/'' st @ ''/'')"
  have xc: "pre @ join ''/'' (st @ [c]) = x @ c" by (simp add: x_def join_snoc)
  have x: "x = [] \<or> is_slash (last x)" using pre by (auto simp: x_def is_slash_def)
  have ns: "\<forall>a \<in> set c. \<not> is_slash a" and ne: "c \<noteq> []" using c by (auto simp: plain_def is_slash_def)
  have "last (x @ c) \<noteq> CHR ''/''" using ne ns last_in_set by (fastforce simp: is_slash_def)
  moreover have o: "out = x @ c \<or> out = (x @ c) @ ''/''" using assms xc unfolding holds_def by (metis append.assoc)
  ultimately have "back_up out = back_up (x @ c)" using back_up_slash [of "x @ c"] ne by (auto simp: is_slash_def)
  then have "back_up out = (if x = [] then [hd c] else x)" using back_up_word [OF ne ns x] by simp
  then have up: "go_up out = Some x" using x ns ne by (auto simp: go_up_def Let_def)
  moreover have "holds pre st x" using st pre by (auto simp: holds_def x_def)
  moreover have "length x \<le> length out" using o by auto
  ultimately show ?thesis by blast
qed

lemma push_holds:
  assumes "holds pre st out" and "plain c"
  shows "holds pre (st @ [c]) ((if out \<noteq> [] \<and> \<not> is_slash (last out) then out @ ''/'' else out) @ c)"
proof (cases "st = []")
  case True
  then show ?thesis using assms by (auto simp: holds_def is_slash_def)
next
  case False
  then have j: "join ''/'' st \<noteq> [] \<and> \<not> is_slash (last (join ''/'' st))" using join_last assms(1) by (simp add: holds_def)
  then show ?thesis using assms False by (auto simp: holds_def join_snoc is_slash_def)
qed

text \<open>Enough room in a buffer that cannot grow.\<close>

definition room :: "bool \<Rightarrow> nat \<Rightarrow> string \<Rightarrow> string \<Rightarrow> bool" where
  "room resolved limit out rest \<longleftrightarrow> \<not> resolved \<or>
     (length out + length rest < limit \<and> (rest = [] \<or> is_slash (hd rest) \<or> out = []))"

lemma room_next:
  assumes "room resolved limit out (p @ part @ rest')" and "rest' = [] \<or> is_slash (hd rest')"
  shows "length out' \<le> length out \<Longrightarrow> room resolved limit out' rest'"
    and "part \<noteq> [] \<Longrightarrow> (p = [] \<Longrightarrow> \<not> is_slash (hd part)) \<Longrightarrow>
      length out1 \<le> length out + (if out = [] then 0 else 1) \<Longrightarrow>
      room resolved limit (out1 @ part) rest' \<and> (resolved \<longrightarrow> length out1 + length part < limit)"
proof -
  show "length out' \<le> length out \<Longrightarrow> room resolved limit out' rest'"
    using assms by (auto simp: room_def)
  show "room resolved limit (out1 @ part) rest' \<and> (resolved \<longrightarrow> length out1 + length part < limit)"
    if "part \<noteq> []" "p = [] \<Longrightarrow> \<not> is_slash (hd part)" "length out1 \<le> length out + (if out = [] then 0 else 1)"
  proof (cases "resolved")
    case True
    have "length out1 \<le> length out + length p"
    proof (cases "out = [] \<or> p \<noteq> []")
      case True
      then show ?thesis using that(3) by (cases p) (auto split: if_splits)
    next
      case False
      then show ?thesis using assms(1) \<open>resolved\<close> that(1,2) by (auto simp: room_def)
    qed
    then show ?thesis using assms True by (auto simp: room_def)
  qed (simp add: room_def)
qed

lemma canon_loop_walk:
  assumes "holds pre st out" and "room resolved limit out rest"
  shows "case walk (pre \<noteq> []) st (components rest) of
      None \<Rightarrow> canon_loop resolved limit out rest = None
    | Some st' \<Rightarrow> \<exists>out'. canon_loop resolved limit out rest = Some (Some out') \<and> holds pre st' out'"
  using assms
proof (induction resolved limit out rest arbitrary: st rule: canon_loop.induct)
  case (1 resolved limit out rest)
  define start where "start = dropWhile is_slash rest"
  define part where "part = takeWhile (\<lambda>c. \<not> is_slash c) start"
  define rest' where "rest' = dropWhile (\<lambda>c. \<not> is_slash c) start"
  have comps: "components rest = (if part = [] then [] else (if part = ''.'' then [] else [part]) @ components rest')"
    and slash: "part \<noteq> [] \<Longrightarrow> CHR ''/'' \<notin> set part" and rest': "rest' = [] \<or> is_slash (hd rest')"
    using components_next [of rest] by (simp_all add: start_def part_def rest'_def)
  have loop: "canon_loop resolved limit out rest = (if part = [] then Some (Some out)
      else case canon_step resolved limit out part of None \<Rightarrow> None | Some None \<Rightarrow> Some None
      | Some (Some (limit', out')) \<Rightarrow> canon_loop resolved limit' out' rest')"
    unfolding start_def part_def rest'_def by (rule canon_loop.simps [unfolded Let_def])
  note IH = "1.IH" [OF start_def part_def rest'_def]
  show ?case
  proof (cases "part = []")
    case True
    then show ?thesis using comps loop "1.prems" by simp
  next
    case False
    define p where "p = takeWhile is_slash rest"
    have split: "rest = p @ part @ rest'" by (simp add: p_def start_def part_def rest'_def)
    have room: "room resolved limit out (p @ part @ rest')" using "1.prems"(2) split by simp
    have hd: "\<not> is_slash (hd part)" using slash False by (cases part) (auto simp: is_slash_def)
    consider "part = ''.''" | "part = ''..''" | "plain part" using False slash by (auto simp: plain_def)
    then show ?thesis
    proof cases
      case 1
      then have step: "canon_step resolved limit out part = Some (Some (limit, out))" by (simp add: canon_step_def)
      show ?thesis using IH [OF False step refl refl "1.prems"(1) room_next(1) [OF room rest' le_refl]] comps loop step 1 by (simp split: option.splits)
    next
      case 2
      show ?thesis
      proof (cases st rule: rev_cases)
        case Nil
        show ?thesis
        proof (cases "pre = []")
          case True
          then show ?thesis using comps loop 2 Nil "1.prems"(1) go_up_root [of pre out] by (simp add: canon_step_def)
        next
          case root: False
          then have step: "canon_step resolved limit out part = Some (Some (limit, pre))"
            using 2 Nil "1.prems"(1) go_up_root [of pre out] by (simp add: canon_step_def)
          have "pre = ''/''" "out = pre" using "1.prems"(1) root Nil by (auto simp: holds_def)
          then have h: "holds pre [] pre" "room resolved limit pre rest'"
            using room_next(1) [OF room rest', of pre] by (auto simp: holds_def)
          show ?thesis using IH [OF False step refl refl h] comps loop step 2 Nil root by (simp split: option.splits)
        qed
      next
        case (snoc st' c)
        obtain out' where o: "go_up out = Some out'" "holds pre st' out'" "length out' \<le> length out"
          using go_up_holds "1.prems"(1) snoc by blast
        then have step: "canon_step resolved limit out part = Some (Some (limit, out'))" using 2 by (simp add: canon_step_def)
        show ?thesis using IH [OF False step refl refl o(2) room_next(1) [OF room rest' o(3)]] comps loop step 2 snoc by (simp split: option.splits)
      qed
    next
      case 3
      define o1 where "o1 = (if out \<noteq> [] \<and> \<not> is_slash (last out) then out @ ''/'' else out)"
      have "length o1 \<le> length out + (if out = [] then 0 else 1)" by (simp add: o1_def)
      then have r: "room resolved limit (o1 @ part) rest'" "resolved \<longrightarrow> length o1 + length part < limit"
        using room_next(2) [OF room rest' False] hd by blast+
      have cs: "canon_step resolved limit out part = (if length o1 + length part \<ge> limit then
          (if resolved then Some None
           else Some (Some (limit + (if length part + 1 > MAX_PATH then length part + 1 else MAX_PATH), o1 @ part)))
        else Some (Some (limit, o1 @ part)))"
        using 3 unfolding canon_step_def o1_def plain_def Let_def by simp
      obtain limit' where step: "canon_step resolved limit out part = Some (Some (limit', o1 @ part))" "limit' = limit \<or> \<not> resolved"
        using r(2) by (cases "limit \<le> length o1 + length part") (auto simp: cs)
      then have "room resolved limit' (o1 @ part) rest'" using r(1) by (auto simp: room_def)
      from IH [OF False step(1) refl refl push_holds [OF "1.prems"(1) 3, folded o1_def] this]
      show ?thesis using comps loop step(1) 3 by (simp add: plain_def split: option.splits)
    qed
  qed
qed

section \<open>Canonical paths\<close>

definition root_prefix :: "string \<Rightarrow> string" where
  "root_prefix s = (if is_slash (hd s) then ''/'' else [])"

lemma holds_finish:
  assumes "holds pre st out"
  shows "(if length out > 1 \<and> is_slash (last out) then butlast out else out) = pre @ join ''/'' st"
proof (cases "st = []")
  case True
  then show ?thesis using assms by (auto simp: holds_def)
next
  case False
  then have j: "join ''/'' st \<noteq> [] \<and> \<not> is_slash (last (join ''/'' st))" using join_last assms by (simp add: holds_def)
  then have "pre @ join ''/'' st \<noteq> []" "\<not> is_slash (last (pre @ join ''/'' st))" by auto
  then show ?thesis using assms by (cases "pre @ join ''/'' st") (auto simp: holds_def is_slash_def butlast_append)
qed

lemma canonpath_eq:
  assumes "s \<noteq> []" and "is_slash (hd s) \<or> \<not> starts_with ''..'' s" and "resolved \<longrightarrow> length s + 1 < MAX_PATH"
  shows "canonpath (Some s) resolved =
    map_option (\<lambda>st. Some (root_prefix s @ join ''/'' st)) (walk (is_slash (hd s)) [] (components s))"
    and "walk (is_slash (hd s)) [] (components s) = Some st \<Longrightarrow> list_all plain st"
proof -
  have "holds (root_prefix s) [] (root_prefix s)" "room resolved MAX_PATH (root_prefix s) s"
    using assms(3) by (auto simp: holds_def room_def root_prefix_def)
  from canon_loop_walk [OF this] have "case walk (is_slash (hd s)) [] (components s) of
      None \<Rightarrow> canon_loop resolved MAX_PATH (root_prefix s) s = None
    | Some st' \<Rightarrow> \<exists>out'. canon_loop resolved MAX_PATH (root_prefix s) s = Some (Some out') \<and> holds (root_prefix s) st' out'"
    by (simp add: root_prefix_def split: if_splits)
  note w = this
  have cp: "canonpath (Some s) resolved = (case canon_loop resolved MAX_PATH (root_prefix s) s of
         None \<Rightarrow> None
       | Some None \<Rightarrow> Some None
       | Some (Some out) \<Rightarrow> Some (Some (if length out > 1 \<and> is_slash (last out) then butlast out else out)))"
    using assms(1,2) unfolding canonpath_def root_prefix_def by auto
  show "canonpath (Some s) resolved =
    map_option (\<lambda>st. Some (root_prefix s @ join ''/'' st)) (walk (is_slash (hd s)) [] (components s))"
  proof (cases "walk (is_slash (hd s)) [] (components s)")
    case (Some st)
    then obtain out where "canon_loop resolved MAX_PATH (root_prefix s) s = Some (Some out)" "holds (root_prefix s) st out"
      using w by auto
    then show ?thesis unfolding cp Some using holds_finish by simp
  qed (use w cp in simp)
  show "list_all plain st" if "walk (is_slash (hd s)) [] (components s) = Some st"
    using w that by (auto simp: holds_def)
qed

lemma walk_root: "\<exists>st'. walk True st cs = Some st'"
  by (induction True st cs rule: walk.induct) auto

lemma walk_plain: "list_all plain cs \<Longrightarrow> walk root st cs = Some (st @ cs)"
  by (induction cs arbitrary: st) (auto simp: plain_def)

lemma components_join:
  assumes "list_all plain cs"
  shows "components (join ''/'' cs) = cs"
  using assms
proof (induction "''/'' :: string" cs rule: join.induct)
  case (2 p)
  then show ?case using components_word [of p "[]"] by (simp add: plain_def components_def [of "[]"] split_char.simps)
next
  case (3 p q ps)
  then show ?case using components_word [of p "CHR ''/'' # join ''/'' (q # ps)"] components_slash
    by (simp add: plain_def is_slash_def)
qed (simp add: components_def split_char.simps)

section \<open>Stripping\<close>

text \<open>What follows the first group of slashes.\<close>

definition after_slash :: "string \<Rightarrow> string" where
  "after_slash s = (case dropWhile (\<lambda>c. \<not> is_slash c) s of [] \<Rightarrow> s | _ # r \<Rightarrow> dropWhile is_slash r)"

lemma after_slash_none: "dropWhile (\<lambda>c. \<not> is_slash c) s = [] \<Longrightarrow> (after_slash ^^ n) s = s"
proof (induction n)
  case (Suc n)
  have "after_slash s = s" using Suc.prems by (simp only: after_slash_def list.case)
  then show ?case using Suc by simp
qed simp

lemma strip_loop_after:
  assumes "dropWhile (\<lambda>c. \<not> is_slash c) p = dropWhile (\<lambda>c. \<not> is_slash c) s" and "n > 0" and "strips \<ge> 0"
  shows "strip_loop strips (int n) p s = (after_slash ^^ n) p"
  using assms
proof (induction "length s" arbitrary: n p s rule: less_induct)
  case less
  show ?case
  proof (cases s)
    case Nil
    then show ?thesis using less.prems(1) after_slash_none by simp
  next
    case (Cons c s')
    show ?thesis
    proof (cases "is_slash c")
      case False
      then show ?thesis using less.hyps [of s' p n] less.prems Cons by simp
    next
      case True
      have as: "after_slash p = dropWhile is_slash s'" using less.prems(1) Cons True by (simp add: after_slash_def)
      obtain m where n: "n = Suc m" using less.prems(2) by (cases n) auto
      have "(after_slash ^^ n) p = (after_slash ^^ m) (dropWhile is_slash s')" by (simp add: n funpow_swap1 as)
      moreover have "length (dropWhile is_slash s') < length s" using Cons by (simp add: length_dropWhile_le le_imp_less_Suc)
      ultimately show ?thesis
        using less.hyps [of "dropWhile is_slash s'" "dropWhile is_slash s'" m] Cons True n less.prems(3) by (cases m) (simp_all add: Let_def)
    qed
  qed
qed

lemma common_prefix_full: "length a = length b \<Longrightarrow> common_prefix a b = length a \<longleftrightarrow> a = b"
  by (induction a b rule: common_prefix.induct) auto

section \<open>Properties\<close>



text \<open>
  Canonical absolute paths are canonical: \<open>canonpath\<close> succeeds on every absolute path and maps its result to
  itself.
\<close>

theorem canonpath_idempotent:
  "\<exists>p. canonpath (Some (CHR ''/'' # s)) False = Some (Some p) \<and> canonpath (Some p) False = Some (Some p)"
proof -
  let ?s = "CHR ''/'' # s"
  have root: "is_slash (hd ?s)" "root_prefix ?s = ''/''" by (simp_all add: is_slash_def root_prefix_def)
  obtain st where st: "walk True [] (components ?s) = Some st" using walk_root by blast
  have pl: "list_all plain st" by (rule canonpath_eq(2) [of ?s False]) (use st root in simp_all)
  have 1: "canonpath (Some ?s) False = Some (Some (''/'' @ join ''/'' st))"
    using canonpath_eq(1) [of ?s False] root st by simp
  have "walk True [] (components (''/'' @ join ''/'' st)) = Some st"
    using pl by (simp add: components_slash components_join walk_plain)
  then have "canonpath (Some (''/'' @ join ''/'' st)) False = Some (Some (''/'' @ join ''/'' st))"
    using canonpath_eq(1) [of "''/'' @ join ''/'' st" False] by (simp add: is_slash_def root_prefix_def)
  with 1 show ?thesis by blast
qed

text \<open>
  Matching a file name against the end of an absolute path respects component boundaries: \<open>pathendswith\<close> holds
  exactly if the name is a suffix of the canonical path that is the whole path, starts with a slash or
  follows a slash.
\<close>

theorem pathendswith_boundary:
  assumes "length path1 + 2 < MAX_PATH"
  shows "\<exists>p. canonpath (Some (CHR ''/'' # path1)) True = Some (Some p) \<and>
    pathendswith (CHR ''/'' # path1) path2 =
      Some (\<exists>q. p = q @ path2 \<and> (q = [] \<or> starts_slash path2 \<or> is_slash (last q)))"
proof -
  let ?s = "CHR ''/'' # path1"
  obtain st where st: "walk True [] (components ?s) = Some st" using walk_root by blast
  define p where "p = ''/'' @ join ''/'' st"
  have p: "canonpath (Some ?s) True = Some (Some p)" "starts_slash p"
    using canonpath_eq(1) [of ?s True] assms st by (simp_all add: is_slash_def root_prefix_def p_def starts_slash_def)
  have "pathendswith ?s path2 = Some (\<exists>q. p = q @ path2 \<and> (q = [] \<or> starts_slash path2 \<or> is_slash (last q)))"
  proof (cases "length p < length path2")
    case True
    then show ?thesis using p by (auto simp: pathendswith_def)
  next
    case False
    define q where "q = take (length p - length path2) p"
    define e where "e = drop (length p - length path2) p"
    have pe: "p = q @ e" "length e = length path2" using False by (simp_all add: q_def e_def)
    have "length p - length path2 = length q" using pe by simp
    moreover have "q \<noteq> [] \<Longrightarrow> p ! (length q - 1) = last q" using pe(1) by (simp add: last_conv_nth nth_append)
    ultimately have "pathendswith ?s path2 = Some (e = path2 \<and> (q = [] \<or> starts_slash path2 \<or> is_slash (last q)))"
      using False p common_prefix_full [OF pe(2)] pe by (auto simp: pathendswith_def Let_def)
    then show ?thesis using pe by auto
  qed
  then show ?thesis using p(1) by blast
qed

theorem pathendswith_boundary_witness:
  "pathendswith ''/tmp/atest.c'' ''test.c'' = Some False \<and> pathendswith ''/tmp/x/../test.c'' ''test.c'' = Some True"
proof -
  have c: "canonpath (Some ''/tmp/atest.c'') True = Some (Some ''/tmp/atest.c'')"
    "canonpath (Some ''/tmp/x/../test.c'') True = Some (Some ''/tmp/test.c'')" by code_simp+
  have l: "length ''tmp/atest.c'' + 2 < MAX_PATH" "length ''tmp/x/../test.c'' + 2 < MAX_PATH" by (simp_all add: MAX_PATH_def)
  have "\<not> (\<exists>q. ''/tmp/atest.c'' = q @ ''test.c'' \<and> (q = [] \<or> starts_slash ''test.c'' \<or> is_slash (last q)))"
    by (simp add: starts_slash_def is_slash_def append_eq_Cons_conv Cons_eq_append_conv)
  moreover have "\<exists>q. ''/tmp/test.c'' = q @ ''test.c'' \<and> (q = [] \<or> starts_slash ''test.c'' \<or> is_slash (last q))"
    by (rule exI [of _ "''/tmp/''"]) (simp add: is_slash_def)
  ultimately show ?thesis
    using pathendswith_boundary [OF l(1), of "''test.c''"] pathendswith_boundary [OF l(2), of "''test.c''"] c by simp
qed

text \<open>
  \<open>stripname\<close> with a count removes that many groups of slashes with what precedes them, or as many as there are.
\<close>

theorem stripname_iterates: "stripname s (int n) = (after_slash ^^ n) s"
proof (cases n)
  case (Suc m)
  then show ?thesis using strip_loop_after [of s s n "int n"] by (simp add: stripname_def)
qed (simp add: stripname_def)

end
