(* ===== verification/Matching.thy ===== *)
theory Matching
  imports Paths "HOL-Library.Char_ord" "HOL-Library.List_Lexorder" "HOL-Library.Product_Lexorder"
begin

text \<open>
  The matcher (\<open>analyzer/lib/Matcher/Matcher.cpp\<close>), which finds the instructions of a module that belong to a source
  location and, among them, the one whose printed text was recorded in the GUID map. Of LLVM's data the
  model keeps what the matcher reads: the name of a function, whether it is a declaration, its debug information,
  its blocks, and of an instruction the line of its debug location and its printed text. \<^term>\<open>None\<close> as the outermost
  result is a null dereference or an access outside an object. The lemmas show what a
  match implies, that exact matches win, which differences the fuzzy comparison ignores, and that the
  comparator of source locations is an order.
\<close>

section \<open>Modules\<close>

record debug_sp =
  sp_directory :: string
  sp_filename :: string
  sp_line :: nat
  sp_name :: string
  sp_linkage_name :: string

record instruction =
  in_id :: nat
  in_loc :: "nat option"
  in_text :: string

record func =
  fn_name :: string
  fn_is_declaration :: bool
  fn_subprogram :: "debug_sp option"
  fn_blocks :: "instruction list list"

definition fn_instrs :: "func \<Rightarrow> instruction list" where
  "fn_instrs F = concat (fn_blocks F)"

section \<open>Comparing\<close>

text \<open>\<open>StringRef::compare\<close>: the order of the bytes as unsigned numbers, a proper prefix first.\<close>

fun str_compare :: "string \<Rightarrow> string \<Rightarrow> int" where
  "str_compare [] [] = 0"
| "str_compare [] (y # ys) = - 1"
| "str_compare (x # xs) [] = 1"
| "str_compare (x # xs) (y # ys) =
     (if (of_char x :: nat) < of_char y then - 1 else if (of_char y :: nat) < of_char x then 1 else str_compare xs ys)"

definition cmpDICU :: "string \<times> string \<Rightarrow> string \<times> string \<Rightarrow> bool" where
  "cmpDICU cu1 cu2 = (let c = str_compare (fst cu1) (fst cu2);
     c' = (if c = 0 then str_compare (snd cu1) (snd cu2) else c) in if c' \<ge> 0 then False else True)"

text \<open>The difference of two \<open>unsigned\<close> lines is stored in an \<open>int\<close>.\<close>

definition cmpDISP :: "debug_sp \<Rightarrow> debug_sp \<Rightarrow> bool" where
  "cmpDISP sp1 sp2 = (let c = str_compare (sp_directory sp1) (sp_directory sp2);
     c' = (if c = 0 then
        let d = str_compare (sp_filename sp1) (sp_filename sp2)
        in if d = 0 then to_int32 (int (sp_line sp1) - int (sp_line sp2)) else d
      else c) in if c' \<ge> 0 then False else True)"

definition loc_line :: "instruction \<Rightarrow> debug_sp \<Rightarrow> nat" where
  "loc_line i sp = (case in_loc i of Some l \<Rightarrow> l | None \<Rightarrow> sp_line sp)"

text \<open>The comparator gets each instruction with its function.\<close>

definition inst_source_loc_less :: "bool \<Rightarrow> instruction \<times> func \<Rightarrow> instruction \<times> func \<Rightarrow> bool option" where
  "inst_source_loc_less reverse_order x1 x2 = do {
     sp1 \<leftarrow> fn_subprogram (snd x1);
     sp2 \<leftarrow> fn_subprogram (snd x2);
     let c = str_compare (sp_directory sp1) (sp_directory sp2);
     let c' = (if c = 0 then
          let d = str_compare (sp_filename sp1) (sp_filename sp2)
          in if d = 0 then to_int32 (int (loc_line (fst x1) sp1) - int (loc_line (fst x2) sp2)) else d
        else c);
     Some (if reverse_order then c' > 0 else c' < 0)
   }"

section \<open>Scopes\<close>

definition skipFunction :: "func \<Rightarrow> bool" where
  "skipFunction F \<longleftrightarrow> fn_is_declaration F \<or> starts_with ''llvm.dbg'' (fn_name F)"

definition getInstLine :: "instruction \<Rightarrow> nat" where
  "getInstLine i = (case in_loc i of None \<Rightarrow> 0 | Some l \<Rightarrow> l)"

definition getFirstLine :: "func \<Rightarrow> nat" where
  "getFirstLine F = (case fn_subprogram F of None \<Rightarrow> 0 | Some sp \<Rightarrow> sp_line sp)"

text \<open>\<open>BB.back()\<close> of an empty block is undefined.\<close>

definition getLastLine :: "func \<Rightarrow> nat option" where
  "getLastLine F = (if fn_blocks F = [] then Some 0
     else let bb = last (fn_blocks F) in if bb = [] then None
       else Some (case in_loc (last bb) of None \<Rightarrow> 0 | Some l \<Rightarrow> l))"

definition getBlockScope :: "instruction list \<Rightarrow> (nat \<times> nat) option" where
  "getBlockScope B = (if B = [] then None
     else let b = getInstLine (hd B); e = getInstLine (last B) in
       if b = 0 \<or> e = 0 then None else Some (b, e))"

record scope =
  scope_begin :: "64 word"
  scope_end :: "64 word"

definition scope_includes :: "scope \<Rightarrow> scope \<Rightarrow> bool" where
  "scope_includes s another \<longleftrightarrow> scope_begin another \<ge> scope_begin s \<and> scope_end another \<le> scope_end s"

definition scope_intersects :: "scope \<Rightarrow> scope \<Rightarrow> bool" where
  "scope_intersects s another \<longleftrightarrow> scope_end another \<ge> scope_begin s \<and> scope_begin another \<le> scope_end s"

definition scope_lines :: "scope \<Rightarrow> 64 word set" where
  "scope_lines s = {scope_begin s..scope_end s}"

text \<open>For scopes that are not empty, the tests are those on sets of lines.\<close>

lemma scope_includes_iff: "scope_begin t \<le> scope_end t \<Longrightarrow> scope_includes s t \<longleftrightarrow> scope_lines t \<subseteq> scope_lines s"
  by (auto simp: scope_includes_def scope_lines_def)

lemma scope_intersects_iff:
  assumes "scope_begin s \<le> scope_end s" and "scope_begin t \<le> scope_end t"
  shows "scope_intersects s t \<longleftrightarrow> scope_lines s \<inter> scope_lines t \<noteq> {}"
proof
  assume i: "scope_intersects s t"
  have "max (scope_begin s) (scope_begin t) \<in> scope_lines s \<inter> scope_lines t"
    using i assms by (auto simp: scope_intersects_def scope_lines_def)
  then show "scope_lines s \<inter> scope_lines t \<noteq> {}" by blast
next
  assume "scope_lines s \<inter> scope_lines t \<noteq> {}"
  then show "scope_intersects s t" by (auto simp: scope_intersects_def scope_lines_def)
qed

lemma scope_equal_iff: "s = t \<longleftrightarrow> scope_includes s t \<and> scope_includes t s" for s t :: scope
  by (auto simp: scope_includes_def intro: scope.equality)

section \<open>Criteria\<close>

record file_line =
  fl_file :: string
  fl_line :: nat

text \<open>\<open>atoi\<close> is \<open>strtol\<close> cut to \<open>int\<close>, which then becomes \<open>unsigned\<close>.\<close>

definition atoi_unsigned :: "string \<Rightarrow> nat" where
  "atoi_unsigned s = nat (to_int32 (fst (strtol10 s)) mod 2 ^ 32)"

definition fromCriterionStr :: "string \<Rightarrow> file_line option" where
  "fromCriterionStr criterion = (let parts = snd (splitList_char criterion (CHR '':'')) in
     if length parts < 2 then None else Some \<lparr>fl_file = parts ! 0, fl_line = atoi_unsigned (parts ! 1)\<rparr>)"

text \<open>The result holds what was parsed before a bad criterion.\<close>

fun criteria_loop :: "string list \<Rightarrow> file_line list \<Rightarrow> bool \<times> file_line list" where
  "criteria_loop [] results = (True, results)"
| "criteria_loop (criterion # rest) results = (case fromCriterionStr criterion of
      None \<Rightarrow> (False, results)
    | Some fl \<Rightarrow> criteria_loop rest (results @ [fl]))"

definition fromCriteriaStr :: "string \<Rightarrow> bool \<times> file_line list" where
  "fromCriteriaStr criteria = criteria_loop (snd (splitList_char criteria (CHR '',''))) []"

section \<open>Finding instructions\<close>

record match_result =
  mr_matched :: bool
  mr_instrs :: "instruction list"
  mr_func :: "func option"

definition no_match :: match_result where
  "no_match = \<lparr>mr_matched = False, mr_instrs = [], mr_func = None\<rparr>"

definition normalizePath :: "int \<Rightarrow> string \<Rightarrow> string option" where
  "normalizePath strips fname = (case canonpath (Some fname) False of
      None \<Rightarrow> None
    | Some None \<Rightarrow> Some []
    | Some (Some canon) \<Rightarrow> Some (if strips > 0 then stripname canon strips else canon))"

definition spMatchFilename :: "debug_sp \<Rightarrow> string \<Rightarrow> bool option" where
  "spMatchFilename sp filename = pathendswith
     (if sp_filename sp \<noteq> [] \<and> hd (sp_filename sp) = CHR ''/'' then sp_filename sp
      else sp_directory sp @ ''/'' @ sp_filename sp) filename"

definition matchInstrsInFunction :: "nat \<Rightarrow> func \<Rightarrow> instruction list \<Rightarrow> bool \<times> instruction list" where
  "matchInstrsInFunction line F result =
     fold (\<lambda>inst (matched, result). if getInstLine inst = line then (True, result @ [inst]) else (matched, result))
       (fn_instrs F) (False, result)"

fun matchInstrsCriterion :: "file_line \<Rightarrow> func list \<Rightarrow> match_result \<Rightarrow> (bool \<times> match_result) option" where
  "matchInstrsCriterion criterion [] result = Some (False, result)"
| "matchInstrsCriterion criterion (F # rest) result =
     (if skipFunction F then matchInstrsCriterion criterion rest result
      else case fn_subprogram F of None \<Rightarrow> matchInstrsCriterion criterion rest result
      | Some sp \<Rightarrow> do {
          same \<leftarrow> spMatchFilename sp (fl_file criterion);
          if same then do {
            end_line \<leftarrow> getLastLine F;
            let (m, is) = matchInstrsInFunction (fl_line criterion) F (mr_instrs result);
            let result1 = result\<lparr>mr_matched := m, mr_instrs := is\<rparr>;
            if m then Some (True, result1\<lparr>mr_func := Some F\<rparr>)
            else if fl_line criterion \<ge> sp_line sp \<and> fl_line criterion \<le> end_line then
              let (m', is') = matchInstrsInFunction (fl_line criterion) F (mr_instrs result1)
              in Some (True, result1\<lparr>mr_matched := m', mr_instrs := is', mr_func := Some F\<rparr>)
            else matchInstrsCriterion criterion rest result1
          } else matchInstrsCriterion criterion rest result
        })"

text \<open>The function without debug information is not skipped here, so a null pointer is dereferenced.\<close>

definition criteria_step :: "func \<Rightarrow> file_line list \<Rightarrow> nat \<Rightarrow> match_result list \<Rightarrow> match_result list option" where
  "criteria_step F criteria i results =
     (if mr_matched (results ! i) then Some results
      else do {
        sp \<leftarrow> fn_subprogram F;
        same \<leftarrow> spMatchFilename sp (fl_file (criteria ! i));
        if same then do {
          end_line \<leftarrow> getLastLine F;
          let line = fl_line (criteria ! i);
          if line \<ge> sp_line sp \<and> line \<le> end_line then
            let (m, is) = matchInstrsInFunction line F (mr_instrs (results ! i))
            in Some (results[i := (results ! i)\<lparr>mr_matched := m, mr_instrs := is, mr_func := Some F\<rparr>])
          else Some results
        } else Some results
      })"

fun criteria_functions :: "func list \<Rightarrow> file_line list \<Rightarrow> match_result list \<Rightarrow> match_result list option" where
  "criteria_functions [] criteria results = Some results"
| "criteria_functions (F # rest) criteria results =
     (if skipFunction F then criteria_functions rest criteria results
      else do {
        results' \<leftarrow> ofold (criteria_step F criteria) [0..<length criteria] results;
        if list_all mr_matched results' then Some results' else criteria_functions rest criteria results'
      })"

definition matchInstrsCriteria :: "file_line list \<Rightarrow> func list \<Rightarrow> match_result list option" where
  "matchInstrsCriteria criteria M = criteria_functions M criteria (replicate (length criteria) no_match)"

text \<open>The \<open>inst_no\<close>-th instruction, counted from one, of the first definition of that name.\<close>

definition matchInstr_seq :: "func list \<Rightarrow> string \<Rightarrow> nat \<Rightarrow> instruction option" where
  "matchInstr_seq M fun_name inst_no =
     (if fun_name = [] \<or> inst_no = 0 then None
      else case find (\<lambda>F. \<not> fn_is_declaration F \<and> fn_name F = fun_name) M of
          None \<Rightarrow> None
        | Some F \<Rightarrow> if inst_no \<le> length (fn_instrs F) then Some (fn_instrs F ! (inst_no - 1)) else None)"

section \<open>Comparing printed instructions\<close>

text \<open>
  \<open>std::sregex_token_iterator\<close> with the submatch -1 over the expression of a percent sign and digits: the text between
  the matches; what follows the last match is a token only if it is not empty.
\<close>

fun next_register :: "string \<Rightarrow> (string \<times> string) option" where
  "next_register [] = None"
| "next_register (c # s) =
     (if c = CHR ''%'' \<and> s \<noteq> [] \<and> is_digit (hd s) then Some ([], dropWhile is_digit s)
      else map_option (\<lambda>(p, r). (c # p, r)) (next_register s))"

lemma next_register_length: "next_register s = Some (p, r) \<Longrightarrow> length r < length s"
  by (induction s arbitrary: p r) (auto split: if_splits simp: le_imp_less_Suc length_dropWhile_le intro: less_SucI)

function reg_tokens :: "string \<Rightarrow> string list" where
  "reg_tokens s = (case next_register s of None \<Rightarrow> [s]
     | Some (p, r) \<Rightarrow> p # (if next_register r = None then (if r = [] then [] else [r]) else reg_tokens r))"
  by pat_completeness auto
termination
  by (relation "measure length") (auto dest: next_register_length)

declare reg_tokens.simps [simp del]

definition cut_dbg :: "bool \<Rightarrow> string \<Rightarrow> string" where
  "cut_dbg ignore_dbg s = (let substr = (if ignore_dbg then
       (case find_str ''!dbg'' s of None \<Rightarrow> [] | Some i \<Rightarrow> take i s) else [])
     in if substr = [] then s else substr)"

text \<open>The loop that advances both iterators while the tokens are equal.\<close>

fun tokens_loop :: "string list \<Rightarrow> string list \<Rightarrow> bool" where
  "tokens_loop (x # xs) (y # ys) = (if x \<noteq> y then False else tokens_loop xs ys)"
| "tokens_loop xs ys = (xs = [] \<and> ys = [])"

definition fuzzilyMatch :: "string \<Rightarrow> string \<Rightarrow> bool \<Rightarrow> bool" where
  "fuzzilyMatch s1 s2 ignore_dbg =
     tokens_loop (reg_tokens (cut_dbg ignore_dbg s1)) (reg_tokens (cut_dbg ignore_dbg s2))"

definition matchWithoutDbg :: "string \<Rightarrow> string \<Rightarrow> bool" where
  "matchWithoutDbg s1 s2 = (case (find_str ''!dbg'' s1, find_str ''!dbg'' s2) of
      (Some i, Some j) \<Rightarrow> i = j \<and> list_all (\<lambda>k. s1 ! k = s2 ! k) [0..<i]
    | _ \<Rightarrow> False)"

text \<open>The candidate of that text, and whether it is exact; the last fuzzy candidate otherwise.\<close>

fun candidates_loop ::
    "instruction list \<Rightarrow> string \<Rightarrow> bool \<Rightarrow> bool \<Rightarrow> instruction option \<Rightarrow> instruction option \<times> bool" where
  "candidates_loop [] target fuzzy ignore_dbg fuzzy_instr = (fuzzy_instr, False)"
| "candidates_loop (i # rest) target fuzzy ignore_dbg fuzzy_instr = (let str_instr = trim (in_text i) in
     if target = str_instr then (Some i, True)
     else candidates_loop rest target fuzzy ignore_dbg
       (if fuzzy \<and> fuzzilyMatch str_instr target ignore_dbg then Some i else fuzzy_instr))"

text \<open>\<open>matchInstr\<close> for a source line and a text; the flag is only written when candidates were searched.\<close>

definition matchInstr :: "func list \<Rightarrow> file_line \<Rightarrow> string \<Rightarrow> bool \<Rightarrow> bool \<Rightarrow> bool \<Rightarrow> (instruction option \<times> bool) option" where
  "matchInstr M opt instr_str fuzzy ignore_dbg exact0 =
     (if instr_str = [] then Some (None, exact0)
      else do {
        (ok, result) \<leftarrow> matchInstrsCriterion opt M no_match;
        if \<not> ok then Some (None, exact0)
        else Some (candidates_loop (mr_instrs result) (trim instr_str) fuzzy ignore_dbg None)
      })"

section \<open>Lemmas on the order\<close>

lemma str_compare_sign:
  "str_compare a b < 0 \<longleftrightarrow> a < b" "str_compare a b = 0 \<longleftrightarrow> a = b" "str_compare a b > 0 \<longleftrightarrow> b < a"
  by (induction a b rule: str_compare.induct) (auto simp: less_char_def)

definition source_key :: "instruction \<Rightarrow> debug_sp \<Rightarrow> string \<times> string \<times> nat" where
  "source_key i sp = (sp_directory sp, sp_filename sp, loc_line i sp)"

lemma line_difference:
  assumes "a < 2 ^ 31" and "b < 2 ^ 31"
  shows "to_int32 (int a - int b) = int a - int b"
proof -
  have "int a < 2 ^ 31" "int b < 2 ^ 31" using assms by (metis of_nat_less_iff of_nat_numeral of_nat_power)+
  then show ?thesis by (intro to_int32_id) auto
qed

section \<open>Lemmas on matching\<close>

lemma matchInstrsInFunction_eq:
  "matchInstrsInFunction line F acc =
     (let is = filter (\<lambda>i. getInstLine i = line) (fn_instrs F) in (is \<noteq> [], acc @ is))"
proof -
  have "fold (\<lambda>inst (matched, result). if getInstLine inst = line then (True, result @ [inst]) else (matched, result)) xs (m, acc) =
    (m \<or> filter (\<lambda>i. getInstLine i = line) xs \<noteq> [], acc @ filter (\<lambda>i. getInstLine i = line) xs)" for xs m
    by (induction xs arbitrary: m acc) auto
  then show ?thesis by (simp add: matchInstrsInFunction_def Let_def)
qed

lemma criterion_step:
  assumes "mr_instrs result = []"
  shows "matchInstrsCriterion criterion (F # rest) result =
    (if skipFunction F \<or> fn_subprogram F = None then matchInstrsCriterion criterion rest result
     else do {
       same \<leftarrow> spMatchFilename (the (fn_subprogram F)) (fl_file criterion);
       if same then do {
         end_line \<leftarrow> getLastLine F;
         let is = filter (\<lambda>i. getInstLine i = fl_line criterion) (fn_instrs F);
         if is \<noteq> [] then Some (True, \<lparr>mr_matched = True, mr_instrs = is, mr_func = Some F\<rparr>)
         else if fl_line criterion \<ge> sp_line (the (fn_subprogram F)) \<and> fl_line criterion \<le> end_line
         then Some (True, \<lparr>mr_matched = False, mr_instrs = [], mr_func = Some F\<rparr>)
         else matchInstrsCriterion criterion rest (result\<lparr>mr_matched := False, mr_instrs := []\<rparr>)
       } else matchInstrsCriterion criterion rest result
     })"
  using assms
  by (cases "fn_subprogram F") (auto simp: matchInstrsInFunction_eq Let_def split: bind_splits)

text \<open>What a function contributes to a criterion.\<close>

definition holds_line :: "file_line \<Rightarrow> func \<Rightarrow> instruction list" where
  "holds_line criterion F = filter (\<lambda>i. getInstLine i = fl_line criterion) (fn_instrs F)"

lemma criterion_sound:
  assumes "matchInstrsCriterion criterion M result = Some (ok, r)" and "mr_instrs result = []" and "\<not> mr_matched result"
  shows "(mr_instrs r \<noteq> [] \<longleftrightarrow> mr_matched r) \<and> (mr_matched r \<longrightarrow> ok) \<and>
    (ok \<longrightarrow> (\<exists>F sp. F \<in> set M \<and> mr_func r = Some F \<and> \<not> skipFunction F \<and> fn_subprogram F = Some sp \<and>
        spMatchFilename sp (fl_file criterion) = Some True \<and> mr_instrs r = holds_line criterion F))"
  using assms
proof (induction M arbitrary: result)
  case (Cons F M)
  note step = criterion_step [OF Cons.prems(2), of criterion F M]
  consider "skipFunction F \<or> fn_subprogram F = None"
    | sp where "\<not> skipFunction F" "fn_subprogram F = Some sp" "spMatchFilename sp (fl_file criterion) = Some False"
    | sp where "\<not> skipFunction F" "fn_subprogram F = Some sp" "spMatchFilename sp (fl_file criterion) = Some True"
    | sp where "\<not> skipFunction F" "fn_subprogram F = Some sp" "spMatchFilename sp (fl_file criterion) = None"
    by (metis (full_types) not_None_eq)
  then show ?case
  proof cases
    case 1
    then have "matchInstrsCriterion criterion M result = Some (ok, r)" using Cons.prems(1) unfolding step by (simp split: if_splits)
    then show ?thesis using Cons.IH Cons.prems(2,3) by (meson list.set_intros(2))
  next
    case 2
    then have "matchInstrsCriterion criterion M result = Some (ok, r)" using Cons.prems(1) unfolding step by simp
    then show ?thesis using Cons.IH Cons.prems(2,3) by (meson list.set_intros(2))
  next
    case 3
    then obtain end_line where e: "getLastLine F = Some end_line" using Cons.prems(1) unfolding step by (cases "getLastLine F") simp_all
    show ?thesis
    proof (cases "holds_line criterion F \<noteq> [] \<or> sp_line sp \<le> fl_line criterion \<and> fl_line criterion \<le> end_line")
      case True
      then have "ok" "r = \<lparr>mr_matched = (holds_line criterion F \<noteq> []), mr_instrs = holds_line criterion F, mr_func = Some F\<rparr>"
        using Cons.prems(1) 3 e unfolding step by (auto simp: holds_line_def Let_def split: if_splits)
      then show ?thesis using 3 by auto
    next
      case False
      then have "matchInstrsCriterion criterion M (result\<lparr>mr_matched := False, mr_instrs := []\<rparr>) = Some (ok, r)"
        using Cons.prems(1) 3 e unfolding step by (auto simp: holds_line_def Let_def split: if_splits)
      then show ?thesis using Cons.IH [of "result\<lparr>mr_matched := False, mr_instrs := []\<rparr>"] by (simp) (meson list.set_intros(2))
    qed
  next
    case 4
    then show ?thesis using Cons.prems(1) unfolding step by simp
  qed
qed auto

lemma candidates_loop_eq:
  "candidates_loop is target fuzzy ignore_dbg acc =
     (case find (\<lambda>i. trim (in_text i) = target) is of
        Some i \<Rightarrow> (Some i, True)
      | None \<Rightarrow> (let fs = filter (\<lambda>i. fuzzy \<and> fuzzilyMatch (trim (in_text i)) target ignore_dbg) is
          in (if fs = [] then acc else Some (last fs), False)))"
  by (induction "is" arbitrary: acc) (auto simp: Let_def split: option.splits)

lemma tokens_loop_eq: "tokens_loop xs ys \<longleftrightarrow> xs = ys"
  by (induction xs ys rule: tokens_loop.induct) auto

section \<open>Lemmas on registers\<close>

text \<open>A line of registers and the texts before, between and after them.\<close>

definition render :: "string \<Rightarrow> (nat \<times> string) list \<Rightarrow> string" where
  "render t0 ps = t0 @ concat (map (\<lambda>(n, t). ''%'' @ print_base 10 n @ t) ps)"

definition register_free :: "string \<Rightarrow> bool" where
  "register_free t \<longleftrightarrow> next_register t = None \<and> (t = [] \<or> \<not> is_digit (hd t))"

lemma print_base_is_digit: "c \<in> set (print_base 10 n) \<Longrightarrow> is_digit c"
proof -
  assume "c \<in> set (print_base 10 n)"
  then obtain d where d: "d < 10" "c = digit_char d" using print_base_digits [of 10 n] by auto
  then have "(of_char c :: nat) = 48 + d" using of_char_digit [of d] by simp
  then show ?thesis using d(1) by (simp add: is_digit_def)
qed

lemma next_register_text:
  assumes "next_register t = None" and "s = [] \<or> hd s = CHR ''%''"
  shows "next_register (t @ s) = map_option (\<lambda>(p, r). (t @ p, r)) (next_register s)"
  using assms
proof (induction t)
  case (Cons c t)
  have "\<not> (c = CHR ''%'' \<and> t @ s \<noteq> [] \<and> is_digit (hd (t @ s)))"
    using Cons.prems by (cases t) (auto simp: is_digit_def split: if_splits)
  moreover have "next_register t = None" using Cons.prems(1) by (auto split: if_splits)
  ultimately show ?case using Cons.IH [OF _ Cons.prems(2)] by (cases "next_register s") auto
qed (cases "next_register s", auto)

lemma next_register_digits:
  assumes "register_free t" and "s = [] \<or> hd s = CHR ''%''"
  shows "next_register (CHR ''%'' # print_base 10 n @ t @ s) = Some ([], t @ s)"
proof -
  have "t @ s = [] \<or> \<not> is_digit (hd (t @ s))" using assms by (cases t) (auto simp: register_free_def is_digit_def)
  then have "dropWhile is_digit (t @ s) = t @ s" by (cases "t @ s") auto
  moreover have "\<forall>c \<in> set (print_base 10 n). is_digit c" using print_base_is_digit by blast
  ultimately have "dropWhile is_digit (print_base 10 n @ t @ s) = t @ s" by (simp add: dropWhile_append2)
  moreover have ne: "print_base 10 n \<noteq> []" using print_base_digits [of 10 n] by simp
  moreover have "is_digit (hd (print_base 10 n))" using print_base_is_digit hd_in_set [OF ne] by blast
  ultimately show ?thesis by simp
qed

lemma render_tail: "concat (map (\<lambda>(n, t). ''%'' @ print_base 10 n @ t) ps) = [] \<or>
    hd (concat (map (\<lambda>(n, t). ''%'' @ print_base 10 n @ t) ps)) = CHR ''%''"
  by (cases ps) auto

lemma next_register_render:
  assumes "next_register t0 = None" and "\<forall>(n, t) \<in> set ps. register_free t"
  shows "next_register (render t0 ps) = (case ps of [] \<Rightarrow> None | (n, t) # ps' \<Rightarrow> Some (t0, render t ps'))"
proof (cases ps)
  case Nil
  then show ?thesis using assms by (simp add: render_def)
next
  case (Cons p ps')
  obtain n t where p: "p = (n, t)" by force
  let ?s = "concat (map (\<lambda>(n, t). ''%'' @ print_base 10 n @ t) ps')"
  have "next_register (CHR ''%'' # print_base 10 n @ t @ ?s) = Some ([], t @ ?s)"
    using next_register_digits [OF _ render_tail] assms(2) Cons p by auto
  then have "next_register (t0 @ CHR ''%'' # print_base 10 n @ t @ ?s) = Some (t0, t @ ?s)"
    using next_register_text [OF assms(1), of "CHR ''%'' # print_base 10 n @ t @ ?s"] by simp
  then show ?thesis by (simp add: render_def Cons p)
qed

fun text_tokens :: "string \<Rightarrow> string list \<Rightarrow> string list" where
  "text_tokens t0 [] = [t0]"
| "text_tokens t0 (t # ts) = t0 # (if ts = [] then (if t = [] then [] else [t]) else text_tokens t ts)"

lemma reg_tokens_render:
  assumes "next_register t0 = None" and "\<forall>(n, t) \<in> set ps. register_free t"
  shows "reg_tokens (render t0 ps) = text_tokens t0 (map snd ps)"
  using assms
proof (induction ps arbitrary: t0)
  case Nil
  then show ?case using next_register_render [of t0 "[]"] by (subst reg_tokens.simps) (simp add: render_def)
next
  case (Cons p ps)
  obtain n t where p: "p = (n, t)" by force
  have t: "next_register t = None" using Cons.prems(2) p by (auto simp: register_free_def)
  have nr: "next_register (render t0 (p # ps)) = Some (t0, render t ps)"
    using next_register_render [OF Cons.prems] p by simp
  have nr': "next_register (render t ps) = None \<longleftrightarrow> ps = []"
    using next_register_render [OF t, of ps] Cons.prems(2) by (auto split: list.splits)
  have IH: "reg_tokens (render t ps) = text_tokens t (map snd ps)" using Cons.IH [OF t] Cons.prems(2) by simp
  show ?case
  proof (cases "ps = []")
    case True
    then show ?thesis using nr nr' p by (subst reg_tokens.simps) (simp add: render_def)
  next
    case False
    then obtain q where "next_register (render t ps) = Some q" using nr' by auto
    moreover from this have "render t ps \<noteq> []" by auto
    ultimately show ?thesis using nr p IH False by (subst reg_tokens.simps) simp
  qed
qed

section \<open>Properties\<close>

text \<open>
  The comparator of source locations orders by directory, file name and line: for lines below 2^31 it is the
  strict linear order on these triples, or its converse, so that it can serve the ordered containers and sorts that use it.
\<close>

theorem source_loc_order:
  assumes "fn_subprogram f1 = Some sp1" and "fn_subprogram f2 = Some sp2"
    and "loc_line i1 sp1 < 2 ^ 31" and "loc_line i2 sp2 < 2 ^ 31"
  shows "inst_source_loc_less reverse_order (i1, f1) (i2, f2) =
    Some (if reverse_order then source_key i2 sp2 < source_key i1 sp1 else source_key i1 sp1 < source_key i2 sp2)"
  using assms(1,2) str_compare_sign [of "sp_directory sp1" "sp_directory sp2"] str_compare_sign [of "sp_filename sp1" "sp_filename sp2"]
  by (auto simp: inst_source_loc_less_def Let_def source_key_def less_prod_def line_difference [OF assms(3,4)] order_less_imp_not_less)

definition sample_sp :: "string \<Rightarrow> nat \<Rightarrow> debug_sp" where
  "sample_sp file line = \<lparr>sp_directory = ''/src'', sp_filename = file, sp_line = line, sp_name = ''f'', sp_linkage_name = []\<rparr>"

definition sample_instr :: "nat \<Rightarrow> nat option \<Rightarrow> string \<Rightarrow> instruction" where
  "sample_instr k line t = \<lparr>in_id = k, in_loc = line, in_text = t\<rparr>"

definition sample_func :: "string \<Rightarrow> debug_sp option \<Rightarrow> instruction list \<Rightarrow> func" where
  "sample_func name sp is = \<lparr>fn_name = name, fn_is_declaration = False, fn_subprogram = sp, fn_blocks = [is]\<rparr>"

theorem source_loc_order_witness:
  "inst_source_loc_less False (sample_instr 1 (Some 9) [], sample_func ''f'' (Some (sample_sp ''a.c'' 3)) [])
     (sample_instr 2 None [], sample_func ''g'' (Some (sample_sp ''b.c'' 5)) []) = Some True"
  using source_loc_order [of "sample_func ''f'' (Some (sample_sp ''a.c'' 3)) []" "sample_sp ''a.c'' 3"
      "sample_func ''g'' (Some (sample_sp ''b.c'' 5)) []" "sample_sp ''b.c'' 5" "sample_instr 1 (Some 9) []" "sample_instr 2 None []" False]
  by (simp add: sample_func_def sample_sp_def sample_instr_def loc_line_def source_key_def less_prod_def less_char_def)

text \<open>
  What a source line is matched to: if \<open>matchInstrsCriterion\<close> returns true, the result names a function with
  debug information whose file matches, and the instructions are exactly those of this function on the line;
  instructions are found if and only if the result is marked as matched.
\<close>

theorem criterion_match_sound:
  assumes "matchInstrsCriterion criterion M no_match = Some (ok, r)"
  shows "(mr_instrs r \<noteq> [] \<longleftrightarrow> mr_matched r) \<and> (mr_matched r \<longrightarrow> ok) \<and>
    (ok \<longrightarrow> (\<exists>F sp. F \<in> set M \<and> mr_func r = Some F \<and> \<not> skipFunction F \<and> fn_subprogram F = Some sp \<and>
        spMatchFilename sp (fl_file criterion) = Some True \<and> mr_instrs r = holds_line criterion F))"
  using criterion_sound [OF assms] by (simp add: no_match_def)

definition sample_module :: "func list" where
  "sample_module =
     [sample_func ''helper'' None [sample_instr 1 None ''ret void''],
      sample_func ''main'' (Some (sample_sp ''hello.c'' 70))
        [sample_instr 2 (Some 76) ''  %4 = load i64, i64* %3, !dbg !9'', sample_instr 3 (Some 80) ''ret i32 0'']]"

lemma sample_criterion: "matchInstrsCriterion \<lparr>fl_file = ''hello.c'', fl_line = 76\<rparr> sample_module no_match =
    Some (True, \<lparr>mr_matched = True, mr_instrs = [sample_instr 2 (Some 76) ''  %4 = load i64, i64* %3, !dbg !9''],
      mr_func = Some (sample_module ! 1)\<rparr>)"
  by code_simp

theorem criterion_match_sound_witness:
  "\<exists>F sp. F \<in> set sample_module \<and> fn_subprogram F = Some sp \<and> spMatchFilename sp ''hello.c'' = Some True \<and>
     holds_line \<lparr>fl_file = ''hello.c'', fl_line = 76\<rparr> F = [sample_instr 2 (Some 76) ''  %4 = load i64, i64* %3, !dbg !9'']"
  using criterion_match_sound [OF sample_criterion] by (simp, metis)

text \<open>
  An exact match is preferred. Among the instructions found, \<open>matchInstr\<close> returns the first whose trimmed text is the
  trimmed text asked for, marked as exact; without one, the last that matches fuzzily, marked as not exact; and
  nothing only if neither exists.
\<close>

theorem exact_match_preferred:
  assumes "instr_str \<noteq> []" and "matchInstrsCriterion opt M no_match = Some (True, r)"
  shows "matchInstr M opt instr_str fuzzy ignore_dbg exact0 = Some
    (case find (\<lambda>i. trim (in_text i) = trim instr_str) (mr_instrs r) of
        Some i \<Rightarrow> (Some i, True)
      | None \<Rightarrow> (let fs = filter (\<lambda>i. fuzzy \<and> fuzzilyMatch (trim (in_text i)) (trim instr_str) ignore_dbg) (mr_instrs r)
          in (if fs = [] then None else Some (last fs), False)))"
  using assms by (simp add: matchInstr_def candidates_loop_eq)

theorem exact_match_preferred_witness:
  "map_option (map_option in_id \<circ> fst) (matchInstr sample_module \<lparr>fl_file = ''hello.c'', fl_line = 76\<rparr>
     ''%7 = load i64, i64* %6, !dbg !12'' True True False) = Some (Some 2)"
proof -
  have "trim ''  %4 = load i64, i64* %3, !dbg !9'' \<noteq> trim ''%7 = load i64, i64* %6, !dbg !12''"
    "fuzzilyMatch (trim ''  %4 = load i64, i64* %3, !dbg !9'') (trim ''%7 = load i64, i64* %6, !dbg !12'') True"
    by code_simp+
  then show ?thesis
    using exact_match_preferred [OF _ sample_criterion, of "''%7 = load i64, i64* %6, !dbg !12''" True True False]
    by (simp add: sample_instr_def)
qed

text \<open>
  The fuzzy comparison does what it was written for: two printed instructions that differ only in their register
  numbers and in what follows \<open>!dbg\<close> match.
\<close>

theorem fuzzy_ignores_registers:
  assumes "next_register t0 = None" and "\<forall>t \<in> set ts. register_free t" and "t0 \<noteq> [] \<or> ts \<noteq> []"
    and "length ns = length ts" and "length ms = length ts"
    and "CHR ''!'' \<notin> set (render t0 (zip ns ts))" and "CHR ''!'' \<notin> set (render t0 (zip ms ts))"
  shows "fuzzilyMatch (render t0 (zip ns ts) @ ''!dbg'' @ d1) (render t0 (zip ms ts) @ ''!dbg'' @ d2) True"
proof -
  have cut: "cut_dbg True (render t0 (zip ks ts) @ ''!dbg'' @ d) = render t0 (zip ks ts)"
    if "CHR ''!'' \<notin> set (render t0 (zip ks ts))" "length ks = length ts" for ks d
  proof -
    have "find_str ''!dbg'' (render t0 (zip ks ts) @ ''!dbg'' @ d) = Some (length (render t0 (zip ks ts)))"
      by (rule find_str_field [OF that(1)]) simp
    moreover have "render t0 (zip ks ts) \<noteq> []"
      using assms(3) that(2) by (cases ts; cases ks) (auto simp: render_def)
    ultimately show ?thesis by (simp add: cut_dbg_def)
  qed
  have toks: "reg_tokens (render t0 (zip ks ts)) = text_tokens t0 ts" if "length ks = length ts" for ks
    using reg_tokens_render [OF assms(1), of "zip ks ts"] assms(2) that by (auto dest: set_zip_rightD)
  show ?thesis by (simp add: fuzzilyMatch_def cut toks assms tokens_loop_eq del: append.simps)
qed

theorem fuzzy_ignores_registers_witness:
  "fuzzilyMatch (render [] (zip [38, 7] ['' = load i64, i64* '', '', '']) @ ''!dbg'' @ '' !73'')
     (render [] (zip [41, 8] ['' = load i64, i64* '', '', '']) @ ''!dbg'' @ '' !80'') True"
  by (rule fuzzy_ignores_registers)
     (simp_all add: register_free_def is_digit_def render_def print_base.simps digit_char_def char_of_def)

text \<open>
  Of the two searches by source line only \<open>matchInstrsCriterion\<close> skips functions without debug information:
  when the first defined function of a module has none, \<open>matchInstrsCriteria\<close> dereferences a null pointer, where the
  other search goes on with the rest of the module.
\<close>

theorem criteria_null_subprogram:
  assumes "\<not> skipFunction F" and "fn_subprogram F = None" and "criteria \<noteq> []"
  shows "matchInstrsCriteria criteria (F # M) = None \<and>
    matchInstrsCriterion criterion (F # M) no_match = matchInstrsCriterion criterion M no_match"
proof
  have up: "[0..<length criteria] = 0 # [1..<length criteria]" using assms(3) by (simp add: upt_conv_Cons)
  have "criteria_step F criteria 0 (replicate (length criteria) no_match) = None"
    using assms by (simp add: criteria_step_def no_match_def)
  then show "matchInstrsCriteria criteria (F # M) = None"
    using assms(1) by (simp add: matchInstrsCriteria_def up)
  show "matchInstrsCriterion criterion (F # M) no_match = matchInstrsCriterion criterion M no_match"
    using assms by simp
qed

theorem criteria_null_subprogram_witness:
  "matchInstrsCriteria [\<lparr>fl_file = ''hello.c'', fl_line = 76\<rparr>] sample_module = None"
  using criteria_null_subprogram [of "hd sample_module" "[\<lparr>fl_file = ''hello.c'', fl_line = 76\<rparr>]" "tl sample_module"]
  by (simp add: sample_module_def sample_func_def skipFunction_def)

end
