(* ===== verification/FaultLocation.thy ===== *)
theory FaultLocation
  imports Matching
begin

text \<open>
  Finding the instructions to start from: the slicing criteria of the analyzer (\<open>analyzer/lib/Slicing/SliceCriteria.cpp\<close>) and the
  fault location of the reactor (\<open>Reactor::locate_fault_instr\<close> in \<open>reactor/lib/core.cpp\<close>), both on top of the matcher. The lemmas show
  that what is found lies on the line asked for, that choosing by number agrees with the matcher's own search, and where success is
  reported although nothing was found.
\<close>

section \<open>Slicing criteria\<close>

record slice_inst_criteria_opt =
  so_file_lines :: string
  so_inst :: string
  so_func :: string
  so_inst_no :: int
  so_fuzzy_match :: bool
  so_ignore_dbg :: bool

text \<open>The loop over the results of the matcher; \<open>inst\<close> is the trimmed text asked for.\<close>

fun results_loop :: "slice_inst_criteria_opt \<Rightarrow> string \<Rightarrow> match_result list \<Rightarrow> bool \<Rightarrow> instruction list \<Rightarrow> bool \<times> instruction list" where
  "results_loop opt inst [] found match_insts = (found, match_insts)"
| "results_loop opt inst (r # rs) found match_insts =
     (if inst = [] then results_loop opt inst rs True (match_insts @ mr_instrs r)
      else case fst (candidates_loop (mr_instrs r) inst (so_fuzzy_match opt) (so_ignore_dbg opt) None) of
          None \<Rightarrow> results_loop opt inst rs found match_insts
        | Some instr \<Rightarrow> results_loop opt inst rs True (match_insts @ [instr]))"

text \<open>The loop over the instructions of the function, with the number of the last one.\<close>

fun number_loop :: "slice_inst_criteria_opt \<Rightarrow> string \<Rightarrow> int \<Rightarrow> instruction list \<Rightarrow> instruction option" where
  "number_loop opt inst inst_no [] = None"
| "number_loop opt inst inst_no (instr # rest) = (let inst_no' = inst_no + 1 in
     if so_inst_no opt > 0 then (if so_inst_no opt = inst_no' then Some instr else number_loop opt inst inst_no' rest)
     else if inst = trim (in_text instr) then Some instr else number_loop opt inst inst_no' rest)"

definition parseSlicingCriteriaOpt ::
    "slice_inst_criteria_opt \<Rightarrow> func list \<Rightarrow> instruction list \<Rightarrow> (bool \<times> instruction list) option" where
  "parseSlicingCriteriaOpt opt M match_insts = (let
     inst = (if so_inst opt \<noteq> [] then trim (so_inst opt) else so_inst opt)
   in if so_file_lines opt \<noteq> [] then
       (let (ok, fileLines) = fromCriteriaStr (so_file_lines opt)
        in if \<not> ok \<or> fileLines = [] then Some (False, match_insts)
           else map_option (\<lambda>results. results_loop opt inst results False match_insts) (matchInstrsCriteria fileLines M))
     else if so_func opt = [] then Some (False, match_insts)
     else if inst = [] \<or> so_inst_no opt \<le> 0 then Some (False, match_insts)
     else case find (\<lambda>F. \<not> fn_is_declaration F \<and> fn_name F = so_func opt) M of
         None \<Rightarrow> Some (False, match_insts)
       | Some F \<Rightarrow> (case number_loop opt inst 0 (fn_instrs F) of
             None \<Rightarrow> Some (False, match_insts)
           | Some instr \<Rightarrow> Some (True, match_insts @ [instr])))"

section \<open>The fault location\<close>

text \<open>
  The result of \<open>fromCriterionStr\<close> is not looked at; with one colon left in the string it always succeeds, so that the uninitialised line of a
  new \<open>FileLine\<close> is never used.
\<close>

definition locate_fault_instr :: "bool \<Rightarrow> func list \<Rightarrow> string \<Rightarrow> string \<Rightarrow> instruction option option" where
  "locate_fault_instr processed M fault_loc inst_str =
     (if \<not> processed then Some None
      else let n = length (filter (\<lambda>c. c = CHR '':'') fault_loc) in
        if n = 1 then do {
          fileLine \<leftarrow> fromCriterionStr fault_loc;
          map_option fst (matchInstr M fileLine inst_str True True False)
        } else if n = 2 then do {
          pos \<leftarrow> rfind_char (CHR '':'') fault_loc;
          fileLine \<leftarrow> fromCriterionStr (take pos fault_loc);
          map_option fst (matchInstr M fileLine inst_str True True False)
        } else Some None)"

section \<open>Lemmas\<close>

lemma split_char_none: "c \<notin> set s \<Longrightarrow> split_char c s = [s]"
  by (subst split_char.simps) (simp add: find_char_None [THEN iffD2])

lemma find_char_first: "c \<notin> set a \<Longrightarrow> find_char c (a @ c # b) = Some (length a)"
  by (induction a) auto

lemma split_char_field: "c \<notin> set a \<Longrightarrow> split_char c (a @ c # b) = a # split_char c b"
  by (subst split_char.simps) (simp add: find_char_first)

lemma criterion_parts:
  assumes "CHR '':'' \<notin> set file" and "CHR '':'' \<notin> set line"
  shows "fromCriterionStr (file @ CHR '':'' # line) = Some \<lparr>fl_file = file, fl_line = atoi_unsigned line\<rparr>"
  using assms by (simp add: fromCriterionStr_def splitList_char_def Let_def split_char_field split_char_none)

lemma rfind_char_last: "c \<notin> set b \<Longrightarrow> rfind_char c (a @ c # b) = Some (length a)"
  using find_char_first [of c "rev b" "rev a"] by (simp add: rfind_char_def)

lemma candidate_member:
  assumes "fst (candidates_loop is target fuzzy ignore_dbg None) = Some i"
  shows "i \<in> set is"
proof (cases "find (\<lambda>i. trim (in_text i) = target) is")
  case None
  let ?fs = "filter (\<lambda>i. fuzzy \<and> fuzzilyMatch (trim (in_text i)) target ignore_dbg) is"
  have "?fs \<noteq> []" "i = last ?fs" using assms None by (auto simp: candidates_loop_eq Let_def split: if_splits)
  then have "i \<in> set ?fs" using last_in_set by metis
  then show ?thesis by simp
next
  case (Some j)
  then have "j \<in> set is" by (auto simp: find_Some_iff)
  then show ?thesis using assms Some by (simp add: candidates_loop_eq)
qed

lemma number_loop_eq:
  assumes "so_inst_no opt > k"  and "k \<ge> 0"
  shows "number_loop opt inst k is = (if nat (so_inst_no opt - k) \<le> length is then Some (is ! (nat (so_inst_no opt - k) - 1)) else None)"
  using assms
proof (induction "is" arbitrary: k)
  case (Cons i "is")
  show ?case
  proof (cases "so_inst_no opt = k + 1")
    case False
    then have "so_inst_no opt > k + 1" using Cons.prems(1) by simp
    moreover have "nat (so_inst_no opt - k) = Suc (nat (so_inst_no opt - (k + 1)))" "nat (so_inst_no opt - (k + 1)) \<noteq> 0"
      using \<open>so_inst_no opt > k + 1\<close> by auto
    ultimately show ?thesis using Cons.IH [of "k + 1"] Cons.prems False by (auto simp: Let_def nth_Cons')
  qed (use Cons.prems in \<open>simp add: Let_def\<close>)
qed simp

text \<open>The instructions a criterion may be given: those on its line in a defined function of its file.\<close>

definition on_line :: "func list \<Rightarrow> file_line \<Rightarrow> instruction \<Rightarrow> bool" where
  "on_line M criterion i \<longleftrightarrow> (\<exists>F \<in> set M. \<exists>sp. \<not> skipFunction F \<and> fn_subprogram F = Some sp \<and>
     spMatchFilename sp (fl_file criterion) = Some True \<and> i \<in> set (fn_instrs F) \<and> getInstLine i = fl_line criterion)"

definition results_on_line :: "func list \<Rightarrow> file_line list \<Rightarrow> match_result list \<Rightarrow> bool" where
  "results_on_line M criteria results \<longleftrightarrow> length results = length criteria \<and>
     (\<forall>k < length criteria. \<forall>i \<in> set (mr_instrs (results ! k)). on_line M (criteria ! k) i)"

lemma criteria_step_on_line:
  assumes "criteria_step F criteria k results = Some results'" and "results_on_line M criteria results" and "k < length criteria"
    and "F \<in> set M" and "\<not> skipFunction F"
  shows "results_on_line M criteria results'"
proof (cases "results' = results")
  case False
  obtain sp where sp: "fn_subprogram F = Some sp" "spMatchFilename sp (fl_file (criteria ! k)) = Some True"
    using assms(1) False by (auto simp: criteria_step_def split: if_splits Option.bind_splits)
  have "results' = results[k := (results ! k)\<lparr>mr_matched := filter (\<lambda>i. getInstLine i = fl_line (criteria ! k)) (fn_instrs F) \<noteq> [],
      mr_instrs := mr_instrs (results ! k) @ filter (\<lambda>i. getInstLine i = fl_line (criteria ! k)) (fn_instrs F), mr_func := Some F\<rparr>]"
    using assms(1) False sp by (auto simp: criteria_step_def matchInstrsInFunction_eq Let_def split: if_splits Option.bind_splits)
  moreover have "on_line M (criteria ! k) i" if "i \<in> set (filter (\<lambda>i. getInstLine i = fl_line (criteria ! k)) (fn_instrs F))" for i
    using that sp assms(4,5) by (auto simp: on_line_def)
  ultimately show ?thesis using assms(2,3) by (auto simp: results_on_line_def nth_list_update)
qed (use assms(2) in simp)

lemma criteria_functions_on_line:
  assumes "criteria_functions Fs criteria results = Some results'" and "results_on_line M criteria results" and "set Fs \<subseteq> set M"
  shows "results_on_line M criteria results'"
  using assms
proof (induction Fs arbitrary: results)
  case (Cons F Fs)
  show ?case
  proof (cases "skipFunction F")
    case True
    then show ?thesis using Cons by simp
  next
    case False
    obtain r1 where r1: "ofold (criteria_step F criteria) [0..<length criteria] results = Some r1"
      "(if list_all mr_matched r1 then Some r1 else criteria_functions Fs criteria r1) = Some results'"
      using Cons.prems(1) False by (auto split: Option.bind_splits)
    have "results_on_line M criteria r1"
      by (rule ofold_invariant [OF r1(1)]) (use Cons.prems(2,3) criteria_step_on_line False in auto)
    then show ?thesis using r1(2) Cons.IH Cons.prems(3) by (auto split: if_splits)
  qed
qed simp

lemma results_loop_found:
  "i \<in> set (snd (results_loop opt inst rs found acc)) \<Longrightarrow> i \<in> set acc \<or> (\<exists>r \<in> set rs. i \<in> set (mr_instrs r))"
proof (induction opt inst rs found acc rule: results_loop.induct)
  case (2 opt inst r rs found acc)
  show ?case
  proof (cases "inst = []")
    case True
    then show ?thesis using 2 by auto
  next
    case False
    then show ?thesis
      using 2 candidate_member [of "mr_instrs r" inst "so_fuzzy_match opt" "so_ignore_dbg opt"] by (auto split: option.splits)
  qed
qed simp

section \<open>Properties\<close>

text \<open>
  The instructions given for file and line criteria lie where the criteria say: each is an instruction of a defined function of the file of one of
  the criteria, on its line.
\<close>

theorem criteria_on_line:
  assumes "parseSlicingCriteriaOpt opt M [] = Some (ok, is)" and "so_file_lines opt \<noteq> []"
  shows "\<forall>i \<in> set is. \<exists>criterion \<in> set (snd (fromCriteriaStr (so_file_lines opt))). on_line M criterion i"
proof
  fix i assume i: "i \<in> set is"
  obtain parsed cs where cs: "fromCriteriaStr (so_file_lines opt) = (parsed, cs)" by fastforce
  let ?inst = "if so_inst opt \<noteq> [] then trim (so_inst opt) else so_inst opt"
  obtain results where r: "matchInstrsCriteria cs M = Some results" "is = snd (results_loop opt ?inst results False [])"
    using assms cs i by (auto simp: parseSlicingCriteriaOpt_def Let_def split: if_splits)
  have "results_on_line M cs (replicate (length cs) no_match)" by (simp add: results_on_line_def no_match_def)
  then have "results_on_line M cs results" using criteria_functions_on_line r(1) by (auto simp: matchInstrsCriteria_def)
  moreover obtain k where "k < length results" "i \<in> set (mr_instrs (results ! k))"
  proof -
    obtain x where "x \<in> set results" "i \<in> set (mr_instrs x)" using results_loop_found [of i opt ?inst results False "[]"] i r(2) by auto
    then show thesis using that by (metis in_set_conv_nth)
  qed
  ultimately show "\<exists>criterion \<in> set (snd (fromCriteriaStr (so_file_lines opt))). on_line M criterion i"
    using cs by (intro bexI [of _ "cs ! k"]) (auto simp: results_on_line_def)
qed

definition sample_criteria :: "string \<Rightarrow> string \<Rightarrow> int \<Rightarrow> slice_inst_criteria_opt" where
  "sample_criteria file_lines inst no = \<lparr>so_file_lines = file_lines, so_inst = inst, so_func = ''main'', so_inst_no = no,
     so_fuzzy_match = True, so_ignore_dbg = True\<rparr>"

lemma sample_criteria_found:
  "parseSlicingCriteriaOpt (sample_criteria ''hello.c:76'' [] 0) (tl sample_module) [] =
     Some (True, [sample_instr 2 (Some 76) ''  %4 = load i64, i64* %3, !dbg !9''])"
  by code_simp

theorem criteria_on_line_witness:
  "on_line (tl sample_module) \<lparr>fl_file = ''hello.c'', fl_line = 76\<rparr> (sample_instr 2 (Some 76) ''  %4 = load i64, i64* %3, !dbg !9'')"
proof -
  have "snd (fromCriteriaStr ''hello.c:76'') = [\<lparr>fl_file = ''hello.c'', fl_line = 76\<rparr>]" by code_simp
  then show ?thesis using criteria_on_line [OF sample_criteria_found] by (simp add: sample_criteria_def)
qed

text \<open>
  Choosing by function and number: without file and line criteria the result is what the matcher's own search by number finds, provided a
  text and a positive number are given; the text itself is not compared, and a criterion with a text alone is refused.
\<close>

theorem criteria_by_number:
  assumes "so_file_lines opt = []"
  shows "parseSlicingCriteriaOpt opt M acc = Some
    (if so_inst opt = [] \<or> trim (so_inst opt) = [] \<or> so_inst_no opt \<le> 0 then (False, acc)
     else case matchInstr_seq M (so_func opt) (nat (so_inst_no opt)) of None \<Rightarrow> (False, acc) | Some i \<Rightarrow> (True, acc @ [i]))"
  using assms number_loop_eq [of 0 opt]
  by (auto simp: parseSlicingCriteriaOpt_def matchInstr_seq_def Let_def split: option.splits)

theorem criteria_by_number_witness:
  "parseSlicingCriteriaOpt (sample_criteria [] ''x'' 2) sample_module [] = Some (True, [sample_instr 3 (Some 80) ''ret i32 0''])"
proof -
  have "matchInstr_seq sample_module ''main'' 2 = Some (sample_instr 3 (Some 80) ''ret i32 0'')" "trim ''x'' = ''x''" by code_simp+
  then show ?thesis using criteria_by_number [of "sample_criteria [] ''x'' 2" sample_module "[]"] by (simp add: sample_criteria_def)
qed

text \<open>
  Success without an instruction: with file and line criteria and no text, \<open>parseSlicingCriteriaOpt\<close> returns true even if no instruction was found.
\<close>

theorem criteria_found_nothing:
  "parseSlicingCriteriaOpt (sample_criteria ''other.c:1'' [] 0) (tl sample_module) [] = Some (True, [])"
  by code_simp



end
