(* ===== verification/Slices.thy ===== *)
theory Slices
  imports Arthas_Prelude
begin

text \<open>
  Slices (\<open>analyzer/include/Slicing/Slice.h\<close>, \<open>analyzer/lib/Slicing/Slice.cpp\<close>): a slice is the list of the values its root depends
  on; slices are collected in a container by identifier. Also the two comparators by distance, which
  \<open>std::sort\<close> gets; what a sort with them may return is the predicate \<open>std_sorted\<close>. Values are a parameter type.
\<close>

section \<open>Data\<close>

datatype slice_persistence = NA | Persistent | Volatile | Mixed

datatype slice_direction = Backward | Forward | Full

datatype slice_dependence = Unknown | RegisterDefUse | MemoryDependence | ControlDependence | InterfereDependence

record 'v slice =
  sc_id :: nat
  sc_root :: 'v
  sc_direction :: slice_direction
  sc_persistence :: slice_persistence
  sc_dependence :: slice_dependence
  sc_dep_vals :: "('v \<times> int) list"

definition new_slice :: "nat \<Rightarrow> 'v \<Rightarrow> slice_direction \<Rightarrow> slice_persistence \<Rightarrow> slice_dependence \<Rightarrow> 'v slice" where
  "new_slice slice_id root_val dir kind dep = \<lparr>sc_id = slice_id, sc_root = root_val, sc_direction = dir,
     sc_persistence = kind, sc_dependence = dep, sc_dep_vals = [(root_val, 0)]\<rparr>"

definition slice_add :: "'v slice \<Rightarrow> 'v \<Rightarrow> 'v slice" where
  "slice_add s v = s\<lparr>sc_dep_vals := sc_dep_vals s @ [(v, 0)]\<rparr>"

definition fork :: "'v slice \<Rightarrow> 'v slice" where
  "fork s = fold (\<lambda>(dep, _) c. if dep = sc_root s then c else slice_add c dep) (sc_dep_vals s)
     (new_slice (sc_id s) (sc_root s) (sc_direction s) (sc_persistence s) (sc_dependence s))"

text \<open>The counters are the global variables \<open>volatile_count\<close>, \<open>persistent_count\<close> and \<open>mixed_count\<close>.\<close>

record persistence_counts =
  pc_volatile :: int
  pc_persistent :: int
  pc_mixed :: int

definition setPersistence :: "'v list \<Rightarrow> 'v slice \<Rightarrow> persistence_counts \<Rightarrow> 'v slice \<times> persistence_counts" where
  "setPersistence persist_vars s counts = (let
     (vol, persistent) = fold (\<lambda>(val, _) (vol, persistent).
         if val \<in> set persist_vars then (vol, True) else (True, persistent)) (sc_dep_vals s) (False, False)
   in if vol \<and> persistent then (s\<lparr>sc_persistence := Mixed\<rparr>, counts\<lparr>pc_mixed := pc_mixed counts + 1\<rparr>)
      else if vol then (s\<lparr>sc_persistence := Volatile\<rparr>, counts\<lparr>pc_volatile := pc_volatile counts + 1\<rparr>)
      else if persistent then (s\<lparr>sc_persistence := Persistent\<rparr>, counts\<lparr>pc_persistent := pc_persistent counts + 1\<rparr>)
      else (s, counts))"

text \<open>
  The container \<open>Slices\<close>: the list and the map by identifier. \<open>insert\<close> of an identifier that is present keeps the
  first slice. The slices are pointers; a slice is its position in the list.
\<close>

definition slices_get :: "'v slice list \<Rightarrow> nat \<Rightarrow> nat option" where
  "slices_get slices slice_id = (let t = takeWhile (\<lambda>s. sc_id s \<noteq> slice_id) slices in
     if length t < length slices then Some (length t) else None)"

definition slices_has :: "'v slice list \<Rightarrow> nat \<Rightarrow> bool" where
  "slices_has slices slice_id \<longleftrightarrow> slices_get slices slice_id \<noteq> None"

section \<open>Comparators\<close>

definition edge_less :: "int \<Rightarrow> int \<Rightarrow> bool" where
  "edge_less dist1 dist2 =
     (if dist1 = 0 \<and> dist2 = 0 then False
      else if dist1 < 0 then (if dist2 > 0 then True else - dist1 < - dist2)
      else (if dist2 < 0 then False else dist1 < dist2))"

definition slice_value_less :: "'v \<times> int \<Rightarrow> 'v \<times> int \<Rightarrow> bool" where
  "slice_value_less val1 val2 = (let dist1 = snd val1; dist2 = snd val2 in
     if dist1 = 0 \<and> dist2 = 0 then False
     else if dist1 < 0 then (if dist2 > 0 then True else - dist1 < - dist2)
     else (if dist2 < 0 then False else dist1 < dist2))"

text \<open>
  What \<open>std::sort\<close> guarantees for a comparator that is a strict weak order: a permutation in which no later element is less than
  an earlier one.
\<close>

definition std_sorted :: "('x \<Rightarrow> 'x \<Rightarrow> bool) \<Rightarrow> 'x list \<Rightarrow> 'x list \<Rightarrow> bool" where
  "std_sorted lt xs ys \<longleftrightarrow> mset ys = mset xs \<and> sorted_wrt (\<lambda>x y. \<not> lt y x) ys"

definition slice_sort :: "'v slice \<Rightarrow> 'v slice \<Rightarrow> bool" where
  "slice_sort s s' \<longleftrightarrow> (\<exists>ys. std_sorted slice_value_less (sc_dep_vals s) ys \<and> s' = s\<lparr>sc_dep_vals := ys\<rparr>)"

section \<open>Lemmas\<close>

lemma fork_eq:
  "fork s = s\<lparr>sc_dep_vals := (sc_root s, 0) # map (\<lambda>v. (v, 0)) (filter (\<lambda>v. v \<noteq> sc_root s) (map fst (sc_dep_vals s)))\<rparr>"
proof -
  have "fold (\<lambda>(dep, _) c. if dep = r then c else slice_add c dep) xs t =
      t\<lparr>sc_dep_vals := sc_dep_vals t @ map (\<lambda>v. (v, 0)) (filter (\<lambda>v. v \<noteq> r) (map fst xs))\<rparr>"
    for r :: 'a and xs :: "('a \<times> int) list" and t :: "'a slice"
    by (induction xs arbitrary: t) (auto simp: slice_add_def)
  then show ?thesis by (simp add: fork_def new_slice_def)
qed

lemma persistence_fold:
  "fold (\<lambda>(val, _) (vol, persistent). if val \<in> V then (vol, True) else (True, persistent)) xs (a, b) =
     (a \<or> (\<exists>v \<in> fst ` set xs. v \<notin> V), b \<or> (\<exists>v \<in> fst ` set xs. v \<in> V))"
  by (induction xs arbitrary: a b) auto

text \<open>The order the comparators describe for distances other than zero.\<close>

definition dist_key :: "int \<Rightarrow> bool \<times> int" where
  "dist_key d = (d > 0, \<bar>d\<bar>)"

definition key_less :: "bool \<times> int \<Rightarrow> bool \<times> int \<Rightarrow> bool" where
  "key_less k l \<longleftrightarrow> (\<not> fst k \<and> fst l) \<or> (fst k = fst l \<and> snd k < snd l)"

lemma edge_less_key: "d1 \<noteq> 0 \<Longrightarrow> d2 \<noteq> 0 \<Longrightarrow> edge_less d1 d2 \<longleftrightarrow> key_less (dist_key d1) (dist_key d2)"
  by (auto simp: edge_less_def dist_key_def key_less_def)

lemma key_less_order: "\<not> key_less k k" "key_less k l \<Longrightarrow> key_less l m \<Longrightarrow> key_less k m" "key_less k l \<or> k = l \<or> key_less l k"
  by (cases k; cases l; cases m; auto simp: key_less_def)+

lemma dist_key_inj: "dist_key d1 = dist_key d2 \<longleftrightarrow> d1 = d2"
  by (auto simp: dist_key_def)

lemma setPersistence_spec:
  assumes "sc_dep_vals s \<noteq> []" and "setPersistence vars s counts = (s', counts')"
  shows "sc_persistence s' = (let vals = fst ` set (sc_dep_vals s) in
      if vals \<subseteq> set vars then Persistent else if vals \<inter> set vars = {} then Volatile else Mixed) \<and>
    sc_dep_vals s' = sc_dep_vals s \<and> s' = s\<lparr>sc_persistence := sc_persistence s'\<rparr> \<and>
    pc_volatile counts' + pc_persistent counts' + pc_mixed counts' =
      pc_volatile counts + pc_persistent counts + pc_mixed counts + 1"
proof -
  obtain v where "v \<in> fst ` set (sc_dep_vals s)" using assms(1) by (cases "sc_dep_vals s") auto
  then show ?thesis using assms(2) by (auto simp: setPersistence_def persistence_fold Let_def split: if_splits)
qed

section \<open>Properties\<close>

text \<open>
  The persistence of a slice: \<open>setPersistence\<close> classifies a slice as mixed if it holds both persistent and other
  values, as volatile or persistent if it holds only one sort, counts it in exactly one class, and keeps its values.
\<close>

theorem setPersistence_classifies:
  assumes "sc_dep_vals s \<noteq> []" and "setPersistence vars s counts = (s', counts')"
  shows "sc_persistence s' = (let vals = fst ` set (sc_dep_vals s) in
      if vals \<subseteq> set vars then Persistent else if vals \<inter> set vars = {} then Volatile else Mixed) \<and>
    sc_dep_vals s' = sc_dep_vals s \<and>
    pc_volatile counts' + pc_persistent counts' + pc_mixed counts' =
      pc_volatile counts + pc_persistent counts + pc_mixed counts + 1"
  using setPersistence_spec [OF assms] by blast

theorem setPersistence_classifies_witness:
  "sc_persistence (fst (setPersistence [7, 8] (slice_add (new_slice 1 (7::nat) Backward NA Unknown) 9)
     \<lparr>pc_volatile = 0, pc_persistent = 0, pc_mixed = 0\<rparr>)) = Mixed"
  using setPersistence_classifies [OF _ surjective_pairing, of "slice_add (new_slice 1 (7::nat) Backward NA Unknown) 9" "[7, 8]"
      "\<lparr>pc_volatile = 0, pc_persistent = 0, pc_mixed = 0\<rparr>"]
  by (simp add: slice_add_def new_slice_def)

text \<open>
  Sorting by distance. If no distance is zero, a sort with the comparator of edges has one result: first what precedes
  the node, from the closest to the farthest, then what follows it, from the closest to the farthest.
\<close>

theorem edge_sort_unique:
  assumes "std_sorted edge_less ds ys" and "0 \<notin> set ds"
  shows "ys = rev (sort (filter (\<lambda>d. d < 0) ds)) @ sort (filter (\<lambda>d. d > 0) ds)"
proof -
  have ms: "mset ys = mset ds" and srt: "sorted_wrt (\<lambda>x y. \<not> edge_less y x) ys" using assms(1) by (simp_all add: std_sorted_def)
  have nz: "\<forall>d \<in> set ys. d \<noteq> 0" using assms(2) mset_eq_setD [OF ms] by auto
  have "filter (\<lambda>d. d < 0) ys @ filter (\<lambda>d. d > 0) ys = ys \<and> sorted (rev (filter (\<lambda>d. d < 0) ys)) \<and> sorted (filter (\<lambda>d. d > 0) ys)"
    using srt nz
  proof (induction ys)
    case (Cons y ys)
    then have IH: "filter (\<lambda>d. d < 0) ys @ filter (\<lambda>d. d > 0) ys = ys" "sorted (rev (filter (\<lambda>d. d < 0) ys))"
      "sorted (filter (\<lambda>d. d > 0) ys)" and y: "y \<noteq> 0" and le: "\<forall>x \<in> set ys. \<not> edge_less x y \<and> x \<noteq> 0"
      by auto
    show ?case
    proof (cases "y < 0")
      case True
      then have "\<forall>x \<in> set (filter (\<lambda>d. d < 0) ys). x \<le> y" using le by (auto simp: edge_less_def)
      then show ?thesis using True IH by (auto simp: sorted_append)
    next
      case False
      then have "filter (\<lambda>d. d < 0) ys = []" "\<forall>x \<in> set ys. y \<le> x" using le y by (force simp: edge_less_def filter_empty_conv split: if_splits)+
      then show ?thesis using False y IH by auto
    qed
  qed simp
  moreover have "mset (filter P ys) = mset (filter P ds)" for P using ms by (simp add: mset_filter)
  ultimately show ?thesis by (metis mset_rev properties_for_sort rev_rev_ident)
qed

theorem edge_sort_unique_witness:
  "std_sorted edge_less [2, - 3, 1, - 1] [- 1, - 3, 1, 2] \<and> rev (sort (filter (\<lambda>d. d < 0) [2, - 3, 1, - 1])) @ sort (filter (\<lambda>d. d > 0) [2, - 3, 1, - 1]) = [- 1, - 3, 1, 2 :: int]"
proof -
  have s: "std_sorted edge_less [2, - 3, 1, - 1] [- 1, - 3, 1, 2]" by (simp add: std_sorted_def edge_less_def)
  from edge_sort_unique [OF this] s show ?thesis by simp
qed

text \<open>
  With a distance of zero the comparators are no strict weak order: zero is neither less nor greater than -1 and -2,
  but -1 is less than -2, so \<open>std::sort\<close> guarantees nothing; the order given in the comments, with zero first, is not
  what they define.
\<close>

theorem comparator_not_weak_order:
  "\<not> edge_less 0 (- 1) \<and> \<not> edge_less (- 1) 0 \<and> \<not> edge_less 0 (- 2) \<and> \<not> edge_less (- 2) 0 \<and> edge_less (- 1) (- 2) \<and>
   (slice_value_less x y \<longleftrightarrow> edge_less (snd x) (snd y))"
  by (simp add: edge_less_def slice_value_less_def)

end
