(* ===== verification/SliceGraphs.thy ===== *)
theory SliceGraphs
  imports Slices
begin

text \<open>
  The slice graph (\<open>analyzer/include/Slicing/SliceGraph.h\<close>, \<open>analyzer/lib/Slicing/SliceGraph.cpp\<close>): its nodes and edges, the operations
  that build and change it, and the distances of edges. Nodes live on a heap from pointers to nodes, so that using
  a deleted node is \<^term>\<open>None\<close>; an edge is stored in the list of its source node, with an identity that the list of all edges
  of the graph refers to. The lemmas show that the building operations keep the graph well-formed, what
  the distances are, and where removing and merging break the graph.
\<close>

section \<open>Data\<close>

record slice_edge =
  se_id :: nat
  se_target :: nat
  se_kind :: slice_dependence
  se_distance :: int

record 'v slice_node =
  nd_value :: 'v
  nd_depth :: nat
  nd_multi :: bool
  nd_values :: "'v list"
  nd_edges :: "slice_edge list"

record 'v slice_graph =
  sg_nodes :: "nat list"
  sg_edges :: "nat list"
  sg_root :: nat
  sg_direction :: slice_direction
  sg_node_map :: "'v \<Rightarrow> nat option"
  sg_slice_id :: nat
  sg_heap :: "nat \<Rightarrow> 'v slice_node option"
  sg_fresh :: nat

definition new_node :: "'v \<Rightarrow> 'v slice_node" where
  "new_node val = \<lparr>nd_value = val, nd_depth = 0, nd_multi = False, nd_values = [val], nd_edges = []\<rparr>"

definition set_node :: "'v slice_graph \<Rightarrow> nat \<Rightarrow> 'v slice_node \<Rightarrow> 'v slice_graph" where
  "set_node g n nd = g\<lparr>sg_heap := (sg_heap g)(n \<mapsto> nd)\<rparr>"

section \<open>Nodes\<close>

definition findEdgesTo :: "'v slice_node \<Rightarrow> nat \<Rightarrow> slice_edge list \<Rightarrow> bool \<times> slice_edge list" where
  "findEdgesTo nd node el = (let el' = el @ filter (\<lambda>e. se_target e = node) (nd_edges nd) in (el' \<noteq> [], el'))"

definition hasEdgeTo :: "'v slice_node \<Rightarrow> nat \<Rightarrow> bool" where
  "hasEdgeTo nd node \<longleftrightarrow> list_ex (\<lambda>e. se_target e = node) (nd_edges nd)"

text \<open>Position of an edge in a list of identities; the position is the length when it is missing.\<close>

definition edge_pos :: "nat list \<Rightarrow> nat \<Rightarrow> nat" where
  "edge_pos es i = length (takeWhile (\<lambda>e. e \<noteq> i) es)"

definition erase :: "nat \<Rightarrow> 'x list \<Rightarrow> 'x list" where
  "erase i xs = take i xs @ drop (Suc i) xs"

definition node_removeEdge :: "'v slice_node \<Rightarrow> nat \<Rightarrow> bool \<times> 'v slice_node" where
  "node_removeEdge nd edge = (let it = edge_pos (map se_id (nd_edges nd)) edge in
     if it \<noteq> length (nd_edges nd) then (True, nd\<lparr>nd_edges := erase it (nd_edges nd)\<rparr>) else (False, nd))"

section \<open>The graph\<close>

definition addNode :: "'v slice_graph \<Rightarrow> nat \<Rightarrow> (bool \<times> 'v slice_graph) option" where
  "addNode g node = (if node \<in> set (sg_nodes g) then Some (False, g)
     else do {
       nd \<leftarrow> sg_heap g node;
       Some (True, g\<lparr>sg_nodes := sg_nodes g @ [node],
         sg_node_map := (if sg_node_map g (nd_value nd) = None then (sg_node_map g)(nd_value nd \<mapsto> node) else sg_node_map g)\<rparr>)
     })"

definition alloc_node :: "'v slice_graph \<Rightarrow> 'v \<Rightarrow> nat \<times> 'v slice_graph" where
  "alloc_node g val = (sg_fresh g, (set_node g (sg_fresh g) (new_node val))\<lparr>sg_fresh := sg_fresh g + 1\<rparr>)"

text \<open>The constructor, given the root node on the heap of an empty graph.\<close>

definition new_graph :: "'v \<Rightarrow> slice_direction \<Rightarrow> nat \<Rightarrow> 'v slice_graph" where
  "new_graph root_val dir slice_id = (let
     g = \<lparr>sg_nodes = [], sg_edges = [], sg_root = 0, sg_direction = dir, sg_node_map = Map.empty, sg_slice_id = slice_id,
       sg_heap = Map.empty, sg_fresh = 0\<rparr>;
     (root, g') = alloc_node g root_val
   in snd (the (addNode (g'\<lparr>sg_root := root\<rparr>) root)))"

definition getOrCreateNode :: "'v slice_graph \<Rightarrow> 'v \<Rightarrow> nat \<times> 'v slice_graph" where
  "getOrCreateNode g val = (case sg_node_map g val of
      Some node \<Rightarrow> (node, g)
    | None \<Rightarrow> (let (node, g') = alloc_node g val
        in (node, g'\<lparr>sg_node_map := (sg_node_map g')(val \<mapsto> node), sg_nodes := sg_nodes g' @ [node]\<rparr>)))"

definition connect :: "'v slice_graph \<Rightarrow> nat \<Rightarrow> nat \<Rightarrow> slice_dependence \<Rightarrow> (bool \<times> 'v slice_graph) option" where
  "connect g node1 node2 kind = (if node1 = node2 then Some (False, g)
     else do {
       nd1 \<leftarrow> sg_heap g node1;
       nd2 \<leftarrow> sg_heap g node2;
       if nd_value nd1 = nd_value nd2 then Some (False, g)
       else if \<not> hasEdgeTo nd1 node2 then
         let edge = \<lparr>se_id = sg_fresh g, se_target = node2, se_kind = kind, se_distance = 0\<rparr>
         in Some (True, (set_node g node1 (nd1\<lparr>nd_edges := nd_edges nd1 @ [edge]\<rparr>))
              \<lparr>sg_edges := sg_edges g @ [se_id edge], sg_fresh := sg_fresh g + 1\<rparr>)
       else Some (False, g)
     })"

definition graph_removeEdge :: "'v slice_graph \<Rightarrow> nat \<Rightarrow> bool \<times> 'v slice_graph" where
  "graph_removeEdge g edge = (let it = edge_pos (sg_edges g) edge in
     if it \<noteq> length (sg_edges g) then (True, g\<lparr>sg_edges := erase it (sg_edges g)\<rparr>) else (False, g))"

text \<open>
  Removing a node removes the edges to it and deletes its own; the list of all edges and the map from values to nodes keep what they
  have. The caller deletes the node. \<open>dead\<close> are edges that are deleted but still listed; reading one is undefined.
\<close>

definition removeNode :: "nat list \<Rightarrow> 'v slice_graph \<Rightarrow> nat \<Rightarrow> (bool \<times> 'v slice_graph) option" where
  "removeNode dead g node = (let ni = edge_pos (sg_nodes g) node in
     if ni = length (sg_nodes g) then Some (False, g)
     else do {
       g1 \<leftarrow> ofold (\<lambda>n g. if n = node then Some g else do {
           nd \<leftarrow> sg_heap g n;
           if list_ex (\<lambda>e. se_id e \<in> set dead) (nd_edges nd) then None
           else Some (set_node g n (nd\<lparr>nd_edges := filter (\<lambda>e. se_target e \<noteq> node) (nd_edges nd)\<rparr>))
         }) (sg_nodes g) g;
       nd \<leftarrow> sg_heap g1 node;
       Some (True, (set_node g1 node (nd\<lparr>nd_edges := []\<rparr>))\<lparr>sg_nodes := erase ni (sg_nodes g1)\<rparr>)
     })"

text \<open>
  \<open>disconnect\<close>: the iterator \<open>it\<close> is used after the edge it pointed to has been erased. The erased list has moved down, so it
  denotes the next edge; after the last one it is beyond the list. That edge is then looked up and deleted: the
  result names the edge that is deleted.
\<close>

definition disconnect :: "'v slice_graph \<Rightarrow> nat \<Rightarrow> nat \<Rightarrow> (bool \<times> nat option \<times> 'v slice_graph) option" where
  "disconnect g node1 node2 = do {
     nd1 \<leftarrow> sg_heap g node1;
     let it = length (takeWhile (\<lambda>e. se_target e \<noteq> node2) (nd_edges nd1));
     if it \<noteq> length (nd_edges nd1) then
       let es = erase it (nd_edges nd1); g1 = set_node g node1 (nd1\<lparr>nd_edges := es\<rparr>)
       in if it < length es then Some (True, Some (se_id (es ! it)), snd (graph_removeEdge g1 (se_id (es ! it))))
          else None
     else Some (False, None, g)
   }"

text \<open>
  \<open>mergeNodes\<close>: \<open>edgeToFold\<close> is a reference to the last slot of \<open>A\<close>'s list, which the calls of \<open>connect\<close> extend. After the first
  \<open>removeEdge\<close> the slot holds the next edge, if there is one, and this edge is removed from the graph and deleted. The
  result names the edge that is deleted; a push that moved the list to new memory would make the reference dangle.
\<close>

definition mergeNodes :: "'v slice_graph \<Rightarrow> nat \<Rightarrow> nat \<Rightarrow> (nat option \<times> 'v slice_graph) option" where
  "mergeNodes g a b = do {
     nda \<leftarrow> sg_heap g a;
     if nd_edges nda = [] then None
     else if se_target (last (nd_edges nda)) \<noteq> b then Some (None, g)
     else do {
       let slot = length (nd_edges nda) - 1;
       ndb \<leftarrow> sg_heap g b;
       let g1 = set_node g a (nda\<lparr>nd_multi := True, nd_values := nd_values nda @ nd_values ndb\<rparr>);
       g2 \<leftarrow> ofold (\<lambda>e g. map_option snd (connect g a (se_target e) (se_kind e))) (nd_edges ndb) g1;
       nda2 \<leftarrow> sg_heap g2 a;
       let nda3 = snd (node_removeEdge nda2 (se_id (nd_edges nda2 ! slot)));
       if slot < length (nd_edges nda3) then do {
         let victim = se_id (nd_edges nda3 ! slot);
         (_, g4) \<leftarrow> removeNode [victim] (snd (graph_removeEdge (set_node g2 a nda3) victim)) b;
         Some (Some victim, g4\<lparr>sg_heap := (sg_heap g4)(b := None)\<rparr>)
       } else None
     }
   }"

section \<open>Distances\<close>

text \<open>
  Positions are \<open>uint64_t\<close>, counted from one within the function; their difference is stored as \<open>int64_t\<close>. The functions of the values and
  their instructions are parameters.
\<close>

definition to_int64 :: "int \<Rightarrow> int" where
  "to_int64 x = (x + 2 ^ 63) mod 2 ^ 64 - 2 ^ 63"

definition inst_position :: "('v \<Rightarrow> 'f) \<Rightarrow> ('f \<Rightarrow> 'v list) \<Rightarrow> 'v \<Rightarrow> int option" where
  "inst_position func_of insts v = (let t = takeWhile (\<lambda>x. x \<noteq> v) (insts (func_of v)) in
     if length t < length (insts (func_of v)) then Some (int (length t) + 1) else None)"

text \<open>
  The edges of one node: \<open>refs\<close> is \<open>refPosMap\<close> and \<open>k\<close> is \<open>external_funcs\<close>. The result is the edges with their distances,
  and false if a position is missing; the edges from there on keep theirs.
\<close>

fun edge_distances ::
    "('v \<Rightarrow> 'f) \<Rightarrow> ('f \<Rightarrow> 'v list) \<Rightarrow> (nat \<Rightarrow> 'v slice_node option) \<Rightarrow> slice_direction \<Rightarrow> ('f \<times> int) list \<Rightarrow> int \<Rightarrow>
     slice_edge list \<Rightarrow> (bool \<times> slice_edge list) option" where
  "edge_distances func_of insts hp dir refs k [] = Some (True, [])"
| "edge_distances func_of insts hp dir refs k (e # es) = do {
     target \<leftarrow> hp (se_target e);
     let target_func = func_of (nd_value target);
     case inst_position func_of insts (nd_value target) of None \<Rightarrow> Some (False, e # es)
     | Some pos \<Rightarrow>
       (let new_ref = (if dir = Backward then 100000 * k else 0);
          k' = (if map_of refs target_func = None \<and> dir = Backward then k + 1 else k);
          refs' = (if map_of refs target_func = None then (target_func, new_ref) # refs else refs);
          ref_position = (case map_of refs target_func of None \<Rightarrow> new_ref | Some r \<Rightarrow> r)
        in map_option (\<lambda>(ok, es'). (ok, e\<lparr>se_distance := to_int64 (pos - ref_position)\<rparr> # es'))
             (edge_distances func_of insts hp dir refs' k' es))
   }"

fun node_distances ::
    "('v \<Rightarrow> 'f) \<Rightarrow> ('f \<Rightarrow> 'v list) \<Rightarrow> nat list \<Rightarrow> 'v slice_graph \<Rightarrow> (bool \<times> 'v slice_graph) option" where
  "node_distances func_of insts [] g = Some (True, g)"
| "node_distances func_of insts (n # ns) g = do {
     nd \<leftarrow> sg_heap g n;
     case inst_position func_of insts (nd_value nd) of None \<Rightarrow> Some (False, g)
     | Some pos \<Rightarrow> do {
         (ok, es) \<leftarrow> edge_distances func_of insts (sg_heap g) (sg_direction g) [(func_of (nd_value nd), pos)] 1 (nd_edges nd);
         let g' = set_node g n (nd\<lparr>nd_edges := es\<rparr>);
         if ok then node_distances func_of insts ns g' else Some (False, g')
       }
   }"

definition computeDistances :: "('v \<Rightarrow> 'f) \<Rightarrow> ('f \<Rightarrow> 'v list) \<Rightarrow> 'v slice_graph \<Rightarrow> (bool \<times> 'v slice_graph) option" where
  "computeDistances func_of insts g = node_distances func_of insts (sg_nodes g) g"

text \<open>
  \<open>sort\<close> as a relation, since \<open>std::sort\<close> leaves the order of equivalent edges open: after the distances, the edges of
  every node are permuted into an order of the comparator.
\<close>

definition sorted_nodes :: "'v slice_graph \<Rightarrow> 'v slice_graph \<Rightarrow> bool" where
  "sorted_nodes g g' \<longleftrightarrow> (\<exists>h. g' = g\<lparr>sg_heap := h\<rparr> \<and>
     (\<forall>n. if n \<in> set (sg_nodes g)
        then (\<exists>nd es. sg_heap g n = Some nd \<and> std_sorted (\<lambda>e1 e2. edge_less (se_distance e1) (se_distance e2)) (nd_edges nd) es \<and>
          h n = Some (nd\<lparr>nd_edges := es\<rparr>))
        else h n = sg_heap g n))"

definition graph_sort :: "('v \<Rightarrow> 'f) \<Rightarrow> ('f \<Rightarrow> 'v list) \<Rightarrow> 'v slice_graph \<Rightarrow> bool \<Rightarrow> 'v slice_graph \<Rightarrow> bool" where
  "graph_sort func_of insts g ok g' \<longleftrightarrow>
     (\<exists>g1. computeDistances func_of insts g = Some (ok, g1) \<and> (if ok then sorted_nodes g1 g' else g' = g1))"

section \<open>Well-formed graphs\<close>

definition edge_ids :: "'v slice_graph \<Rightarrow> nat \<Rightarrow> nat list" where
  "edge_ids g n = (case sg_heap g n of None \<Rightarrow> [] | Some nd \<Rightarrow> map se_id (nd_edges nd))"

definition node_wf :: "'v slice_graph \<Rightarrow> nat \<Rightarrow> bool" where
  "node_wf g n \<longleftrightarrow> (\<exists>nd. sg_heap g n = Some nd \<and> sg_node_map g (nd_value nd) = Some n \<and>
     distinct (map se_target (nd_edges nd)) \<and> n < sg_fresh g \<and>
     (\<forall>e \<in> set (nd_edges nd). se_target e \<in> set (sg_nodes g) \<and> se_target e \<noteq> n \<and> se_id e < sg_fresh g))"

text \<open>
  Nodes and values correspond, every edge leads to another node of the graph, there is at most one edge between two nodes, and the
  list of all edges holds each edge once.
\<close>

definition graph_wf :: "'v slice_graph \<Rightarrow> bool" where
  "graph_wf g \<longleftrightarrow> distinct (sg_nodes g) \<and> sg_root g \<in> set (sg_nodes g) \<and> (\<forall>n \<in> set (sg_nodes g). node_wf g n) \<and>
     (\<forall>v n. sg_node_map g v = Some n \<longrightarrow> n \<in> set (sg_nodes g) \<and> (\<exists>nd. sg_heap g n = Some nd \<and> nd_value nd = v)) \<and>
     (\<forall>n. sg_fresh g \<le> n \<longrightarrow> sg_heap g n = None) \<and>
     mset (sg_edges g) = mset (concat (map (edge_ids g) (sg_nodes g))) \<and> distinct (sg_edges g)"

lemma graph_wfD:
  assumes "graph_wf g"
  shows "distinct (sg_nodes g)" "sg_root g \<in> set (sg_nodes g)"
    and "n \<in> set (sg_nodes g) \<Longrightarrow> node_wf g n"
    and "sg_node_map g v = Some n \<Longrightarrow> n \<in> set (sg_nodes g) \<and> (\<exists>nd. sg_heap g n = Some nd \<and> nd_value nd = v)"
    and "sg_fresh g \<le> n \<Longrightarrow> sg_heap g n = None"
    and "mset (sg_edges g) = mset (concat (map (edge_ids g) (sg_nodes g)))" "distinct (sg_edges g)"
  using assms unfolding graph_wf_def by blast+

lemma edge_ids_cong: "sg_heap g n = sg_heap g' n \<Longrightarrow> edge_ids g n = edge_ids g' n"
  by (simp add: edge_ids_def)

lemma graph_edge_fresh:
  assumes "graph_wf g" and "i \<in> set (sg_edges g)"
  shows "i < sg_fresh g"
proof -
  have "i \<in> set (concat (map (edge_ids g) (sg_nodes g)))" using graph_wfD(6) [OF assms(1)] assms(2) by (metis set_mset_mset)
  then obtain n where "n \<in> set (sg_nodes g)" "i \<in> set (edge_ids g n)" by auto
  then show ?thesis using graph_wfD(3) [OF assms(1)] by (fastforce simp: node_wf_def edge_ids_def)
qed

lemma new_graph_wf:
  "graph_wf (new_graph v dir i)" "sg_nodes (new_graph v dir i) = [0]" "sg_root (new_graph v dir i) = 0"
  "sg_heap (new_graph v dir i) 0 = Some (new_node v)" "sg_direction (new_graph v dir i) = dir"
  by (auto simp: new_graph_def alloc_node_def addNode_def set_node_def graph_wf_def node_wf_def edge_ids_def new_node_def Let_def
      split: if_splits)

lemma getOrCreateNode_wf:
  assumes wf: "graph_wf g" and r: "getOrCreateNode g v = (n, g')"
  shows "graph_wf g'" and "sg_node_map g' v = Some n" and "n \<in> set (sg_nodes g')"
    and "g' = (if n \<in> set (sg_nodes g) then g else g\<lparr>sg_nodes := sg_nodes g @ [n], sg_heap := (sg_heap g)(n \<mapsto> new_node v),
      sg_node_map := (sg_node_map g)(v \<mapsto> n), sg_fresh := sg_fresh g + 1\<rparr>)"
proof -
  have "graph_wf g' \<and> sg_node_map g' v = Some n \<and> n \<in> set (sg_nodes g') \<and>
    g' = (if n \<in> set (sg_nodes g) then g else g\<lparr>sg_nodes := sg_nodes g @ [n], sg_heap := (sg_heap g)(n \<mapsto> new_node v),
      sg_node_map := (sg_node_map g)(v \<mapsto> n), sg_fresh := sg_fresh g + 1\<rparr>)"
  proof (cases "sg_node_map g v")
    case (Some m)
    then show ?thesis using wf r graph_wfD(4) [OF wf Some] by (auto simp: getOrCreateNode_def)
  next
    case None
    let ?n = "sg_fresh g"
    let ?g = "g\<lparr>sg_nodes := sg_nodes g @ [?n], sg_heap := (sg_heap g)(?n \<mapsto> new_node v),
      sg_node_map := (sg_node_map g)(v \<mapsto> ?n), sg_fresh := sg_fresh g + 1\<rparr>"
    have n: "n = ?n" "g' = ?g" using r None by (auto simp: getOrCreateNode_def alloc_node_def set_node_def)
    have notin: "?n \<notin> set (sg_nodes g)" using graph_wfD(3) [OF wf] by (auto simp: node_wf_def)
    have "node_wf ?g m" if m: "m \<in> set (sg_nodes g)" for m
    proof -
      have "m \<noteq> ?n" using m notin by auto
      moreover obtain nd where nd: "sg_heap g m = Some nd" "sg_node_map g (nd_value nd) = Some m"
        "distinct (map se_target (nd_edges nd))" "m < sg_fresh g"
        "\<forall>e \<in> set (nd_edges nd). se_target e \<in> set (sg_nodes g) \<and> se_target e \<noteq> m \<and> se_id e < sg_fresh g"
        using graph_wfD(3) [OF wf m] by (auto simp: node_wf_def)
      moreover have "nd_value nd \<noteq> v" using nd(2) None by auto
      ultimately show ?thesis unfolding node_wf_def by (intro exI [of _ nd]) auto
    qed
    moreover have "node_wf ?g ?n" by (simp add: node_wf_def new_node_def)
    moreover have "mset (sg_edges ?g) = mset (concat (map (edge_ids ?g) (sg_nodes ?g)))"
    proof -
      have "map (edge_ids ?g) (sg_nodes g) = map (edge_ids g) (sg_nodes g)"
        using notin by (intro map_cong) (auto simp: edge_ids_def)
      moreover have "edge_ids ?g ?n = []" by (simp add: edge_ids_def new_node_def)
      ultimately show ?thesis using graph_wfD(6) [OF wf] by (simp del: map_eq_conv)
    qed
    moreover have "m \<in> set (sg_nodes ?g) \<and> (\<exists>nd. sg_heap ?g m = Some nd \<and> nd_value nd = u)" if "sg_node_map ?g u = Some m" for u m
      using graph_wfD(4) [OF wf, of u m] that notin by (auto simp: new_node_def split: if_splits)
    moreover have "distinct (sg_nodes ?g)" "sg_root ?g \<in> set (sg_nodes ?g)" "\<forall>m. sg_fresh ?g \<le> m \<longrightarrow> sg_heap ?g m = None"
      "distinct (sg_edges ?g)"
      using wf notin unfolding graph_wf_def by auto
    ultimately have "graph_wf ?g" unfolding graph_wf_def by auto
    then show ?thesis using n notin by simp
  qed
  then show "graph_wf g'" "sg_node_map g' v = Some n" "n \<in> set (sg_nodes g')"
    "g' = (if n \<in> set (sg_nodes g) then g else g\<lparr>sg_nodes := sg_nodes g @ [n], sg_heap := (sg_heap g)(n \<mapsto> new_node v),
      sg_node_map := (sg_node_map g)(v \<mapsto> n), sg_fresh := sg_fresh g + 1\<rparr>)" by blast+
qed

definition add_edge :: "'v slice_graph \<Rightarrow> nat \<Rightarrow> 'v slice_node \<Rightarrow> nat \<Rightarrow> slice_dependence \<Rightarrow> 'v slice_graph" where
  "add_edge g n1 nd1 n2 k = g\<lparr>
     sg_heap := (sg_heap g)(n1 \<mapsto> nd1\<lparr>nd_edges := nd_edges nd1 @ [\<lparr>se_id = sg_fresh g, se_target = n2, se_kind = k, se_distance = 0\<rparr>]\<rparr>),
     sg_edges := sg_edges g @ [sg_fresh g], sg_fresh := sg_fresh g + 1\<rparr>"

lemma mset_concat_update:
  assumes "distinct ns" and "n \<in> set ns" and "f' n = f n @ [x]" and "\<And>m. m \<noteq> n \<Longrightarrow> f' m = f m"
  shows "mset (concat (map f' ns)) = mset (concat (map f ns)) + {#x#}"
  using assms(1,2)
proof (induction ns)
  case (Cons m ns)
  show ?case
  proof (cases "m = n")
    case True
    then have "map f' ns = map f ns" using Cons.prems(1) by (intro map_cong refl assms(4)) auto
    then show ?thesis using True assms(3) by (simp del: map_eq_conv)
  next
    case False
    then show ?thesis using Cons assms(4) by simp
  qed
qed simp

lemma add_edge_wf:
  assumes wf: "graph_wf g" and n1: "n1 \<in> set (sg_nodes g)" and n2: "n2 \<in> set (sg_nodes g)"
    and nd1: "sg_heap g n1 = Some nd1" and ne: "n1 \<noteq> n2" and nt: "\<not> hasEdgeTo nd1 n2"
  shows "graph_wf (add_edge g n1 nd1 n2 k)"
proof -
  let ?g = "add_edge g n1 nd1 n2 k"
  have fr: "sg_fresh g \<notin> set (sg_edges g)" using graph_edge_fresh [OF wf] by blast
  have "node_wf ?g m" if m: "m \<in> set (sg_nodes g)" for m
  proof -
    obtain nd where nd: "sg_heap g m = Some nd" "sg_node_map g (nd_value nd) = Some m"
      "distinct (map se_target (nd_edges nd))" "m < sg_fresh g"
      "\<forall>e \<in> set (nd_edges nd). se_target e \<in> set (sg_nodes g) \<and> se_target e \<noteq> m \<and> se_id e < sg_fresh g"
      using graph_wfD(3) [OF wf m] by (auto simp: node_wf_def)
    show ?thesis
    proof (cases "m = n1")
      case True
      then have "nd = nd1" using nd(1) nd1 by simp
      then show ?thesis using True nd n2 ne nt by (auto simp: node_wf_def add_edge_def hasEdgeTo_def list_ex_iff)
    next
      case False
      then show ?thesis using nd unfolding node_wf_def by (intro exI [of _ nd]) (auto simp: add_edge_def)
    qed
  qed
  moreover have "mset (concat (map (edge_ids ?g) (sg_nodes g))) = mset (concat (map (edge_ids g) (sg_nodes g))) + {#sg_fresh g#}"
    by (rule mset_concat_update [OF graph_wfD(1) [OF wf] n1]) (auto simp: edge_ids_def add_edge_def nd1)
  moreover have "n1 < sg_fresh g" using graph_wfD(3) [OF wf n1] by (auto simp: node_wf_def)
  moreover have "\<exists>nd. sg_heap ?g m = Some nd \<and> nd_value nd = v" if "sg_node_map g v = Some m" for v m
    using graph_wfD(4) [OF wf that] nd1 by (auto simp: add_edge_def)
  ultimately show ?thesis
    using wf fr unfolding graph_wf_def by (auto simp: add_edge_def)
qed

lemma connect_eq:
  assumes wf: "graph_wf g" and n1: "n1 \<in> set (sg_nodes g)" and n2: "n2 \<in> set (sg_nodes g)"
    and nd1: "sg_heap g n1 = Some nd1"
  shows "connect g n1 n2 k = Some (if n1 = n2 \<or> hasEdgeTo nd1 n2 then (False, g) else (True, add_edge g n1 nd1 n2 k))"
proof (cases "n1 = n2")
  case False
  obtain nd2 where nd2: "sg_heap g n2 = Some nd2" "sg_node_map g (nd_value nd2) = Some n2"
    using graph_wfD(3) [OF wf n2] by (auto simp: node_wf_def)
  have "sg_node_map g (nd_value nd1) = Some n1" using graph_wfD(3) [OF wf n1] nd1 by (auto simp: node_wf_def)
  then have "nd_value nd1 \<noteq> nd_value nd2" using nd2(2) False by auto
  then show ?thesis using False nd1 nd2(1) by (simp add: connect_def add_edge_def set_node_def Let_def)
qed (simp add: connect_def)

lemma connect_wf:
  assumes wf: "graph_wf g" and n1: "n1 \<in> set (sg_nodes g)" and n2: "n2 \<in> set (sg_nodes g)"
  shows "\<exists>b g'. connect g n1 n2 k = Some (b, g') \<and> graph_wf g' \<and> sg_nodes g' = sg_nodes g \<and> sg_node_map g' = sg_node_map g"
proof -
  obtain nd1 where nd1: "sg_heap g n1 = Some nd1" using graph_wfD(3) [OF wf n1] by (auto simp: node_wf_def)
  show ?thesis using connect_eq [OF wf n1 n2 nd1] add_edge_wf [OF wf n1 n2 nd1] wf by (auto simp: add_edge_def)
qed

section \<open>Lemmas on distances\<close>

lemma to_int64_id: "- (2 ^ 63) \<le> x \<Longrightarrow> x < 2 ^ 63 \<Longrightarrow> to_int64 x = x"
  by (simp add: to_int64_def)

lemma inst_position_Some:
  assumes "inst_position func_of insts v = Some p"
  shows "1 \<le> p" "p \<le> int (length (insts (func_of v)))" "insts (func_of v) ! nat (p - 1) = v"
proof -
  let ?t = "takeWhile (\<lambda>x. x \<noteq> v) (insts (func_of v))"
  have *: "length ?t < length (insts (func_of v))" "p = int (length ?t) + 1"
    using assms by (auto simp: inst_position_def Let_def split: if_splits)
  then show "1 \<le> p" "p \<le> int (length (insts (func_of v)))" by auto
  show "insts (func_of v) ! nat (p - 1) = v" using nth_length_takeWhile [OF *(1)] *(2) by simp
qed

lemma length_takeWhile_member: "v \<in> set xs \<Longrightarrow> length (takeWhile (\<lambda>x. x \<noteq> v) xs) < length xs"
  by (induction xs) auto

lemma inst_position_exists: "v \<in> set (insts (func_of v)) \<Longrightarrow> \<exists>p. inst_position func_of insts v = Some p"
  by (simp add: inst_position_def Let_def length_takeWhile_member)

text \<open>
  What an edge from a node of value \<open>v\<close> at position \<open>p0\<close> gets: the difference of the positions within the function, and otherwise
  the position less a multiple of 100000 (backward) or the position itself.
\<close>

definition dist_ok :: "('v \<Rightarrow> 'f) \<Rightarrow> ('f \<Rightarrow> 'v list) \<Rightarrow> slice_direction \<Rightarrow> 'v \<Rightarrow> 'v \<Rightarrow> int \<Rightarrow> bool" where
  "dist_ok func_of insts dir v w d \<longleftrightarrow> (\<exists>p q. inst_position func_of insts v = Some p \<and> inst_position func_of insts w = Some q \<and>
     (if func_of w = func_of v then d = q - p
      else if dir = Backward then (\<exists>j \<ge> 1. d = q - 100000 * j) else d = q))"

lemma dist_ok_sign:
  assumes "dist_ok func_of insts dir v w d" and "v \<noteq> w" and "length (insts (func_of w)) < 100000"
  shows "d \<noteq> 0" and "func_of w \<noteq> func_of v \<Longrightarrow> d < 0 \<longleftrightarrow> dir = Backward"
proof -
  obtain p q where pq: "inst_position func_of insts v = Some p" "inst_position func_of insts w = Some q"
    "if func_of w = func_of v then d = q - p else if dir = Backward then (\<exists>j \<ge> 1. d = q - 100000 * j) else d = q"
    using assms(1) by (auto simp: dist_ok_def)
  note p = inst_position_Some [OF pq(1)] and q = inst_position_Some [OF pq(2)]
  have "q < 100000" using q(2) assms(3) by linarith
  show "func_of w \<noteq> func_of v \<Longrightarrow> d < 0 \<longleftrightarrow> dir = Backward" using pq(3) q(1) \<open>q < 100000\<close> by (auto split: if_splits)
  show "d \<noteq> 0"
  proof (cases "func_of w = func_of v")
    case True
    then have "p \<noteq> q" using p(3) q(3) assms(2) by auto
    then show ?thesis using True pq(3) by simp
  next
    case False
    then show ?thesis using pq(3) q(1) \<open>q < 100000\<close> by (auto split: if_splits)
  qed
qed

lemma edge_distances_ok:
  assumes "\<forall>e \<in> set es. \<exists>nd. hp (se_target e) = Some nd \<and> nd_value nd \<in> set (insts (func_of (nd_value nd))) \<and>
      length (insts (func_of (nd_value nd))) < 100000"
    and p: "inst_position func_of insts v = Some p" "p < 100000"
    and "map_of refs (func_of v) = Some p" and "1 \<le> k" and "k + int (length es) < 2 ^ 41"
    and "\<And>f r. f \<noteq> func_of v \<Longrightarrow> map_of refs f = Some r \<Longrightarrow> if dir = Backward then (\<exists>j \<ge> 1. r = 100000 * j \<and> j < k) else r = 0"
  shows "\<exists>es'. edge_distances func_of insts hp dir refs k es = Some (True, es') \<and>
    list_all2 (\<lambda>e e'. se_id e' = se_id e \<and> se_target e' = se_target e \<and> se_kind e' = se_kind e \<and>
      dist_ok func_of insts dir v (nd_value (the (hp (se_target e)))) (se_distance e')) es es'"
  using assms(1,4-7)
proof (induction es arbitrary: refs k)
  case (Cons e es)
  obtain nd where nd: "hp (se_target e) = Some nd" "nd_value nd \<in> set (insts (func_of (nd_value nd)))"
    "length (insts (func_of (nd_value nd))) < 100000" using Cons.prems(1) by auto
  obtain q where q: "inst_position func_of insts (nd_value nd) = Some q" using inst_position_exists [of "nd_value nd" insts func_of] nd(2) by blast
  have qb: "1 \<le> q" "q < 100000" using inst_position_Some(1,2) [OF q] nd(3) by auto
  have pb: "1 \<le> p" by (rule inst_position_Some(1) [OF p(1)])
  let ?f = "func_of (nd_value nd)"
  let ?new = "if dir = Backward then 100000 * k else 0"
  let ?k = "if map_of refs ?f = None \<and> dir = Backward then k + 1 else k"
  let ?refs = "if map_of refs ?f = None then (?f, ?new) # refs else refs"
  let ?ref = "case map_of refs ?f of None \<Rightarrow> ?new | Some r \<Rightarrow> r"
  have kb: "1 \<le> k" "k < 2 ^ 41" using Cons.prems(3,4) by auto
  have same: "?ref = p" if "?f = func_of v" using Cons.prems(2) that by simp
  have ext: "if dir = Backward then \<exists>j \<ge> 1. ?ref = 100000 * j \<and> j \<le> k else ?ref = 0" if "?f \<noteq> func_of v"
  proof (cases "map_of refs ?f")
    case None
    then show ?thesis using kb(1) by auto
  next
    case (Some r)
    then show ?thesis using Cons.prems(5) [OF that Some] by (auto split: if_splits)
  qed
  have rb: "0 \<le> ?ref" "?ref \<le> 100000 * 2 ^ 41"
  proof -
    have "0 \<le> ?ref \<and> ?ref \<le> 100000 * 2 ^ 41"
    proof (cases "?f = func_of v")
      case True
      then show ?thesis using same p(2) pb by simp
    next
      case False
      show ?thesis
      proof (cases "dir = Backward")
        case True
        then obtain j where "?ref = 100000 * j" "1 \<le> j" "j \<le> k" using ext [OF False] by auto
        then show ?thesis using kb(2) by linarith
      next
        case nb: False
        then have "?ref = 0" using ext [OF False] by auto
        then show ?thesis unfolding \<open>?ref = 0\<close> by simp
      qed
    qed
    then show "0 \<le> ?ref" "?ref \<le> 100000 * 2 ^ 41" by blast+
  qed
  have "to_int64 (q - ?ref) = q - ?ref" using rb qb by (intro to_int64_id) simp_all
  then have d: "dist_ok func_of insts dir v (nd_value nd) (to_int64 (q - ?ref))"
    unfolding dist_ok_def using p(1) q same ext by (intro exI [of _ p] exI [of _ q]) (auto split: if_splits)
  have "\<exists>es'. edge_distances func_of insts hp dir ?refs ?k es = Some (True, es') \<and>
    list_all2 (\<lambda>e e'. se_id e' = se_id e \<and> se_target e' = se_target e \<and> se_kind e' = se_kind e \<and>
      dist_ok func_of insts dir v (nd_value (the (hp (se_target e)))) (se_distance e')) es es'"
  proof (rule Cons.IH)
    show "map_of ?refs (func_of v) = Some p" using Cons.prems(2) by auto
    show "1 \<le> ?k" "?k + int (length es) < 2 ^ 41" using Cons.prems(3,4) by auto
    fix f r assume "f \<noteq> func_of v" "map_of ?refs f = Some r"
    then show "if dir = Backward then \<exists>j \<ge> 1. r = 100000 * j \<and> j < ?k else r = 0"
      using Cons.prems(5) [of f r] kb(1) by (cases "map_of refs ?f"; cases "f = ?f") (auto intro: less_le_trans split: if_splits)
  qed (use Cons.prems(1) in simp)
  then show ?case using nd(1) q d by (auto simp: Let_def)
qed simp

lemma list_all2_in_set2: "list_all2 P xs ys \<Longrightarrow> y \<in> set ys \<Longrightarrow> \<exists>x \<in> set xs. P x y"
  by (induction rule: list_all2_induct) auto

text \<open>Every position is found, and no function or edge list is larger than the code assumes.\<close>

definition positions_known :: "('v \<Rightarrow> 'f) \<Rightarrow> ('f \<Rightarrow> 'v list) \<Rightarrow> 'v slice_graph \<Rightarrow> bool" where
  "positions_known func_of insts g \<longleftrightarrow> (\<forall>n \<in> set (sg_nodes g). \<forall>nd. sg_heap g n = Some nd \<longrightarrow>
     nd_value nd \<in> set (insts (func_of (nd_value nd))) \<and> length (insts (func_of (nd_value nd))) < 100000 \<and>
     length (nd_edges nd) < 2 ^ 40)"

text \<open>The graph \<open>g'\<close> is \<open>g\<close> with the distances of the nodes in \<open>D\<close> computed.\<close>

definition measured_edges :: "('v \<Rightarrow> 'f) \<Rightarrow> ('f \<Rightarrow> 'v list) \<Rightarrow> 'v slice_graph \<Rightarrow> 'v slice_node \<Rightarrow> slice_edge list \<Rightarrow> bool" where
  "measured_edges func_of insts g nd = list_all2 (\<lambda>e e'. se_id e' = se_id e \<and> se_target e' = se_target e \<and> se_kind e' = se_kind e \<and>
     dist_ok func_of insts (sg_direction g) (nd_value nd) (nd_value (the (sg_heap g (se_target e)))) (se_distance e')) (nd_edges nd)"

definition measured :: "('v \<Rightarrow> 'f) \<Rightarrow> ('f \<Rightarrow> 'v list) \<Rightarrow> 'v slice_graph \<Rightarrow> nat set \<Rightarrow> 'v slice_graph \<Rightarrow> bool" where
  "measured func_of insts g D g' \<longleftrightarrow> g' = g\<lparr>sg_heap := sg_heap g'\<rparr> \<and>
     (\<forall>n. n \<notin> D \<longrightarrow> sg_heap g' n = sg_heap g n) \<and>
     (\<forall>n \<in> D. \<exists>nd es. sg_heap g n = Some nd \<and> sg_heap g' n = Some (nd\<lparr>nd_edges := es\<rparr>) \<and> measured_edges func_of insts g nd es)"

lemma measured_value:
  assumes "measured func_of insts g D g'" and "sg_heap g n = Some nd"
  shows "\<exists>nd'. sg_heap g' n = Some nd' \<and> nd_value nd' = nd_value nd"
proof (cases "n \<in> D")
  case True
  then obtain md es where "sg_heap g n = Some md" "sg_heap g' n = Some (md\<lparr>nd_edges := es\<rparr>)"
    using assms(1) unfolding measured_def by blast
  then show ?thesis using assms(2) by simp
qed (use assms in \<open>auto simp: measured_def\<close>)

lemma node_distances_ok:
  assumes wf: "graph_wf g" and known: "positions_known func_of insts g"
    and "measured func_of insts g D g1" and "set ns \<subseteq> set (sg_nodes g)" and "distinct ns" and "D \<inter> set ns = {}"
  shows "\<exists>g'. node_distances func_of insts ns g1 = Some (True, g') \<and> measured func_of insts g (D \<union> set ns) g'"
  using assms(3-6)
proof (induction ns arbitrary: g1 D)
  case (Cons n ns)
  have n: "n \<in> set (sg_nodes g)" and nD: "n \<notin> D" using Cons.prems by auto
  obtain nd where nd: "sg_heap g n = Some nd"
    "\<forall>e \<in> set (nd_edges nd). se_target e \<in> set (sg_nodes g)"
    using graph_wfD(3) [OF wf n] by (auto simp: node_wf_def)
  have h: "g1 = g\<lparr>sg_heap := sg_heap g1\<rparr>" using Cons.prems(1) by (simp add: measured_def)
  then have dir: "sg_direction g1 = sg_direction g" by (metis slice_graph.select_convs(4) slice_graph.surjective slice_graph.update_convs(7))
  have hn: "sg_heap g1 n = Some nd" using Cons.prems(1) nD nd(1) by (auto simp: measured_def)
  let ?v = "nd_value nd"
  have v: "?v \<in> set (insts (func_of ?v))" "length (insts (func_of ?v)) < 100000" "length (nd_edges nd) < 2 ^ 40"
    using known n nd(1) by (auto simp: positions_known_def)
  obtain p where p: "inst_position func_of insts ?v = Some p" using inst_position_exists [of ?v insts func_of] v(1) by blast
  have pb: "p < 100000" using inst_position_Some(2) [OF p] v(2) by linarith
  have tgt: "\<exists>m. sg_heap g1 (se_target e) = Some m \<and> sg_heap g (se_target e) \<noteq> None \<and>
      nd_value m = nd_value (the (sg_heap g (se_target e))) \<and>
      nd_value m \<in> set (insts (func_of (nd_value m))) \<and> length (insts (func_of (nd_value m))) < 100000"
    if e: "e \<in> set (nd_edges nd)" for e
  proof -
    have t: "se_target e \<in> set (sg_nodes g)" using nd(2) e by blast
    obtain md where md: "sg_heap g (se_target e) = Some md" using graph_wfD(3) [OF wf t] by (auto simp: node_wf_def)
    obtain m where "sg_heap g1 (se_target e) = Some m" "nd_value m = nd_value md"
      using measured_value [OF Cons.prems(1) md] by blast
    then show ?thesis using known t md by (auto simp: positions_known_def)
  qed
  have "\<exists>es'. edge_distances func_of insts (sg_heap g1) (sg_direction g1) [(func_of ?v, p)] 1 (nd_edges nd) = Some (True, es') \<and>
    list_all2 (\<lambda>e e'. se_id e' = se_id e \<and> se_target e' = se_target e \<and> se_kind e' = se_kind e \<and>
      dist_ok func_of insts (sg_direction g1) ?v (nd_value (the (sg_heap g1 (se_target e)))) (se_distance e')) (nd_edges nd) es'"
  proof (rule edge_distances_ok [OF _ p pb])
    show "\<forall>e \<in> set (nd_edges nd). \<exists>m. sg_heap g1 (se_target e) = Some m \<and> nd_value m \<in> set (insts (func_of (nd_value m))) \<and>
      length (insts (func_of (nd_value m))) < 100000" using tgt by blast
    have "int (length (nd_edges nd)) < 2 ^ 40" using v(3) by (metis of_nat_less_iff of_nat_numeral of_nat_power)
    then show "1 + int (length (nd_edges nd)) < 2 ^ 41" by simp
  qed auto
  then obtain es where es: "edge_distances func_of insts (sg_heap g1) (sg_direction g1) [(func_of ?v, p)] 1 (nd_edges nd) = Some (True, es)"
    "list_all2 (\<lambda>e e'. se_id e' = se_id e \<and> se_target e' = se_target e \<and> se_kind e' = se_kind e \<and>
      dist_ok func_of insts (sg_direction g1) ?v (nd_value (the (sg_heap g1 (se_target e)))) (se_distance e')) (nd_edges nd) es"
    by blast
  have es': "measured_edges func_of insts g nd es"
    unfolding measured_edges_def
  proof (rule list.rel_mono_strong [OF es(2)])
    fix e e' assume "e \<in> set (nd_edges nd)" and *: "se_id e' = se_id e \<and> se_target e' = se_target e \<and> se_kind e' = se_kind e \<and>
      dist_ok func_of insts (sg_direction g1) ?v (nd_value (the (sg_heap g1 (se_target e)))) (se_distance e')"
    then show "se_id e' = se_id e \<and> se_target e' = se_target e \<and> se_kind e' = se_kind e \<and>
      dist_ok func_of insts (sg_direction g) ?v (nd_value (the (sg_heap g (se_target e)))) (se_distance e')"
      using tgt [of e] dir by auto
  qed
  let ?g = "set_node g1 n (nd\<lparr>nd_edges := es\<rparr>)"
  have "measured func_of insts g (insert n D) ?g"
    unfolding measured_def
  proof (intro conjI allI impI ballI)
    show "?g = g\<lparr>sg_heap := sg_heap ?g\<rparr>" by (subst h) (simp add: set_node_def)
    show "sg_heap ?g m = sg_heap g m" if "m \<notin> insert n D" for m
      using Cons.prems(1) that by (simp add: measured_def set_node_def)
    show "\<exists>nd' es'. sg_heap g m = Some nd' \<and> sg_heap ?g m = Some (nd'\<lparr>nd_edges := es'\<rparr>) \<and> measured_edges func_of insts g nd' es'"
      if "m \<in> insert n D" for m
    proof (cases "m = n")
      case True
      then show ?thesis using nd(1) es' by (auto simp: set_node_def)
    next
      case False
      then show ?thesis using Cons.prems(1) that by (simp add: measured_def set_node_def)
    qed
  qed
  then obtain g' where "node_distances func_of insts ns ?g = Some (True, g')" "measured func_of insts g (insert n D \<union> set ns) g'"
    using Cons.IH [of "insert n D" ?g] Cons.prems by auto
  then show ?case using hn p es(1) by (auto simp: Let_def)
qed auto

section \<open>Lemmas on removing\<close>

lemma edge_pos_member: "i \<in> set es \<Longrightarrow> edge_pos es i < length es \<and> es ! edge_pos es i = i"
  using length_takeWhile_member [of i es] nth_length_takeWhile [of "\<lambda>e. e \<noteq> i" es] by (simp add: edge_pos_def)

lemma erase_pos: "i \<in> set es \<Longrightarrow> distinct es \<Longrightarrow> erase (edge_pos es i) es = filter (\<lambda>e. e \<noteq> i) es"
  unfolding edge_pos_def erase_def
proof (induction es)
  case (Cons x es)
  show ?case
  proof (cases "x = i")
    case True
    then have "i \<notin> set es" using Cons.prems by simp
    then have "filter (\<lambda>e. e \<noteq> i) es = es" by (induction es) auto
    then show ?thesis using True by simp
  qed (use Cons in auto)
qed simp

lemma ofold_None:
  assumes "a \<in> set xs" and "P s" and "\<And>s. P s \<Longrightarrow> f a s = None"
    and "\<And>x s t. x \<noteq> a \<Longrightarrow> P s \<Longrightarrow> f x s = Some t \<Longrightarrow> P t"
  shows "ofold f xs s = None"
  using assms(1,2)
proof (induction xs arbitrary: s)
  case (Cons x xs)
  show ?case
  proof (cases "x = a")
    case True
    then show ?thesis using assms(3) [OF Cons.prems(2)] by simp
  next
    case False
    then show ?thesis using Cons assms(4) [OF False Cons.prems(2)] by (cases "f x s") auto
  qed
qed simp

lemma removeNode_Some:
  assumes wf: "graph_wf g" and n: "n \<in> set (sg_nodes g)"
  shows "\<exists>g'. removeNode [] g n = Some (True, g') \<and> sg_nodes g' = filter (\<lambda>m. m \<noteq> n) (sg_nodes g) \<and>
    sg_node_map g' = sg_node_map g \<and> sg_edges g' = sg_edges g"
proof -
  let ?f = "\<lambda>m g. if m = n then Some g else do {
           nd \<leftarrow> sg_heap g m;
           if list_ex (\<lambda>e. se_id e \<in> set []) (nd_edges nd) then None
           else Some (set_node g m (nd\<lparr>nd_edges := filter (\<lambda>e. se_target e \<noteq> n) (nd_edges nd)\<rparr>))
         }"
  let ?P = "\<lambda>h. sg_nodes h = sg_nodes g \<and> sg_node_map h = sg_node_map g \<and> sg_edges h = sg_edges g \<and>
    (\<forall>m \<in> set (sg_nodes g). sg_heap h m \<noteq> None)"
  have "\<exists>h. ofold ?f (sg_nodes g) g = Some h \<and> ?P h"
  proof (rule ofold_total)
    show "?P g" using graph_wfD(3) [OF wf] by (auto simp: node_wf_def)
    fix m and h :: "'a slice_graph" assume "m \<in> set (sg_nodes g)" "?P h"
    moreover from this obtain nd where "sg_heap h m = Some nd" by auto
    ultimately show "\<exists>t. ?f m h = Some t \<and> ?P t" by (simp add: set_node_def list_ex_iff)
  qed
  then obtain h where h: "ofold ?f (sg_nodes g) g = Some h" "?P h" by blast
  obtain nd where "sg_heap h n = Some nd" using h(2) n by auto
  then show ?thesis using h edge_pos_member [OF n] erase_pos [OF n graph_wfD(1) [OF wf]]
    by (simp add: removeNode_def Let_def set_node_def)
qed

lemma removeNode_dead:
  assumes "sg_heap h a = Some nd" and "e \<in> set (nd_edges nd)" and "se_id e = victim"
    and "a \<in> set (sg_nodes h)" and "b \<in> set (sg_nodes h)" and "a \<noteq> b"
  shows "removeNode [victim] h b = None"
proof -
  let ?f = "\<lambda>n g. if n = b then Some g else do {
     nd \<leftarrow> sg_heap g n;
     if list_ex (\<lambda>e. se_id e \<in> set [victim]) (nd_edges nd) then None
     else Some (set_node g n (nd\<lparr>nd_edges := filter (\<lambda>e. se_target e \<noteq> b) (nd_edges nd)\<rparr>))
   }"
  have "ofold ?f (sg_nodes h) h = None"
  proof (rule ofold_None [where a = a and P = "\<lambda>h. sg_heap h a = Some nd"])
    fix h' :: "'a slice_graph" assume "sg_heap h' a = Some nd"
    moreover have "list_ex (\<lambda>e. se_id e \<in> set [victim]) (nd_edges nd)" using assms(2,3) by (auto simp: list_ex_iff)
    ultimately show "?f a h' = None" using assms(6) by simp
  next
    fix n and h' t :: "'a slice_graph" assume "n \<noteq> a" "sg_heap h' a = Some nd" "?f n h' = Some t"
    then show "sg_heap t a = Some nd" by (auto simp: set_node_def split: if_splits bind_splits)
  qed (use assms in auto)
  moreover have "edge_pos (sg_nodes h) b \<noteq> length (sg_nodes h)" using edge_pos_member [OF assms(5)] by simp
  ultimately show ?thesis by (simp add: removeNode_def Let_def)
qed

section \<open>Properties\<close>

text \<open>
  Distances. On a well-formed graph whose instructions are found in functions of less than 100000 instructions,
  \<open>computeDistances\<close> succeeds; no edge gets the distance zero, an edge within a function gets the difference of
  the positions, and an edge that leaves the function gets a negative distance exactly when slicing backward.
\<close>

definition distance_right :: "('v \<Rightarrow> 'f) \<Rightarrow> ('f \<Rightarrow> 'v list) \<Rightarrow> 'v slice_graph \<Rightarrow> 'v \<Rightarrow> slice_edge \<Rightarrow> bool" where
  "distance_right func_of insts g v e \<longleftrightarrow> (\<exists>w p q. sg_heap g (se_target e) = Some w \<and>
     inst_position func_of insts v = Some p \<and> inst_position func_of insts (nd_value w) = Some q \<and> se_distance e \<noteq> 0 \<and>
     (if func_of (nd_value w) = func_of v then se_distance e = q - p else (se_distance e < 0 \<longleftrightarrow> sg_direction g = Backward)))"

theorem distances_nonzero:
  assumes "graph_wf g" and "positions_known func_of insts g"
  shows "\<exists>g'. computeDistances func_of insts g = Some (True, g') \<and>
    (\<forall>n \<in> set (sg_nodes g). \<exists>nd'. sg_heap g' n = Some nd' \<and>
      (\<forall>e \<in> set (nd_edges nd'). distance_right func_of insts g (nd_value nd') e))"
proof -
  have "measured func_of insts g {} g" by (simp add: measured_def)
  then obtain g' where g': "computeDistances func_of insts g = Some (True, g')" "measured func_of insts g (set (sg_nodes g)) g'"
    using node_distances_ok [OF assms, of "{}" g "sg_nodes g"] graph_wfD(1) [OF assms(1)] by (auto simp: computeDistances_def)
  have "\<exists>nd'. sg_heap g' n = Some nd' \<and> (\<forall>e' \<in> set (nd_edges nd'). distance_right func_of insts g (nd_value nd') e')"
    if n: "n \<in> set (sg_nodes g)" for n
  proof -
    obtain nd es where nd: "sg_heap g n = Some nd" "sg_heap g' n = Some (nd\<lparr>nd_edges := es\<rparr>)" "measured_edges func_of insts g nd es"
      using g'(2) n unfolding measured_def by blast
    have "distance_right func_of insts g (nd_value nd) e'" if e': "e' \<in> set es" for e'
    proof -
      obtain e where e: "e \<in> set (nd_edges nd)" "se_target e' = se_target e"
        "dist_ok func_of insts (sg_direction g) (nd_value nd) (nd_value (the (sg_heap g (se_target e)))) (se_distance e')"
        using list_all2_in_set2 [OF nd(3) [unfolded measured_edges_def] e'] by blast
      have t: "se_target e \<in> set (sg_nodes g)" "se_target e \<noteq> n" "sg_node_map g (nd_value nd) = Some n"
        using graph_wfD(3) [OF assms(1) n] nd(1) e(1) by (auto simp: node_wf_def)
      obtain w where w: "sg_heap g (se_target e) = Some w" "sg_node_map g (nd_value w) = Some (se_target e)"
        using graph_wfD(3) [OF assms(1) t(1)] by (auto simp: node_wf_def)
      have ne: "nd_value nd \<noteq> nd_value w" using t(2,3) w(2) by auto
      have len: "length (insts (func_of (nd_value w))) < 100000" using assms(2) t(1) w(1) by (auto simp: positions_known_def)
      have d: "dist_ok func_of insts (sg_direction g) (nd_value nd) (nd_value w) (se_distance e')" using e(3) w(1) by simp
      then obtain p q where pq: "inst_position func_of insts (nd_value nd) = Some p" "inst_position func_of insts (nd_value w) = Some q"
        "func_of (nd_value w) = func_of (nd_value nd) \<Longrightarrow> se_distance e' = q - p" by (auto simp: dist_ok_def)
      show ?thesis unfolding distance_right_def using dist_ok_sign [OF d ne len] pq w(1) e(2)
        by (intro exI [of _ w] exI [of _ p] exI [of _ q]) simp
    qed
    then show ?thesis using nd(2) by simp
  qed
  then show ?thesis using g'(1) by blast
qed

definition sample_graph :: "nat slice_graph" where
  "sample_graph = (let
     g0 = new_graph 10 Backward 1;
     (n1, g1) = getOrCreateNode g0 11; (n2, g2) = getOrCreateNode g1 20; (n3, g3) = getOrCreateNode g2 12;
     g4 = snd (the (connect g3 0 n1 RegisterDefUse)); g5 = snd (the (connect g4 0 n2 MemoryDependence));
     g6 = snd (the (connect g5 n2 n3 RegisterDefUse))
   in g6)"

definition sample_insts :: "nat \<Rightarrow> nat list" where
  "sample_insts f = (if f = 1 then [12, 11, 10] else [21, 20])"

lemma sample_graph_wf:
  "graph_wf sample_graph" "sg_nodes sample_graph = [0, 1, 2, 3]"
  "sg_heap sample_graph 0 = Some \<lparr>nd_value = 10, nd_depth = 0, nd_multi = False, nd_values = [10],
     nd_edges = [\<lparr>se_id = 4, se_target = 1, se_kind = RegisterDefUse, se_distance = 0\<rparr>, \<lparr>se_id = 5, se_target = 2, se_kind = MemoryDependence, se_distance = 0\<rparr>]\<rparr>"
  "sg_heap sample_graph 2 = Some \<lparr>nd_value = 20, nd_depth = 0, nd_multi = False, nd_values = [20],
     nd_edges = [\<lparr>se_id = 6, se_target = 3, se_kind = RegisterDefUse, se_distance = 0\<rparr>]\<rparr>"
  "sg_heap sample_graph 1 = Some (new_node 11)" "sg_heap sample_graph 3 = Some (new_node 12)"
proof -
  obtain n1 g1 where 1: "getOrCreateNode (new_graph 10 Backward 1) (11::nat) = (n1, g1)" by force
  obtain n2 g2 where 2: "getOrCreateNode g1 20 = (n2, g2)" by force
  obtain n3 g3 where 3: "getOrCreateNode g2 12 = (n3, g3)" by force
  have v: "n1 = 1" "n2 = 2" "n3 = 3" "sg_nodes g3 = [0, 1, 2, 3]"
    using 1 2 3 by (auto simp: new_graph_def getOrCreateNode_def alloc_node_def addNode_def set_node_def new_node_def)
  have wf: "graph_wf g3" using getOrCreateNode_wf(1) 1 2 3 new_graph_wf(1) by metis
  obtain b4 g4 where 4: "connect g3 0 1 RegisterDefUse = Some (b4, g4)" "graph_wf g4" "sg_nodes g4 = [0, 1, 2, 3]"
    using connect_wf [OF wf, of 0 1 RegisterDefUse] v(4) by auto
  obtain b5 g5 where 5: "connect g4 0 2 MemoryDependence = Some (b5, g5)" "graph_wf g5" "sg_nodes g5 = [0, 1, 2, 3]"
    using connect_wf [OF 4(2), of 0 2 MemoryDependence] 4(3) by auto
  obtain b6 g6 where 6: "connect g5 2 3 RegisterDefUse = Some (b6, g6)" "graph_wf g6" "sg_nodes g6 = [0, 1, 2, 3]"
    using connect_wf [OF 5(2), of 2 3 RegisterDefUse] 5(3) by auto
  have "sample_graph = g6" using 1 2 3 4 5 6 v by (simp add: sample_graph_def)
  then show "graph_wf sample_graph" "sg_nodes sample_graph = [0, 1, 2, 3]" using 6 by auto
qed code_simp+

lemma sample_positions: "positions_known (\<lambda>v. v div 10) sample_insts sample_graph"
  by (auto simp: positions_known_def sample_graph_wf sample_graph_wf(5) [unfolded One_nat_def] sample_insts_def new_node_def)

theorem distances_nonzero_witness:
  "\<exists>g' nd'. computeDistances (\<lambda>v. v div 10) sample_insts sample_graph = Some (True, g') \<and> sg_heap g' 0 = Some nd' \<and>
    (\<forall>e \<in> set (nd_edges nd'). distance_right (\<lambda>v. v div 10) sample_insts sample_graph (nd_value nd') e)"
  using distances_nonzero [OF sample_graph_wf(1) sample_positions] by (force simp: sample_graph_wf(2))

text \<open>
  \<open>removeNode\<close> leaves the map from values to nodes as it is: after the caller has deleted the removed node,
  \<open>getOrCreateNode\<close> for its value returns the deleted node, which is no longer in the graph.
\<close>

theorem removed_node_is_returned:
  assumes "graph_wf g" and "n \<in> set (sg_nodes g)" and "sg_heap g n = Some nd"
  shows "\<exists>g'. removeNode [] g n = Some (True, g') \<and> n \<notin> set (sg_nodes g') \<and>
    getOrCreateNode (g'\<lparr>sg_heap := (sg_heap g')(n := None)\<rparr>) (nd_value nd) = (n, g'\<lparr>sg_heap := (sg_heap g')(n := None)\<rparr>)"
proof -
  have "sg_node_map g (nd_value nd) = Some n" using graph_wfD(3) [OF assms(1,2)] assms(3) by (auto simp: node_wf_def)
  then show ?thesis using removeNode_Some [OF assms(1,2)] by (auto simp: getOrCreateNode_def)
qed

theorem removed_node_is_returned_witness:
  "\<exists>g'. removeNode [] sample_graph 2 = Some (True, g') \<and>
    fst (getOrCreateNode (g'\<lparr>sg_heap := (sg_heap g')(2 := None)\<rparr>) 20) = 2"
  using removed_node_is_returned [OF sample_graph_wf(1) _ sample_graph_wf(4)] by (force simp: sample_graph_wf(2))

text \<open>
  \<open>disconnect\<close> deletes the wrong edge. If the node has a further edge after the first edge to the other node, this
  further edge is deleted and taken from the list of all edges, although the node still holds it.
\<close>

theorem disconnect_deletes_next_edge:
  assumes "sg_heap g n1 = Some nd1" and "nd_edges nd1 = es1 @ e # e' # es2" and "se_target e = n2"
    and "\<forall>x \<in> set es1. se_target x \<noteq> n2"
  shows "\<exists>g' nd'. disconnect g n1 n2 = Some (True, Some (se_id e'), g') \<and> sg_heap g' n1 = Some nd' \<and>
    nd_edges nd' = es1 @ e' # es2"
proof -
  have tw: "takeWhile (\<lambda>e. se_target e \<noteq> n2) (nd_edges nd1) = es1" using assms(2-4) by (simp add: takeWhile_append2)
  show ?thesis using assms(1,2) tw
    by (simp add: disconnect_def Let_def erase_def set_node_def graph_removeEdge_def)
qed

theorem disconnect_deletes_next_edge_witness:
  "\<exists>g'. disconnect sample_graph 0 1 = Some (True, Some 5, g')"
  using disconnect_deletes_next_edge [OF sample_graph_wf(3), of "[]" "\<lparr>se_id = 4, se_target = 1, se_kind = RegisterDefUse, se_distance = 0\<rparr>"
      "\<lparr>se_id = 5, se_target = 2, se_kind = MemoryDependence, se_distance = 0\<rparr>" "[]" 1] by auto

text \<open>
  \<open>mergeNodes\<close> never completes. On a well-formed graph, folding a node into the one that precedes it always
  uses the folded edge after it has been erased: either the slot it was in no longer exists, or it holds another edge, which
  is deleted and then read.
\<close>

theorem merge_reads_deleted_edge:
  assumes wf: "graph_wf g" and a: "a \<in> set (sg_nodes g)" and nda: "sg_heap g a = Some nda"
    and last: "nd_edges nda \<noteq> []" "se_target (last (nd_edges nda)) = b"
  shows "mergeNodes g a b = None"
proof -
  have b: "b \<in> set (sg_nodes g)" "b \<noteq> a"
    using graph_wfD(3) [OF wf a] nda last by (auto simp: node_wf_def dest: last_in_set)
  obtain ndb where ndb: "sg_heap g b = Some ndb" using graph_wfD(3) [OF wf b(1)] by (auto simp: node_wf_def)
  let ?slot = "length (nd_edges nda) - 1"
  let ?g1 = "set_node g a (nda\<lparr>nd_multi := True, nd_values := nd_values nda @ nd_values ndb\<rparr>)"
  let ?C = "\<lambda>e g. map_option snd (connect g a (se_target e) (se_kind e))"
  show ?thesis
  proof (cases "ofold ?C (nd_edges ndb) ?g1")
    case None
    then show ?thesis using nda ndb last by (simp add: mergeNodes_def Let_def)
  next
    case (Some g2)
    have nodes: "sg_nodes g2 = sg_nodes g"
    proof (rule ofold_invariant [OF Some, where P = "\<lambda>h. sg_nodes h = sg_nodes g"])
      fix e and h t :: "'a slice_graph" assume "?C e h = Some t" "sg_nodes h = sg_nodes g"
      then show "sg_nodes t = sg_nodes g"
        by (auto simp: connect_def set_node_def Let_def split: if_splits bind_splits)
    qed (simp add: set_node_def)
    show ?thesis
    proof (cases "sg_heap g2 a")
      case None
      then show ?thesis using nda ndb last Some by (simp add: mergeNodes_def Let_def)
    next
      case nda2: (Some nda2)
      let ?nda3 = "snd (node_removeEdge nda2 (se_id (nd_edges nda2 ! ?slot)))"
      show ?thesis
      proof (cases "?slot < length (nd_edges ?nda3)")
        case False
        then show ?thesis using nda ndb last Some nda2 by (simp add: mergeNodes_def Let_def)
      next
        case True
        let ?victim = "se_id (nd_edges ?nda3 ! ?slot)"
        let ?g3 = "snd (graph_removeEdge (set_node g2 a ?nda3) ?victim)"
        have "sg_nodes ?g3 = sg_nodes g" "sg_heap ?g3 a = Some ?nda3"
          using nodes by (auto simp: graph_removeEdge_def set_node_def Let_def)
        moreover have "nd_edges ?nda3 ! ?slot \<in> set (nd_edges ?nda3)" using True by simp
        ultimately have "removeNode [?victim] ?g3 b = None" using a b by (intro removeNode_dead) auto
        then show ?thesis using nda ndb last Some nda2 True by (simp add: mergeNodes_def Let_def)
      qed
    qed
  qed
qed

theorem merge_reads_deleted_edge_witness: "mergeNodes sample_graph 0 2 = None"
  using merge_reads_deleted_edge [OF sample_graph_wf(1) _ sample_graph_wf(3), of 2] by (simp add: sample_graph_wf(2))

end
