(* ===== verification/SliceCompute.thy ===== *)
theory SliceCompute
  imports SliceGraphs
begin

text \<open>
  \<open>SliceGraph::computeSlices\<close> (\<open>analyzer/lib/Slicing/SliceGraph.cpp\<close>): a depth-first search through the slice graph that distributes the
  values of the visited nodes over slices, forking a slice for every further unexplored edge of a node. The
  loop is a partial function; the lemmas show that it returns on every well-formed graph, that the slices together hold exactly the values of
  the nodes reachable from the root, and where the slices differ from what the comments promise.
\<close>

section \<open>Operations\<close>

text \<open>\<open>cs_curr\<close> is the position of \<open>curr_slice\<close> in the container.\<close>

record 'v compute_state =
  cs_visited :: "nat list"
  cs_stack :: "nat list"
  cs_slices :: "'v slice list"
  cs_curr :: nat
  cs_last_id :: nat

text \<open>One edge: \<open>unknown0\<close> is \<open>current_dependence_unknown\<close>, the count is \<open>unexplored_edges\<close>.\<close>

definition explore_edge ::
    "('v \<Rightarrow> 'f) \<Rightarrow> bool \<Rightarrow> bool \<Rightarrow> 'v slice_graph \<Rightarrow> bool \<Rightarrow> slice_edge \<Rightarrow> 'v compute_state \<times> nat \<Rightarrow> ('v compute_state \<times> nat) option" where
  "explore_edge func_of inter_proc separate g unknown0 edge = (\<lambda>(st, unexplored). let cur = cs_slices st ! cs_curr st in
     if separate \<and> \<not> unknown0 \<and> se_kind edge = sc_dependence cur then Some (st, unexplored)
     else do {
       skip \<leftarrow> (if inter_proc then Some False
         else map_option (\<lambda>nd. func_of (nd_value nd) \<noteq> func_of (fst (hd (sc_dep_vals cur)))) (sg_heap g (se_target edge)));
       if skip \<or> se_target edge \<in> set (cs_visited st) then Some (st, unexplored)
       else
         let cur' = (if separate \<and> sc_dependence cur = Unknown then cur\<lparr>sc_dependence := se_kind edge\<rparr> else cur);
           slices' = (cs_slices st)[cs_curr st := cur'];
           st' = st\<lparr>cs_visited := se_target edge # cs_visited st, cs_stack := se_target edge # cs_stack st, cs_slices := slices'\<rparr>
         in if unexplored + 1 > 1 then
              let forked = fork cur'; forked' = (if separate \<and> unknown0 then forked\<lparr>sc_dependence := se_kind edge\<rparr> else forked)
              in Some (st'\<lparr>cs_slices := slices' @ [forked'\<lparr>sc_id := cs_last_id st + 1\<rparr>], cs_last_id := cs_last_id st + 1\<rparr>, unexplored + 1)
            else Some (st', unexplored + 1)
     })"

definition add_if_missing :: "'v slice list \<Rightarrow> nat \<Rightarrow> 'v slice list" where
  "add_if_missing slices cur = (if slices_has slices (sc_id (slices ! cur)) then slices else slices @ [slices ! cur])"

text \<open>One round of the loop, with the element on top of the stack; \<open>True\<close> is the \<open>break\<close>.\<close>

definition process_node ::
    "('v \<Rightarrow> 'f) \<Rightarrow> bool \<Rightarrow> bool \<Rightarrow> 'v slice_graph \<Rightarrow> nat \<Rightarrow> nat list \<Rightarrow> 'v compute_state \<Rightarrow> (bool \<times> 'v compute_state) option" where
  "process_node func_of inter_proc separate g elem rest st = do {
     nd \<leftarrow> sg_heap g elem;
     let st1 = st\<lparr>cs_stack := rest, cs_visited := elem # cs_visited st,
       cs_slices := (if elem \<noteq> sg_root g
         then (cs_slices st)[cs_curr st := slice_add (cs_slices st ! cs_curr st) (nd_value nd)] else cs_slices st)\<rparr>;
     (st2, unexplored) \<leftarrow> ofold (explore_edge func_of inter_proc separate g (sc_dependence (cs_slices st1 ! cs_curr st1) = Unknown))
       (rev (nd_edges nd)) (st1, 0);
     if unexplored = 0 then
       (let slices = add_if_missing (cs_slices st2) (cs_curr st2)
        in case slices_get slices (sc_id (slices ! cs_curr st2) + 1) of
            None \<Rightarrow> Some (True, st2\<lparr>cs_slices := slices\<rparr>)
          | Some next_slice \<Rightarrow> Some (False, st2\<lparr>cs_slices := slices, cs_curr := next_slice\<rparr>))
     else Some (False, st2)
   }"

partial_function (option) compute_loop ::
    "('v \<Rightarrow> 'f) \<Rightarrow> bool \<Rightarrow> bool \<Rightarrow> 'v slice_graph \<Rightarrow> 'v compute_state \<Rightarrow> 'v compute_state option" where
  "compute_loop func_of inter_proc separate g st = (case cs_stack st of
      [] \<Rightarrow> Some st
    | elem # rest \<Rightarrow> Option.bind (process_node func_of inter_proc separate g elem rest st)
        (\<lambda>(stop, st'). if stop then Some st' else compute_loop func_of inter_proc separate g st'))"

declare compute_loop.simps [code]

text \<open>The slices found are added to the container of the caller; the function always returns true.\<close>

definition computeSlices ::
    "('v \<Rightarrow> 'f) \<Rightarrow> bool \<Rightarrow> bool \<Rightarrow> 'v slice_graph \<Rightarrow> 'v slice list \<Rightarrow> (bool \<times> 'v slice list) option" where
  "computeSlices func_of inter_proc separate g slices = do {
     root \<leftarrow> sg_heap g (sg_root g);
     st \<leftarrow> compute_loop func_of inter_proc separate g
       \<lparr>cs_visited = [], cs_stack = [sg_root g],
        cs_slices = slices @ [new_slice 1 (nd_value root) (sg_direction g) NA Unknown], cs_curr = length slices, cs_last_id = 1\<rparr>;
     Some (True, add_if_missing (cs_slices st) (cs_curr st))
   }"

section \<open>Reachable nodes\<close>

definition allowed :: "('v \<Rightarrow> 'f) \<Rightarrow> bool \<Rightarrow> 'v slice_graph \<Rightarrow> nat \<Rightarrow> bool" where
  "allowed func_of inter_proc g t \<longleftrightarrow> inter_proc \<or>
     func_of (nd_value (the (sg_heap g t))) = func_of (nd_value (the (sg_heap g (sg_root g))))"

definition dep_steps :: "('v \<Rightarrow> 'f) \<Rightarrow> bool \<Rightarrow> 'v slice_graph \<Rightarrow> (nat \<times> nat) set" where
  "dep_steps func_of inter_proc g = {(n, t). \<exists>nd. sg_heap g n = Some nd \<and> t \<in> se_target ` set (nd_edges nd) \<and> allowed func_of inter_proc g t}"

definition dep_reach :: "('v \<Rightarrow> 'f) \<Rightarrow> bool \<Rightarrow> 'v slice_graph \<Rightarrow> nat set" where
  "dep_reach func_of inter_proc g = (dep_steps func_of inter_proc g)\<^sup>* `` {sg_root g}"

definition node_value :: "'v slice_graph \<Rightarrow> nat \<Rightarrow> 'v" where
  "node_value g n = nd_value (the (sg_heap g n))"

lemma dep_reach_nodes: "graph_wf g \<Longrightarrow> dep_reach func_of inter_proc g \<subseteq> set (sg_nodes g)"
proof
  fix n assume wf: "graph_wf g" and "n \<in> dep_reach func_of inter_proc g"
  then have "(sg_root g, n) \<in> (dep_steps func_of inter_proc g)\<^sup>*" by (simp add: dep_reach_def)
  then show "n \<in> set (sg_nodes g)"
  proof (induction rule: rtrancl_induct)
    case base
    then show ?case using graph_wfD(2) [OF wf] .
  next
    case (step m t)
    then show ?case using graph_wfD(3) [OF wf step.IH] by (auto simp: dep_steps_def node_wf_def)
  qed
qed

section \<open>Exploring the edges of one node\<close>

text \<open>The container: identifiers count from one, and every slice starts with the root.\<close>

definition slices_ok :: "'v \<Rightarrow> 'v slice list \<Rightarrow> nat \<Rightarrow> bool" where
  "slices_ok r ss last_id \<longleftrightarrow> length ss = last_id \<and>
     (\<forall>i < length ss. sc_id (ss ! i) = i + 1 \<and> sc_root (ss ! i) = r \<and> (\<exists>vs. sc_dep_vals (ss ! i) = (r, 0) # vs))"

definition slice_vals :: "'v slice list \<Rightarrow> 'v set" where
  "slice_vals ss = (\<Union>s \<in> set ss. fst ` set (sc_dep_vals s))"

lemma slices_get_id:
  assumes "slices_ok r ss k" and "i \<ge> 1"
  shows "slices_get ss i = (if i \<le> length ss then Some (i - 1) else None)"
proof -
  have id: "\<And>j. j < length ss \<Longrightarrow> sc_id (ss ! j) = j + 1" using assms(1) by (simp add: slices_ok_def)
  have "length (takeWhile (\<lambda>s. sc_id s \<noteq> i) ss) = (if i \<le> length ss then i - 1 else length ss)"
  proof (cases "i \<le> length ss")
    case True
    have "takeWhile (\<lambda>s. sc_id s \<noteq> i) ss = take (i - 1) ss"
      using True assms(2) id by (intro takeWhile_eq_take_P_nth) auto
    then show ?thesis using True by simp
  next
    case False
    have "takeWhile (\<lambda>s. sc_id s \<noteq> i) ss = ss"
      using False id by (auto simp: takeWhile_eq_all_conv in_set_conv_nth)
    then show ?thesis using False by (simp del: takeWhile_eq_all_conv)
  qed
  then show ?thesis using assms(2) by (auto simp: slices_get_def Let_def)
qed

lemma slices_ok_has: "slices_ok r ss k \<Longrightarrow> i < length ss \<Longrightarrow> add_if_missing ss i = ss"
  using slices_get_id [of r ss k "i + 1"] by (auto simp: add_if_missing_def slices_has_def slices_ok_def)

lemma slices_ok_fork:
  assumes "slices_ok r ss k" and "i < length ss"
  shows "slices_ok r (ss @ [(fork (ss ! i))\<lparr>sc_id := k + 1\<rparr>]) (k + 1)"
    and "slice_vals (ss @ [(fork (ss ! i))\<lparr>sc_id := k + 1\<rparr>]) = slice_vals ss"
proof -
  obtain vs where vs: "sc_dep_vals (ss ! i) = (r, 0) # vs" "sc_root (ss ! i) = r" using assms by (auto simp: slices_ok_def)
  have f: "fork (ss ! i) = (ss ! i)\<lparr>sc_dep_vals := (r, 0) # map (\<lambda>v. (v, 0)) (filter (\<lambda>v. v \<noteq> r) (map fst vs))\<rparr>"
    using vs by (simp add: fork_eq)
  show "slices_ok r (ss @ [(fork (ss ! i))\<lparr>sc_id := k + 1\<rparr>]) (k + 1)"
    using assms vs(2) by (auto simp: slices_ok_def f nth_append less_Suc_eq)
  have "fst ` set (sc_dep_vals (fork (ss ! i))) = fst ` set (sc_dep_vals (ss ! i))"
  proof -
    have "fst ` set (sc_dep_vals (fork (ss ! i))) = insert r (set (filter (\<lambda>v. v \<noteq> r) (map fst vs)))"
      by (simp add: f image_image)
    also have "\<dots> = insert r (fst ` set vs)" by auto
    finally show ?thesis by (simp add: vs(1))
  qed
  moreover have "ss ! i \<in> set ss" using assms(2) by simp
  ultimately show "slice_vals (ss @ [(fork (ss ! i))\<lparr>sc_id := k + 1\<rparr>]) = slice_vals ss" by (auto simp: slice_vals_def)
qed

text \<open>
  The state \<open>st\<close> with count \<open>u\<close> after edges whose allowed targets are \<open>A\<close> have been explored from \<open>st0\<close>.
\<close>

definition explored :: "'v \<Rightarrow> nat set \<Rightarrow> 'v compute_state \<Rightarrow> 'v compute_state \<Rightarrow> nat \<Rightarrow> bool" where
  "explored r A st0 st u \<longleftrightarrow> set (cs_visited st) = set (cs_visited st0) \<union> A \<and>
     (\<exists>S. cs_stack st = S @ cs_stack st0 \<and> distinct S \<and> set S = A - set (cs_visited st0) \<and> length S = u) \<and>
     cs_curr st = cs_curr st0 \<and> slices_ok r (cs_slices st) (cs_last_id st) \<and>
     length (cs_slices st) = length (cs_slices st0) + (u - 1) \<and> slice_vals (cs_slices st) = slice_vals (cs_slices st0)"

lemma explore_edge_step:
  assumes ex: "explored r A st0 st u" and cur: "cs_curr st0 < length (cs_slices st0)"
    and r: "sg_heap g (sg_root g) = Some rd" "nd_value rd = r" and t: "sg_heap g (se_target e) \<noteq> None"
  shows "\<exists>st' u'. explore_edge func_of inter_proc False g unk e (st, u) = Some (st', u') \<and>
    explored r (if allowed func_of inter_proc g (se_target e) then insert (se_target e) A else A) st0 st' u'"
proof -
  obtain S where S: "cs_stack st = S @ cs_stack st0" "distinct S" "set S = A - set (cs_visited st0)" "length S = u"
    using ex by (auto simp: explored_def)
  have ok: "slices_ok r (cs_slices st) (cs_last_id st)" and len: "length (cs_slices st) = length (cs_slices st0) + (u - 1)"
    and vals: "slice_vals (cs_slices st) = slice_vals (cs_slices st0)" and c: "cs_curr st = cs_curr st0"
    and vis: "set (cs_visited st) = set (cs_visited st0) \<union> A"
    using ex by (simp_all add: explored_def)
  have cl: "cs_curr st < length (cs_slices st)" using c len cur by simp
  then obtain vs where hd: "sc_dep_vals (cs_slices st ! cs_curr st) = (r, 0) # vs" using ok by (auto simp: slices_ok_def)
  obtain tn where tn: "sg_heap g (se_target e) = Some tn" using t by blast
  have al: "allowed func_of inter_proc g (se_target e) \<longleftrightarrow> inter_proc \<or> func_of (nd_value tn) = func_of r"
    using tn r by (simp add: allowed_def)
  show ?thesis
  proof (cases "allowed func_of inter_proc g (se_target e) \<and> se_target e \<notin> set (cs_visited st)")
    case False
    then have "explore_edge func_of inter_proc False g unk e (st, u) = Some (st, u)"
      using al tn hd by (auto simp: explore_edge_def Let_def)
    moreover have "explored r (if allowed func_of inter_proc g (se_target e) then insert (se_target e) A else A) st0 st u"
    proof (cases "allowed func_of inter_proc g (se_target e)")
      case True
      then have "se_target e \<in> set (cs_visited st0) \<union> A" using False vis by simp
      then have "set (cs_visited st0) \<union> A = set (cs_visited st0) \<union> insert (se_target e) A"
        "A - set (cs_visited st0) = insert (se_target e) A - set (cs_visited st0)" by auto
      then show ?thesis using ex True by (simp add: explored_def)
    qed (use ex in simp)
    ultimately show ?thesis by blast
  next
    case True
    let ?st = "st\<lparr>cs_visited := se_target e # cs_visited st, cs_stack := se_target e # cs_stack st\<rparr>"
    let ?st' = "if u \<ge> 1 then ?st\<lparr>cs_slices := cs_slices st @ [(fork (cs_slices st ! cs_curr st))\<lparr>sc_id := cs_last_id st + 1\<rparr>],
        cs_last_id := cs_last_id st + 1\<rparr> else ?st"
    have "explore_edge func_of inter_proc False g unk e (st, u) = Some (?st', u + 1)"
      using True al tn hd by (auto simp: explore_edge_def Let_def)
    moreover have "explored r (insert (se_target e) A) st0 ?st' (u + 1)"
    proof -
      have "set (se_target e # S) = insert (se_target e) A - set (cs_visited st0)" "distinct (se_target e # S)"
        using True S vis by auto
      moreover have "cs_stack ?st' = (se_target e # S) @ cs_stack st0" using S(1) by simp
      moreover have "slices_ok r (cs_slices ?st') (cs_last_id ?st')" "slice_vals (cs_slices ?st') = slice_vals (cs_slices st0)"
        using slices_ok_fork [OF ok cl] ok vals by auto
      moreover have "length (cs_slices ?st') = length (cs_slices st0) + (u + 1 - 1)" using len by auto
      moreover have "set (cs_visited ?st') = set (cs_visited st0) \<union> insert (se_target e) A" using vis by auto
      ultimately show ?thesis unfolding explored_def using S(4) c by (intro conjI exI [of _ "se_target e # S"]) auto
    qed
    ultimately show ?thesis using True by auto
  qed
qed

lemma explore_edges:
  assumes "explored r A st0 st u" and "cs_curr st0 < length (cs_slices st0)"
    and "sg_heap g (sg_root g) = Some rd" "nd_value rd = r" and "\<forall>e \<in> set es. sg_heap g (se_target e) \<noteq> None"
  shows "\<exists>st' u'. ofold (explore_edge func_of inter_proc False g unk) es (st, u) = Some (st', u') \<and>
    explored r (A \<union> {t \<in> se_target ` set es. allowed func_of inter_proc g t}) st0 st' u'"
  using assms(1,5)
proof (induction es arbitrary: A st u)
  case (Cons e es)
  obtain st1 u1 where 1: "explore_edge func_of inter_proc False g unk e (st, u) = Some (st1, u1)"
    "explored r (if allowed func_of inter_proc g (se_target e) then insert (se_target e) A else A) st0 st1 u1"
    using explore_edge_step [OF Cons.prems(1) assms(2-4)] Cons.prems(2) by (meson list.set_intros(1))
  obtain st' u' where 2: "ofold (explore_edge func_of inter_proc False g unk) es (st1, u1) = Some (st', u')"
    "explored r ((if allowed func_of inter_proc g (se_target e) then insert (se_target e) A else A) \<union> {t \<in> se_target ` set es. allowed func_of inter_proc g t}) st0 st' u'"
    using Cons.IH [OF 1(2)] Cons.prems(2) by auto
  have "(if allowed func_of inter_proc g (se_target e) then insert (se_target e) A else A) \<union> {t \<in> se_target ` set es. allowed func_of inter_proc g t} =
    A \<union> {t \<in> se_target ` set (e # es). allowed func_of inter_proc g t}" by auto
  then show ?case using 1(1) 2 by (metis (no_types, lifting) bind.bind_lunit ofold.simps(2))
qed auto

section \<open>The search\<close>

text \<open>
  Between two rounds: \<open>V\<close> are the nodes visited or waiting, those not waiting have had their edges explored and their
  values added, and every waiting node has a slice to continue.
\<close>

definition search_inv :: "('v \<Rightarrow> 'f) \<Rightarrow> bool \<Rightarrow> 'v slice_graph \<Rightarrow> nat set \<Rightarrow> 'v compute_state \<Rightarrow> bool" where
  "search_inv func_of inter_proc g V st \<longleftrightarrow>
     V = insert (sg_root g) (set (cs_visited st)) \<and> V \<subseteq> dep_reach func_of inter_proc g \<and>
     distinct (cs_stack st) \<and> set (cs_stack st) \<subseteq> V \<and> (cs_visited st = [] \<longrightarrow> cs_stack st = [sg_root g]) \<and>
     (cs_visited st \<noteq> [] \<longrightarrow> sg_root g \<in> set (cs_visited st)) \<and>
     dep_steps func_of inter_proc g `` (V - set (cs_stack st)) \<subseteq> V \<and>
     slices_ok (node_value g (sg_root g)) (cs_slices st) (cs_last_id st) \<and>
     slice_vals (cs_slices st) = insert (node_value g (sg_root g)) (node_value g ` (V - set (cs_stack st))) \<and>
     cs_curr st < length (cs_slices st)"

lemma slice_vals_nth: "v \<in> slice_vals ss \<longleftrightarrow> (\<exists>i < length ss. v \<in> fst ` set (sc_dep_vals (ss ! i)))"
  by (auto simp: slice_vals_def set_conv_nth)

lemma slices_ok_add:
  assumes "slices_ok r ss k" and "i < length ss"
  shows "slices_ok r (ss[i := slice_add (ss ! i) v]) k" and "slice_vals (ss[i := slice_add (ss ! i) v]) = insert v (slice_vals ss)"
proof -
  show "slices_ok r (ss[i := slice_add (ss ! i) v]) k"
    using assms by (auto simp: slices_ok_def slice_add_def nth_list_update)
  have "u \<in> slice_vals (ss[i := slice_add (ss ! i) v]) \<longleftrightarrow> u = v \<or> u \<in> slice_vals ss" for u
  proof -
    have "u \<in> fst ` set (sc_dep_vals (ss[i := slice_add (ss ! i) v] ! j)) \<longleftrightarrow> j = i \<and> u = v \<or> u \<in> fst ` set (sc_dep_vals (ss ! j))"
      if "j < length ss" for j
      using that assms(2) by (cases "j = i") (auto simp: slice_add_def)
    then show ?thesis using assms(2) unfolding slice_vals_nth length_list_update by metis
  qed
  then show "slice_vals (ss[i := slice_add (ss ! i) v]) = insert v (slice_vals ss)" by auto
qed

lemma search_invD:
  assumes "search_inv func_of inter_proc g V st"
  shows "V = insert (sg_root g) (set (cs_visited st))" and "V \<subseteq> dep_reach func_of inter_proc g"
    and "distinct (cs_stack st)" and "set (cs_stack st) \<subseteq> V" and "cs_visited st = [] \<Longrightarrow> cs_stack st = [sg_root g]"
    and "cs_visited st \<noteq> [] \<Longrightarrow> sg_root g \<in> set (cs_visited st)"
    and "dep_steps func_of inter_proc g `` (V - set (cs_stack st)) \<subseteq> V"
    and "slices_ok (node_value g (sg_root g)) (cs_slices st) (cs_last_id st)"
    and "slice_vals (cs_slices st) = insert (node_value g (sg_root g)) (node_value g ` (V - set (cs_stack st)))"
    and "cs_curr st < length (cs_slices st)"
  using assms unfolding search_inv_def by blast+

text \<open>The first half of a round: the node taken from the stack is visited and its value is added to the current slice.\<close>

lemma visited_node:
  assumes inv: "search_inv func_of inter_proc g V st" and st: "cs_stack st = elem # rest" and nd: "sg_heap g elem = Some nd"
  defines "st1 \<equiv> st\<lparr>cs_stack := rest, cs_visited := elem # cs_visited st,
       cs_slices := (if elem \<noteq> sg_root g
         then (cs_slices st)[cs_curr st := slice_add (cs_slices st ! cs_curr st) (nd_value nd)] else cs_slices st)\<rparr>"
  shows "set (cs_visited st1) = V" and "slices_ok (node_value g (sg_root g)) (cs_slices st1) (cs_last_id st1)"
    and "length (cs_slices st1) = length (cs_slices st)"
    and "slice_vals (cs_slices st1) = insert (node_value g (sg_root g)) (node_value g ` (V - set rest))"
proof -
  note D = search_invD [OF inv, unfolded st]
  show "set (cs_visited st1) = V"
  proof (cases "cs_visited st = []")
    case True
    then show ?thesis using D(1) D(5) by (simp add: st1_def)
  next
    case False
    then show ?thesis using D(1,4) D(6) by (auto simp: st1_def)
  qed
  show "slices_ok (node_value g (sg_root g)) (cs_slices st1) (cs_last_id st1)"
    using slices_ok_add(1) [OF D(8,10)] D(8) by (simp add: st1_def)
  show "length (cs_slices st1) = length (cs_slices st)" by (simp add: st1_def)
  have "V - set rest = insert elem (V - set (elem # rest))" using D(3,4) by auto
  moreover have "node_value g elem = nd_value nd" using nd by (simp add: node_value_def)
  ultimately show "slice_vals (cs_slices st1) = insert (node_value g (sg_root g)) (node_value g ` (V - set rest))"
    using slices_ok_add(2) [OF D(8,10), of "nd_value nd"] D(9) by (auto simp: st1_def)
qed

text \<open>
  The second half: exploring the node's edges puts its targets that are not yet known on the stack. The invariant holds for every choice of
  the slice to continue with.
\<close>

lemma explored_node:
  assumes wf: "graph_wf g" and inv: "search_inv func_of inter_proc g V st" and st: "cs_stack st = elem # rest"
    and A: "A = dep_steps func_of inter_proc g `` {elem}"
    and st1: "set (cs_visited st1) = V" "cs_stack st1 = rest"
      "slice_vals (cs_slices st1) = insert (node_value g (sg_root g)) (node_value g ` (V - set rest))"
    and ex: "explored (node_value g (sg_root g)) A st1 st2 u"
  shows "\<exists>S. cs_stack st2 = S @ rest \<and> length S = u" and "card (V \<union> A) = card V + u"
    and "k < length (cs_slices st2) \<Longrightarrow> search_inv func_of inter_proc g (V \<union> A) (st2\<lparr>cs_curr := k\<rparr>)"
proof -
  note D = search_invD [OF inv, unfolded st]
  have elem: "elem \<in> V" and rV: "set rest \<subseteq> V" using D(4) by auto
  obtain S where S: "cs_stack st2 = S @ rest" "distinct S" "set S = A - V" "length S = u"
    using ex st1(1,2) by (auto simp: explored_def)
  then show "\<exists>S. cs_stack st2 = S @ rest \<and> length S = u" by blast
  have AR: "A \<subseteq> dep_reach func_of inter_proc g"
    unfolding A using elem D(2) by (auto simp: dep_reach_def intro: rtrancl_into_rtrancl)
  have "finite (V \<union> A)" using D(2) AR dep_reach_nodes [OF wf] by (meson List.finite_set Un_least finite_subset subset_trans)
  then have "card (V \<union> (A - V)) = card V + card (A - V)" by (intro card_Un_disjoint) auto
  moreover have "V \<union> (A - V) = V \<union> A" by auto
  ultimately show "card (V \<union> A) = card V + u" using S(2-4) by (metis distinct_card)
  have new: "V \<union> A - set (S @ rest) = V - set rest" using S(3) rV by auto
  have vis: "set (cs_visited st2) = V \<union> A" using ex st1(1) by (simp add: explored_def)
  assume k: "k < length (cs_slices st2)"
  show "search_inv func_of inter_proc g (V \<union> A) (st2\<lparr>cs_curr := k\<rparr>)"
    unfolding search_inv_def
  proof (intro conjI)
    show "V \<union> A = insert (sg_root g) (set (cs_visited (st2\<lparr>cs_curr := k\<rparr>)))" using vis D(1) by auto
    show "V \<union> A \<subseteq> dep_reach func_of inter_proc g" using D(2) AR by simp
    show "distinct (cs_stack (st2\<lparr>cs_curr := k\<rparr>))" using S D(3) rV by auto
    show "set (cs_stack (st2\<lparr>cs_curr := k\<rparr>)) \<subseteq> V \<union> A" using S rV by auto
    show "cs_visited (st2\<lparr>cs_curr := k\<rparr>) = [] \<longrightarrow> cs_stack (st2\<lparr>cs_curr := k\<rparr>) = [sg_root g]" using vis elem by auto
    show "cs_visited (st2\<lparr>cs_curr := k\<rparr>) \<noteq> [] \<longrightarrow> sg_root g \<in> set (cs_visited (st2\<lparr>cs_curr := k\<rparr>))" using vis D(1) by auto
    have "V - set rest = insert elem (V - set (elem # rest))" using elem D(3) by auto
    then show "dep_steps func_of inter_proc g `` (V \<union> A - set (cs_stack (st2\<lparr>cs_curr := k\<rparr>))) \<subseteq> V \<union> A"
      using new S(1) D(7) A by auto
  qed (use ex k new S(1) st1(3) in \<open>simp_all add: explored_def\<close>)
qed

lemma process_node_inv:
  assumes wf: "graph_wf g" and inv: "search_inv func_of inter_proc g V st" and st: "cs_stack st = elem # rest"
    and count: "length (cs_stack st) + cs_curr st = length (cs_slices st)"
  shows "\<exists>stop st' V'. process_node func_of inter_proc False g elem rest st = Some (stop, st') \<and>
    search_inv func_of inter_proc g V' st' \<and> V \<subseteq> V' \<and>
    (stop \<longrightarrow> cs_stack st' = []) \<and>
    (\<not> stop \<longrightarrow> length (cs_stack st') + cs_curr st' = length (cs_slices st') \<and>
      length (cs_stack st') + 2 * card V < length (cs_stack st) + 2 * card V')"
proof -
  let ?r = "node_value g (sg_root g)"
  note D = search_invD [OF inv]
  have "elem \<in> dep_reach func_of inter_proc g" using D(2,4) st by auto
  then have en: "elem \<in> set (sg_nodes g)" using dep_reach_nodes [OF wf] by blast
  obtain nd where nd: "sg_heap g elem = Some nd" "\<forall>e \<in> set (nd_edges nd). se_target e \<in> set (sg_nodes g)"
    using graph_wfD(3) [OF wf en] by (auto simp: node_wf_def)
  obtain rd where rd: "sg_heap g (sg_root g) = Some rd" "nd_value rd = ?r"
    using graph_wfD(3) [OF wf graph_wfD(2) [OF wf]] by (auto simp: node_wf_def node_value_def)
  have tgts: "\<forall>e \<in> set (rev (nd_edges nd)). sg_heap g (se_target e) \<noteq> None"
    using nd(2) graph_wfD(3) [OF wf] by (fastforce simp: node_wf_def)
  define st1 where "st1 = st\<lparr>cs_stack := rest, cs_visited := elem # cs_visited st,
       cs_slices := (if elem \<noteq> sg_root g
         then (cs_slices st)[cs_curr st := slice_add (cs_slices st ! cs_curr st) (nd_value nd)] else cs_slices st)\<rparr>"
  note V1 = visited_node [OF inv st nd(1), folded st1_def]
  have s1: "cs_stack st1 = rest" "cs_curr st1 = cs_curr st" by (simp_all add: st1_def)
  let ?A = "dep_steps func_of inter_proc g `` {elem}"
  have A: "{t \<in> se_target ` set (rev (nd_edges nd)). allowed func_of inter_proc g t} = ?A" using nd(1) by (auto simp: dep_steps_def)
  have e1: "explored ?r {} st1 st1 0" using V1(2) by (simp add: explored_def)
  have c1: "cs_curr st1 < length (cs_slices st1)" using D(10) V1(3) s1(2) by simp
  obtain st2 u where run: "ofold (explore_edge func_of inter_proc False g (sc_dependence (cs_slices st1 ! cs_curr st1) = Unknown))
      (rev (nd_edges nd)) (st1, 0) = Some (st2, u)" and ex: "explored ?r ?A st1 st2 u"
    using explore_edges [OF e1 c1 rd tgts, of func_of inter_proc "sc_dependence (cs_slices st1 ! cs_curr st1) = Unknown"]
    unfolding A Un_empty_left by blast
  note N = explored_node [OF wf inv st refl V1(1) s1(1) V1(4) ex]
  have s2: "cs_curr st2 = cs_curr st" "length (cs_slices st2) = length (cs_slices st) + (u - 1)"
    using ex V1(3) s1(2) by (simp_all add: explored_def)
  have c: "cs_curr st2 < length (cs_slices st2)" using D(10) s2 by simp
  have ok: "slices_ok ?r (cs_slices st2) (cs_last_id st2)" using ex by (simp add: explored_def)
  have step: "process_node func_of inter_proc False g elem rest st =
    Some (if u \<noteq> 0 then (False, st2) else if cs_curr st2 + 2 \<le> length (cs_slices st2) then (False, st2\<lparr>cs_curr := cs_curr st2 + 1\<rparr>) else (True, st2))"
    using nd(1) run slices_ok_has [OF ok c] slices_get_id [OF ok, of "cs_curr st2 + 2"] c ok
    by (simp add: process_node_def st1_def Let_def slices_ok_def)
  obtain S where S: "cs_stack st2 = S @ rest" "length S = u" using N(1) by blast
  have inv2: "search_inv func_of inter_proc g (V \<union> ?A) st2" using N(3) [OF c] by simp
  consider "u \<noteq> 0" | "u = 0" "rest = []" | "u = 0" "rest \<noteq> []" by blast
  then show ?thesis
  proof cases
    case 1
    then show ?thesis using step inv2 S count st N(2) s2
      by (intro exI [of _ False] exI [of _ st2] exI [of _ "V \<union> ?A"]) auto
  next
    case 2
    then have "\<not> cs_curr st2 + 2 \<le> length (cs_slices st2)" using count st s2 by simp
    then show ?thesis using step inv2 S 2 by (intro exI [of _ True] exI [of _ st2] exI [of _ "V \<union> ?A"]) auto
  next
    case 3
    then have l: "cs_curr st2 + 2 \<le> length (cs_slices st2)" using count st s2 by (cases rest) auto
    then have "search_inv func_of inter_proc g (V \<union> ?A) (st2\<lparr>cs_curr := cs_curr st2 + 1\<rparr>)" by (intro N(3)) simp
    then show ?thesis using step l S 3 count st s2 N(2)
      by (intro exI [of _ False] exI [of _ "st2\<lparr>cs_curr := cs_curr st2 + 1\<rparr>"] exI [of _ "V \<union> ?A"]) auto
  qed
qed

lemma compute_loop_returns:
  assumes wf: "graph_wf g" and "search_inv func_of inter_proc g V st"
    and "length (cs_stack st) + cs_curr st = length (cs_slices st)"
  shows "\<exists>st' V'. compute_loop func_of inter_proc False g st = Some st' \<and> search_inv func_of inter_proc g V' st' \<and> cs_stack st' = []"
  using assms(2,3)
proof (induction "length (cs_stack st) + 2 * (card (dep_reach func_of inter_proc g) - card V)" arbitrary: V st rule: less_induct)
  case less
  show ?case
  proof (cases "cs_stack st")
    case Nil
    then show ?thesis using less.prems(1) by (subst compute_loop.simps) auto
  next
    case (Cons elem rest)
    obtain stop st' V' where s: "process_node func_of inter_proc False g elem rest st = Some (stop, st')"
      "search_inv func_of inter_proc g V' st'" "V \<subseteq> V'" "stop \<Longrightarrow> cs_stack st' = []"
      "\<not> stop \<Longrightarrow> length (cs_stack st') + cs_curr st' = length (cs_slices st')"
      "\<not> stop \<Longrightarrow> length (cs_stack st') + 2 * card V < length (cs_stack st) + 2 * card V'"
      using process_node_inv [OF wf less.prems(1) Cons less.prems(2)] by blast
    show ?thesis
    proof (cases stop)
      case True
      then show ?thesis using s Cons by (subst compute_loop.simps) auto
    next
      case False
      have fin: "finite (dep_reach func_of inter_proc g)" using dep_reach_nodes [OF wf] by (meson List.finite_set finite_subset)
      have "card V' \<le> card (dep_reach func_of inter_proc g)" using s(2) fin by (intro card_mono) (auto simp: search_inv_def)
      then have "length (cs_stack st') + 2 * (card (dep_reach func_of inter_proc g) - card V') <
        length (cs_stack st) + 2 * (card (dep_reach func_of inter_proc g) - card V)" using s(6) [OF False] by linarith
      from less.hyps [OF this s(2) s(5) [OF False]] show ?thesis using s(1) Cons False by (subst compute_loop.simps) auto
    qed
  qed
qed

lemma computeSlices_returns:
  assumes "graph_wf g"
  shows "\<exists>slices. computeSlices func_of inter_proc False g [] = Some (True, slices) \<and>
    slice_vals slices = node_value g ` dep_reach func_of inter_proc g \<and>
    (\<forall>s \<in> set slices. \<exists>vs. sc_dep_vals s = (node_value g (sg_root g), 0) # vs)"
proof -
  obtain rd where rd: "sg_heap g (sg_root g) = Some rd"
    using graph_wfD(3) [OF assms graph_wfD(2) [OF assms]] by (auto simp: node_wf_def)
  let ?r = "node_value g (sg_root g)"
  let ?st = "\<lparr>cs_visited = [], cs_stack = [sg_root g], cs_slices = [new_slice 1 (nd_value rd) (sg_direction g) NA Unknown],
     cs_curr = 0, cs_last_id = 1\<rparr>"
  have r: "?r = nd_value rd" using rd by (simp add: node_value_def)
  have "search_inv func_of inter_proc g {sg_root g} ?st"
    by (simp add: search_inv_def dep_reach_def slices_ok_def slice_vals_def new_slice_def r)
  then obtain st V where st: "compute_loop func_of inter_proc False g ?st = Some st" "search_inv func_of inter_proc g V st" "cs_stack st = []"
    using compute_loop_returns [OF assms, of func_of inter_proc "{sg_root g}" ?st] by auto
  have V: "V \<subseteq> dep_reach func_of inter_proc g" "sg_root g \<in> V" "dep_steps func_of inter_proc g `` V \<subseteq> V"
    and ok: "slices_ok ?r (cs_slices st) (cs_last_id st)" and cur: "cs_curr st < length (cs_slices st)"
    and vals: "slice_vals (cs_slices st) = insert ?r (node_value g ` V)"
    using st(2,3) unfolding search_inv_def by auto
  have "dep_reach func_of inter_proc g \<subseteq> V"
  proof
    fix n assume "n \<in> dep_reach func_of inter_proc g"
    then have "(sg_root g, n) \<in> (dep_steps func_of inter_proc g)\<^sup>*" by (simp add: dep_reach_def)
    then show "n \<in> V" by (induction rule: rtrancl_induct) (use V in auto)
  qed
  then have "slice_vals (cs_slices st) = node_value g ` dep_reach func_of inter_proc g" using V vals by auto
  moreover have "computeSlices func_of inter_proc False g [] = Some (True, cs_slices st)"
    using rd st(1) slices_ok_has [OF ok cur] by (simp add: computeSlices_def)
  moreover have "\<forall>s \<in> set (cs_slices st). \<exists>vs. sc_dep_vals s = (?r, 0) # vs"
    using ok by (auto simp: slices_ok_def in_set_conv_nth)
  ultimately show ?thesis by blast
qed

section \<open>Properties\<close>

text \<open>
  C17: The slices cover the dependencies. On a well-formed slice graph \<open>computeSlices\<close> returns, within one function or across functions;
  every slice starts with the root, and together the slices hold exactly the values of the nodes that can be
  reached from the root (through nodes of its function, in the first case).
\<close>

theorem computeSlices_covers:
  assumes "graph_wf g"
  shows "\<exists>slices. computeSlices func_of inter_proc False g [] = Some (True, slices) \<and>
    slice_vals slices = node_value g ` dep_reach func_of inter_proc g \<and>
    (\<forall>s \<in> set slices. \<exists>vs. sc_dep_vals s = (node_value g (sg_root g), 0) # vs)"
  by (rule computeSlices_returns [OF assms])

theorem computeSlices_covers_witness:
  "\<exists>slices. computeSlices (\<lambda>v. v div 10) True False sample_graph [] = Some (True, slices) \<and>
    (\<forall>s \<in> set slices. \<exists>vs. sc_dep_vals s = (10, 0) # vs)"
proof -
  have "node_value sample_graph (sg_root sample_graph) = 10" by code_simp
  then show ?thesis using computeSlices_covers [OF sample_graph_wf(1), of "\<lambda>v. v div 10" True] by auto
qed

text \<open>A graph in which both the root and its first successor have two successors.\<close>

definition fork_graph :: "nat slice_graph" where
  "fork_graph = (let
     mk = (\<lambda>v ts. new_node v\<lparr>nd_edges := map (\<lambda>t. \<lparr>se_id = 100 + t, se_target = t, se_kind = RegisterDefUse, se_distance = 0\<rparr>) ts\<rparr>)
   in \<lparr>sg_nodes = [0, 1, 2, 3, 4], sg_edges = [101, 102, 103, 104], sg_root = 0, sg_direction = Backward,
     sg_node_map = [0 \<mapsto> 0, 1 \<mapsto> 1, 2 \<mapsto> 2, 3 \<mapsto> 3, 4 \<mapsto> 4], sg_slice_id = 1,
     sg_heap = [0 \<mapsto> mk 0 [1, 2], 1 \<mapsto> mk 1 [3, 4], 2 \<mapsto> mk 2 [], 3 \<mapsto> mk 3 [], 4 \<mapsto> mk 4 []], sg_fresh = 200\<rparr>)"

definition value_edge :: "'v slice_graph \<Rightarrow> 'v \<Rightarrow> 'v \<Rightarrow> bool" where
  "value_edge g v w \<longleftrightarrow> list_ex (\<lambda>n. case sg_heap g n of None \<Rightarrow> False
     | Some nd \<Rightarrow> nd_value nd = v \<and> list_ex (\<lambda>e. node_value g (se_target e) = w) (nd_edges nd)) (sg_nodes g)"

text \<open>
  A slice need not be a path of the slice graph, which is what the header promises. Where a forked slice waits for a branch below
  another branch, it is continued with the wrong branch: with the edges from 0 to 1 and 2 and from 1 to 3 and 4, the
  slices are 0,1,3 and 0,4 and 0,1,2.
\<close>

theorem slices_not_paths:
  "map_option (map (map fst \<circ> sc_dep_vals) \<circ> snd) (computeSlices (\<lambda>_. ()) True False fork_graph []) =
     Some [[0, 1, 3], [0, 4], [0, 1, 2]] \<and> \<not> value_edge fork_graph 0 4 \<and> \<not> value_edge fork_graph 1 2 \<and>
   value_edge fork_graph 0 1 \<and> value_edge fork_graph 0 2 \<and> value_edge fork_graph 1 3 \<and> value_edge fork_graph 1 4"
  by code_simp

text \<open>A chain of three nodes whose edges have the given kinds.\<close>

definition chain_graph :: "slice_dependence \<Rightarrow> slice_dependence \<Rightarrow> nat slice_graph" where
  "chain_graph k1 k2 = (let g0 = new_graph 0 Backward 1; (n1, g1) = getOrCreateNode g0 1; (n2, g2) = getOrCreateNode g1 2;
     g3 = snd (the (connect g2 0 n1 k1)) in snd (the (connect g3 n1 n2 k2)))"

text \<open>
  With \<open>separate_dependence\<close> the kinds are separated the wrong way round: the comment says that edges of another kind than
  the slice's are skipped, but the edges of the same kind are. A chain of two memory dependencies is cut after the first, a
  memory dependence followed by a register dependence is followed to the end.
\<close>

theorem separate_dependence_inverted:
  "map_option (map (map fst \<circ> sc_dep_vals) \<circ> snd) (computeSlices (\<lambda>_. ()) True True (chain_graph MemoryDependence MemoryDependence) []) =
     Some [[0, 1]] \<and>
   map_option (map (map fst \<circ> sc_dep_vals) \<circ> snd) (computeSlices (\<lambda>_. ()) True True (chain_graph MemoryDependence RegisterDefUse) []) =
     Some [[0, 1, 2]]"
  by code_simp

end
