(* ===== verification/DgWalk.thy ===== *)
theory DgWalk
  imports SliceCompute
begin

unbundle bit_operations_syntax

text \<open>
  The walk over the dependence graph that builds the slice graph (\<open>analyzer/lib/Slicing/DgWalk.cpp\<close>,
  \<open>analyzer/include/Slicing/DgWalk.h\<close>), and the walk that only marks (with \<open>NodesWalk\<close> of the library dg). The dependence graph itself is
  computed by dg and is an input: nodes with their values and relations, and blocks. The lemmas show that the slice graph built
  has exactly the values and edges of the relations that the flags select, and, together with the previous theory, that the
  slices hold exactly the instructions the start depends on.
\<close>

section \<open>Flags\<close>

type_synonym flags = "32 word"

definition DEF_USE :: flags where "DEF_USE = 1"
definition MEMORY :: flags where "MEMORY = 2"
definition CONTROL :: flags where "CONTROL = 4"
definition INTERFERENCE :: flags where "INTERFERENCE = 8"
definition DEFAULT_DEPENDENCY_FLAGS :: flags where "DEFAULT_DEPENDENCY_FLAGS = DEF_USE OR MEMORY"
definition FULL_DEPENDENCY_FLAGS :: flags where "FULL_DEPENDENCY_FLAGS = DEF_USE OR MEMORY OR CONTROL OR INTERFERENCE"

definition NODES_WALK_CD :: flags where "NODES_WALK_CD = 2"
definition NODES_WALK_DD :: flags where "NODES_WALK_DD = 4"
definition NODES_WALK_REV_CD :: flags where "NODES_WALK_REV_CD = 8"
definition NODES_WALK_REV_DD :: flags where "NODES_WALK_REV_DD = 16"
definition NODES_WALK_USE :: flags where "NODES_WALK_USE = 32"
definition NODES_WALK_USER :: flags where "NODES_WALK_USER = 64"
definition NODES_WALK_ID :: flags where "NODES_WALK_ID = 128"
definition NODES_WALK_REV_ID :: flags where "NODES_WALK_REV_ID = 256"

lemmas flag_defs = DEF_USE_def MEMORY_def CONTROL_def INTERFERENCE_def DEFAULT_DEPENDENCY_FLAGS_def FULL_DEPENDENCY_FLAGS_def
  NODES_WALK_CD_def NODES_WALK_DD_def NODES_WALK_REV_CD_def NODES_WALK_REV_DD_def NODES_WALK_USE_def NODES_WALK_USER_def
  NODES_WALK_ID_def NODES_WALK_REV_ID_def

definition has_flag :: "flags \<Rightarrow> flags \<Rightarrow> bool" where
  "has_flag fs f \<longleftrightarrow> fs AND f \<noteq> 0"

definition sliceRelationOpts :: "slice_direction \<Rightarrow> flags \<Rightarrow> flags" where
  "sliceRelationOpts dir deps = (case dir of
      Backward \<Rightarrow> (if has_flag deps DEF_USE then NODES_WALK_USER else 0) OR (if has_flag deps MEMORY then NODES_WALK_REV_DD else 0) OR
        (if has_flag deps CONTROL then NODES_WALK_REV_CD else 0) OR (if has_flag deps INTERFERENCE then NODES_WALK_REV_ID else 0)
    | Forward \<Rightarrow> (if has_flag deps DEF_USE then NODES_WALK_USE else 0) OR (if has_flag deps MEMORY then NODES_WALK_DD else 0) OR
        (if has_flag deps CONTROL then NODES_WALK_CD else 0) OR (if has_flag deps INTERFERENCE then NODES_WALK_ID else 0)
    | Full \<Rightarrow> (if has_flag deps DEF_USE then NODES_WALK_USE OR NODES_WALK_USER else 0) OR
        (if has_flag deps MEMORY then NODES_WALK_DD OR NODES_WALK_REV_DD else 0) OR
        (if has_flag deps CONTROL then NODES_WALK_CD OR NODES_WALK_REV_CD else 0) OR
        (if has_flag deps INTERFERENCE then NODES_WALK_ID OR NODES_WALK_REV_ID else 0))"

section \<open>The dependence graph\<close>

text \<open>Of an instruction's opcode: unreachable, a return with or without a value, or another.\<close>

datatype inst_opcode = Unreachable | Ret bool | OtherInst

definition shouldSliceInst :: "inst_opcode \<Rightarrow> bool" where
  "shouldSliceInst opc = (case opc of Unreachable \<Rightarrow> False | Ret has_value \<Rightarrow> has_value | OtherInst \<Rightarrow> True)"

text \<open>\<open>dn_value\<close> is the instruction with its opcode, or nothing for another value.\<close>

record 'v dg_node =
  dn_value :: "('v \<times> inst_opcode) option"
  dn_use :: "nat list"
  dn_user :: "nat list"
  dn_data :: "nat list"
  dn_rev_data :: "nat list"
  dn_control :: "nat list"
  dn_rev_control :: "nat list"
  dn_interference :: "nat list"
  dn_rev_interference :: "nat list"
  dn_block :: "nat option"
  dn_dg :: "nat option"

record dg_block =
  db_control :: "nat list"
  db_rev_control :: "nat list"
  db_first_node :: "nat option"
  db_last_node :: "nat option"

record 'v dependence_graph =
  dg_nodes :: "nat \<Rightarrow> 'v dg_node option"
  dg_blocks :: "nat \<Rightarrow> dg_block option"

section \<open>Building the slice graph\<close>

text \<open>
  \<open>wk_seen\<close> are the nodes marked with the current run; the last three fields are the slice identifiers of nodes, blocks and
  function graphs, which the statistics read.
\<close>

record 'v walk_state =
  wk_graph :: "'v slice_graph"
  wk_queue :: "nat list"
  wk_seen :: "nat list"
  wk_dfs_order :: nat
  wk_node_slice :: "nat \<Rightarrow> nat option"
  wk_block_slice :: "nat \<Rightarrow> nat option"
  wk_dg_slice :: "nat \<Rightarrow> nat option"

definition enqueue :: "nat \<Rightarrow> 'v walk_state \<Rightarrow> 'v walk_state" where
  "enqueue n st = (if n \<in> set (wk_seen st) then st else st\<lparr>wk_seen := n # wk_seen st, wk_queue := n # wk_queue st\<rparr>)"

definition mark_node :: "nat \<Rightarrow> nat \<Rightarrow> 'v dg_node \<Rightarrow> 'v walk_state \<Rightarrow> 'v walk_state" where
  "mark_node slice_id n dn st = st\<lparr>wk_node_slice := (wk_node_slice st)(n \<mapsto> slice_id),
     wk_block_slice := (case dn_block dn of None \<Rightarrow> wk_block_slice st | Some b \<Rightarrow> (wk_block_slice st)(b \<mapsto> slice_id)),
     wk_dg_slice := (case dn_dg dn of None \<Rightarrow> wk_dg_slice st | Some d \<Rightarrow> (wk_dg_slice st)(d \<mapsto> slice_id))\<rparr>"

text \<open>One round of \<open>processSliceEdges\<close>; the source is the node \<open>sn_curr\<close> of the slice graph.\<close>

definition process_edge :: "'v dependence_graph \<Rightarrow> nat \<Rightarrow> slice_dependence \<Rightarrow> nat \<Rightarrow> 'v walk_state \<Rightarrow> 'v walk_state option" where
  "process_edge D sn_curr kind dn_next st = do {
     dn \<leftarrow> dg_nodes D dn_next;
     case dn_value dn of None \<Rightarrow> Some st
     | Some (inst, opc) \<Rightarrow>
       if \<not> shouldSliceInst opc then Some st
       else (let (sn_next, g1) = getOrCreateNode (wk_graph st) inst in do {
         (_, g2) \<leftarrow> connect g1 sn_curr sn_next kind;
         Some (enqueue dn_next (st\<lparr>wk_graph := g2\<rparr>))
       })
   }"

definition processSliceEdges :: "'v dependence_graph \<Rightarrow> nat \<Rightarrow> slice_dependence \<Rightarrow> nat list \<Rightarrow> 'v walk_state \<Rightarrow> 'v walk_state option" where
  "processSliceEdges D sn_curr kind = ofold (process_edge D sn_curr kind)"

definition processControlBlocks :: "'v dependence_graph \<Rightarrow> nat \<Rightarrow> nat list \<Rightarrow> 'v walk_state \<Rightarrow> 'v walk_state option" where
  "processControlBlocks D sn_curr = ofold (\<lambda>b st. do {
     dep_block \<leftarrow> dg_blocks D b;
     case db_last_node dep_block of None \<Rightarrow> Some st
     | Some last_node \<Rightarrow> process_edge D sn_curr ControlDependence last_node st
   })"

text \<open>Backward slices use the reverse iterators. A node without a block has no control blocks to read.\<close>

definition in_order :: "slice_direction \<Rightarrow> 'x list \<Rightarrow> 'x list" where
  "in_order dir xs = (if dir = Backward then rev xs else xs)"

definition process_relations :: "'v dependence_graph \<Rightarrow> flags \<Rightarrow> nat \<Rightarrow> 'v dg_node \<Rightarrow> 'v walk_state \<Rightarrow> 'v walk_state option" where
  "process_relations D opts sn_curr dn st = (let
     dir = sg_direction (wk_graph st);
     edges = (\<lambda>f kind ns. if has_flag opts f then processSliceEdges D sn_curr kind (in_order dir ns) else Some);
     control = (\<lambda>f ns blocks st. if has_flag opts f then do {
         st' \<leftarrow> processSliceEdges D sn_curr ControlDependence (in_order dir ns) st;
         b \<leftarrow> dn_block dn;
         block \<leftarrow> dg_blocks D b;
         processControlBlocks D sn_curr (in_order dir (blocks block)) st'
       } else Some st)
   in do {
     s1 \<leftarrow> edges NODES_WALK_USE RegisterDefUse (dn_use dn) st;
     s2 \<leftarrow> edges NODES_WALK_USER RegisterDefUse (dn_user dn) s1;
     s3 \<leftarrow> edges NODES_WALK_DD MemoryDependence (dn_data dn) s2;
     s4 \<leftarrow> edges NODES_WALK_REV_DD MemoryDependence (dn_rev_data dn) s3;
     s5 \<leftarrow> control NODES_WALK_CD (dn_control dn) db_control s4;
     s6 \<leftarrow> control NODES_WALK_REV_CD (dn_rev_control dn) db_rev_control s5;
     s7 \<leftarrow> edges NODES_WALK_ID InterfereDependence (dn_interference dn) s6;
     edges NODES_WALK_REV_ID InterfereDependence (dn_rev_interference dn) s7
   })"

text \<open>One round of the loop in \<open>build\<close>, for the node taken from the queue.\<close>

definition build_step :: "'v dependence_graph \<Rightarrow> flags \<Rightarrow> nat \<Rightarrow> nat \<Rightarrow> 'v walk_state \<Rightarrow> 'v walk_state option" where
  "build_step D opts slice_id dn_curr st = do {
     let st0 = st\<lparr>wk_dfs_order := wk_dfs_order st + 1\<rparr>;
     if opts = 0 then Some st0
     else do {
       dn \<leftarrow> dg_nodes D dn_curr;
       case dn_value dn of None \<Rightarrow> Some st0
       | Some (inst, opc) \<Rightarrow>
         if \<not> shouldSliceInst opc then Some st0
         else (let (sn_curr, g) = getOrCreateNode (wk_graph st0) inst
           in process_relations D opts sn_curr dn ((mark_node slice_id dn_curr dn st0)\<lparr>wk_graph := g\<rparr>))
     }
   }"

partial_function (option) build_loop :: "'v dependence_graph \<Rightarrow> flags \<Rightarrow> nat \<Rightarrow> 'v walk_state \<Rightarrow> 'v walk_state option" where
  "build_loop D opts slice_id st = (case wk_queue st of [] \<Rightarrow> Some st
    | dn_curr # rest \<Rightarrow> Option.bind (build_step D opts slice_id dn_curr (st\<lparr>wk_queue := rest\<rparr>)) (build_loop D opts slice_id))"

declare build_loop.simps [code]

text \<open>The result \<open>Some None\<close> is the null pointer returned when the start is no instruction.\<close>

definition build :: "'v dependence_graph \<Rightarrow> slice_direction \<Rightarrow> flags \<Rightarrow> nat \<Rightarrow> nat \<Rightarrow> 'v walk_state option option" where
  "build D dir opts start slice_id = do {
     dn \<leftarrow> dg_nodes D start;
     case dn_value dn of None \<Rightarrow> Some None
     | Some (root_val, _) \<Rightarrow> map_option Some (build_loop D opts slice_id (enqueue start
         \<lparr>wk_graph = new_graph root_val dir slice_id, wk_queue = [], wk_seen = [], wk_dfs_order = 0,
          wk_node_slice = Map.empty, wk_block_slice = Map.empty, wk_dg_slice = Map.empty\<rparr>))
   }"

definition buildSliceGraph :: "'v dependence_graph \<Rightarrow> slice_direction \<Rightarrow> nat \<Rightarrow> nat \<Rightarrow> flags \<Rightarrow> 'v walk_state option option" where
  "buildSliceGraph D dir start slice_id deps = build D dir (sliceRelationOpts dir deps) start slice_id"

section \<open>Values and edges of a slice graph\<close>

definition graph_values :: "'v slice_graph \<Rightarrow> 'v set" where
  "graph_values g = dom (sg_node_map g)"

definition graph_edges :: "'v slice_graph \<Rightarrow> ('v \<times> slice_dependence \<times> 'v) set" where
  "graph_edges g = {(v, k, w). \<exists>n nd e. sg_node_map g v = Some n \<and> sg_heap g n = Some nd \<and> e \<in> set (nd_edges nd) \<and>
     k = se_kind e \<and> w = node_value g (se_target e)}"

lemma node_map_value: "graph_wf g \<Longrightarrow> n \<in> set (sg_nodes g) \<Longrightarrow> sg_node_map g (node_value g n) = Some n"
  using graph_wfD(3) [of g n] by (auto simp: node_wf_def node_value_def)

lemma getOrCreateNode_graph:
  assumes wf: "graph_wf g" and r: "getOrCreateNode g v = (n, g')"
  shows "graph_values g' = insert v (graph_values g)" and "graph_edges g' = graph_edges g"
    and "\<And>u m. sg_node_map g u = Some m \<Longrightarrow> sg_node_map g' u = Some m" and "sg_direction g' = sg_direction g" and "sg_root g' = sg_root g"
    and "\<And>m. m \<in> set (sg_nodes g) \<Longrightarrow> node_value g' m = node_value g m"
proof -
  have "graph_values g' = insert v (graph_values g) \<and> graph_edges g' = graph_edges g \<and>
    (\<forall>u m. sg_node_map g u = Some m \<longrightarrow> sg_node_map g' u = Some m) \<and> sg_direction g' = sg_direction g \<and> sg_root g' = sg_root g \<and>
    (\<forall>m \<in> set (sg_nodes g). node_value g' m = node_value g m)"
  proof (cases "n \<in> set (sg_nodes g)")
    case True
    then show ?thesis using getOrCreateNode_wf(2,4) [OF wf r] by (auto simp: graph_values_def)
  next
    case False
    have g': "g' = g\<lparr>sg_nodes := sg_nodes g @ [n], sg_heap := (sg_heap g)(n \<mapsto> new_node v),
      sg_node_map := (sg_node_map g)(v \<mapsto> n), sg_fresh := sg_fresh g + 1\<rparr>" using getOrCreateNode_wf(4) [OF wf r] False by simp
    have none: "sg_node_map g v = None"
    proof (rule ccontr)
      assume "sg_node_map g v \<noteq> None"
      then obtain m where "sg_node_map g v = Some m" by blast
      then show False using r False graph_wfD(4) [OF wf, of v m] by (simp add: getOrCreateNode_def)
    qed
    have "graph_edges g' = graph_edges g"
    proof -
      have "(u, k, w) \<in> graph_edges g' \<longleftrightarrow> (u, k, w) \<in> graph_edges g" for u k w
      proof (cases "u = v")
        case True
        then show ?thesis using none by (auto simp: graph_edges_def g' new_node_def)
      next
        case False
        have "node_value g' (se_target e) = node_value g (se_target e)"
          if "sg_node_map g u = Some m" "sg_heap g m = Some nd" "e \<in> set (nd_edges nd)" for m nd e
        proof -
          have "m \<in> set (sg_nodes g)" using graph_wfD(4) [OF wf that(1)] by simp
          then have "se_target e \<in> set (sg_nodes g)" using graph_wfD(3) [OF wf] that(2,3) by (fastforce simp: node_wf_def)
          then show ?thesis using \<open>n \<notin> set (sg_nodes g)\<close> by (auto simp: g' node_value_def)
        qed
        moreover have "m \<noteq> n" if "sg_node_map g u = Some m" for m using graph_wfD(4) [OF wf that] \<open>n \<notin> set (sg_nodes g)\<close> by auto
        ultimately show ?thesis using False by (fastforce simp: graph_edges_def g')
      qed
      then show ?thesis by auto
    qed
    then show ?thesis using none False by (auto simp: g' graph_values_def node_value_def)
  qed
  then show "graph_values g' = insert v (graph_values g)" "graph_edges g' = graph_edges g"
    "\<And>u m. sg_node_map g u = Some m \<Longrightarrow> sg_node_map g' u = Some m" "sg_direction g' = sg_direction g" "sg_root g' = sg_root g"
    "\<And>m. m \<in> set (sg_nodes g) \<Longrightarrow> node_value g' m = node_value g m"
    by blast+
qed

lemma node_map_neq: "graph_wf g \<Longrightarrow> sg_node_map g v = Some n \<Longrightarrow> sg_node_map g w = Some m \<Longrightarrow> n = m \<longleftrightarrow> v = w"
  using graph_wfD(4) [of g v n] graph_wfD(4) [of g w m] by auto

lemma connect_graph:
  assumes wf: "graph_wf g" and v: "sg_node_map g v = Some n1" and w: "sg_node_map g w = Some n2"
  obtains b g' where "connect g n1 n2 k = Some (b, g')" and "graph_wf g'" and "sg_node_map g' = sg_node_map g"
    and "sg_direction g' = sg_direction g" and "sg_root g' = sg_root g" and "node_value g' = node_value g"
    and "graph_edges g \<subseteq> graph_edges g'" and "graph_edges g' \<subseteq> graph_edges g \<union> {(v, k, w) |_::unit. v \<noteq> w}"
    and "v \<noteq> w \<Longrightarrow> \<exists>k'. (v, k', w) \<in> graph_edges g'"
proof -
  obtain nd1 where nd1: "sg_heap g n1 = Some nd1" "nd_value nd1 = v" and n1: "n1 \<in> set (sg_nodes g)" using graph_wfD(4) [OF wf v] by auto
  obtain nd2 where nd2: "sg_heap g n2 = Some nd2" "nd_value nd2 = w" and n2: "n2 \<in> set (sg_nodes g)" using graph_wfD(4) [OF wf w] by auto
  have eq: "n1 = n2 \<longleftrightarrow> v = w" by (rule node_map_neq [OF wf v w])
  have val2: "node_value g n2 = w" using nd2 by (simp add: node_value_def)
  show thesis
  proof (cases "n1 = n2 \<or> hasEdgeTo nd1 n2")
    case True
    have "\<exists>k'. (v, k', w) \<in> graph_edges g" if ne: "v \<noteq> w"
    proof -
      obtain e where "e \<in> set (nd_edges nd1)" "se_target e = n2" using True ne eq by (auto simp: hasEdgeTo_def list_ex_iff)
      then have "(v, se_kind e, w) \<in> graph_edges g" unfolding graph_edges_def using v nd1(1) val2 by blast
      then show ?thesis ..
    qed
    then show ?thesis using that [of False g] connect_eq [OF wf n1 n2 nd1(1), of k] True wf by auto
  next
    case False
    let ?g = "add_edge g n1 nd1 n2 k"
    have val: "node_value ?g = node_value g" using nd1(1) by (auto simp: node_value_def add_edge_def)
    have ne: "v \<noteq> w" using False eq by simp
    have "(u, j, x) \<in> graph_edges ?g \<longleftrightarrow> (u, j, x) \<in> graph_edges g \<or> (u, j, x) = (v, k, w)" for u j x
    proof (cases "u = v")
      case True
      then show ?thesis using v nd1 val val2 by (auto simp: graph_edges_def add_edge_def)
    next
      case False
      then have "sg_node_map g u \<noteq> Some n1" using node_map_neq [OF wf v] by blast
      then have "sg_heap ?g m = sg_heap g m" if "sg_node_map g u = Some m" for m using that by (auto simp: add_edge_def)
      moreover have "sg_node_map ?g = sg_node_map g" by (simp add: add_edge_def)
      ultimately show ?thesis using False val by (cases "sg_node_map g u") (simp_all add: graph_edges_def)
    qed
    then have E: "graph_edges ?g = insert (v, k, w) (graph_edges g)" by auto
    show ?thesis
      using that [of True ?g] connect_eq [OF wf n1 n2 nd1(1), of k] False ne add_edge_wf [OF wf n1 n2 nd1(1)] val E
      by (auto simp: add_edge_def)
  qed
qed

section \<open>What the walk covers\<close>

text \<open>The instruction of a node that belongs into a slice, and what \<open>build\<close> looks at from a node, in its order.\<close>

definition sliced_value :: "'v dependence_graph \<Rightarrow> nat \<Rightarrow> 'v option" where
  "sliced_value D n = Option.bind (dg_nodes D n) (\<lambda>dn. Option.bind (dn_value dn) (\<lambda>(v, opc). if shouldSliceInst opc then Some v else None))"

definition last_nodes :: "'v dependence_graph \<Rightarrow> nat list \<Rightarrow> nat list" where
  "last_nodes D bs = List.map_filter (\<lambda>b. Option.bind (dg_blocks D b) db_last_node) bs"

definition node_targets :: "'v dependence_graph \<Rightarrow> slice_direction \<Rightarrow> flags \<Rightarrow> 'v dg_node \<Rightarrow> (slice_dependence \<times> nat) list" where
  "node_targets D dir opts dn = (let
     edges = (\<lambda>f kind ns. if has_flag opts f then map (Pair kind) (in_order dir ns) else []);
     control = (\<lambda>f ns blocks. if has_flag opts f then map (Pair ControlDependence) (in_order dir ns @
       (case Option.bind (dn_block dn) (dg_blocks D) of None \<Rightarrow> [] | Some block \<Rightarrow> last_nodes D (in_order dir (blocks block)))) else [])
   in edges NODES_WALK_USE RegisterDefUse (dn_use dn) @ edges NODES_WALK_USER RegisterDefUse (dn_user dn) @
      edges NODES_WALK_DD MemoryDependence (dn_data dn) @ edges NODES_WALK_REV_DD MemoryDependence (dn_rev_data dn) @
      control NODES_WALK_CD (dn_control dn) db_control @ control NODES_WALK_REV_CD (dn_rev_control dn) db_rev_control @
      edges NODES_WALK_ID InterfereDependence (dn_interference dn) @
      edges NODES_WALK_REV_ID InterfereDependence (dn_rev_interference dn))"

text \<open>
  What the walk needs of the dependence graph: relations lead to its nodes, and nodes have a block when control dependencies are
  asked for (\<open>build\<close> uses the block without checking it).
\<close>

definition dg_ok :: "'v dependence_graph \<Rightarrow> flags \<Rightarrow> bool" where
  "dg_ok D opts \<longleftrightarrow> finite (dom (dg_nodes D)) \<and> (\<forall>n dn. dg_nodes D n = Some dn \<longrightarrow>
     set (dn_use dn) \<union> set (dn_user dn) \<union> set (dn_data dn) \<union> set (dn_rev_data dn) \<union> set (dn_control dn) \<union> set (dn_rev_control dn) \<union>
       set (dn_interference dn) \<union> set (dn_rev_interference dn) \<subseteq> dom (dg_nodes D) \<and>
     (has_flag opts NODES_WALK_CD \<or> has_flag opts NODES_WALK_REV_CD \<longrightarrow>
        (\<exists>b block. dn_block dn = Some b \<and> dg_blocks D b = Some block \<and>
          set (db_control block) \<union> set (db_rev_control block) \<subseteq> dom (dg_blocks D)))) \<and>
     (\<forall>b block n. dg_blocks D b = Some block \<longrightarrow> db_last_node block = Some n \<longrightarrow> n \<in> dom (dg_nodes D))"

lemma set_in_order [simp]: "set (in_order dir xs) = set xs"
  by (simp add: in_order_def)

lemma ofold_map: "ofold f (map h xs) = ofold (f \<circ> h) xs"
  by (induction xs) auto

lemma ofold_Nil [simp]: "ofold f [] = Some"
  by auto

lemma ofold_append': "ofold f (xs @ ys) = (\<lambda>s. Option.bind (ofold f xs s) (ofold f ys))"
  by (rule ext) (rule ofold_append)

lemma processControlBlocks_last_nodes:
  assumes "set bs \<subseteq> dom (dg_blocks D)"
  shows "processControlBlocks D sn bs st = processSliceEdges D sn ControlDependence (last_nodes D bs) st"
  using assms
proof (induction bs arbitrary: st)
  case (Cons b bs)
  then obtain block where b: "dg_blocks D b = Some block" by auto
  then show ?case using Cons
    by (cases "db_last_node block")
      (auto simp: processControlBlocks_def processSliceEdges_def last_nodes_def map_filter_simps cong: Option.bind_cong split: bind_splits)
qed (simp add: processControlBlocks_def processSliceEdges_def last_nodes_def map_filter_simps)

lemma process_relations_targets:
  assumes ok: "dg_ok D opts" and n: "dg_nodes D n = Some dn"
  shows "process_relations D opts sn dn st =
    ofold (\<lambda>(k, m). process_edge D sn k m) (node_targets D (sg_direction (wk_graph st)) opts dn) st"
proof -
  let ?f = "\<lambda>(k, m). process_edge D sn k m"
  let ?dir = "sg_direction (wk_graph st)"
  have E: "(if has_flag opts f then processSliceEdges D sn kind ns else Some) =
    ofold ?f (if has_flag opts f then map (Pair kind) ns else [])" for f kind ns
    by (simp add: processSliceEdges_def ofold_map comp_def)
  have C: "(if has_flag opts f then Option.bind (processSliceEdges D sn ControlDependence ns s)
      (\<lambda>st'. Option.bind (dn_block dn) (\<lambda>b. Option.bind (dg_blocks D b) (\<lambda>block. processControlBlocks D sn (in_order ?dir (blocks block)) st')))
    else Some s) = ofold ?f (if has_flag opts f then map (Pair ControlDependence) (ns @
       (case Option.bind (dn_block dn) (dg_blocks D) of None \<Rightarrow> [] | Some block \<Rightarrow> last_nodes D (in_order ?dir (blocks block)))) else []) s"
    if f: "f = NODES_WALK_CD \<and> blocks = db_control \<or> f = NODES_WALK_REV_CD \<and> blocks = db_rev_control" for f ns blocks s
  proof (cases "has_flag opts f")
    case True
    then obtain b block where b: "dn_block dn = Some b" "dg_blocks D b = Some block" "set (blocks block) \<subseteq> dom (dg_blocks D)"
      using ok n f unfolding dg_ok_def by blast
    then show ?thesis using True
      by (simp add: processControlBlocks_last_nodes ofold_append' processSliceEdges_def ofold_map comp_def)
  qed simp
  show ?thesis
    unfolding process_relations_def node_targets_def Let_def ofold_append' E
    by (subst C, blast, subst C, blast) (simp add: bind_assoc)
qed

section \<open>Processing the relations of one node\<close>

text \<open>The edges from the value \<open>v\<close> to the sliced values of the targets, and what processing targets does to the state.\<close>

definition target_edges :: "'v dependence_graph \<Rightarrow> 'v \<Rightarrow> (slice_dependence \<times> nat) set \<Rightarrow> ('v \<times> slice_dependence \<times> 'v) set" where
  "target_edges D v T = {(v, k, w) |k w. v \<noteq> w \<and> (\<exists>m. (k, m) \<in> T \<and> sliced_value D m = Some w)}"

definition ends :: "('v \<times> slice_dependence \<times> 'v) set \<Rightarrow> ('v \<times> 'v) set" where
  "ends E = (\<lambda>(v, k, w). (v, w)) ` E"

definition visits :: "nat set \<Rightarrow> 'v walk_state \<Rightarrow> 'v walk_state \<Rightarrow> bool" where
  "visits M st st' \<longleftrightarrow> (\<exists>new. wk_seen st' = new @ wk_seen st \<and> wk_queue st' = new @ wk_queue st \<and> distinct new \<and>
     set new = M - set (wk_seen st))"

definition sliced :: "'v dependence_graph \<Rightarrow> nat set" where
  "sliced D = dom (sliced_value D)"

text \<open>Processing the targets \<open>T\<close> of a node of value \<open>v\<close>.\<close>

definition grows :: "'v slice_graph \<Rightarrow> 'v slice_graph \<Rightarrow> bool" where
  "grows g g' \<longleftrightarrow> graph_wf g' \<and> sg_direction g' = sg_direction g \<and> sg_root g' = sg_root g \<and> sg_node_map g \<subseteq>\<^sub>m sg_node_map g'"

definition extends :: "'v dependence_graph \<Rightarrow> 'v \<Rightarrow> (slice_dependence \<times> nat) set \<Rightarrow> 'v walk_state \<Rightarrow> 'v walk_state \<Rightarrow> bool" where
  "extends D v T st st' \<longleftrightarrow> grows (wk_graph st) (wk_graph st') \<and>
     graph_values (wk_graph st') = graph_values (wk_graph st) \<union> {w. \<exists>m \<in> snd ` T. sliced_value D m = Some w} \<and>
     graph_edges (wk_graph st) \<subseteq> graph_edges (wk_graph st') \<and>
     graph_edges (wk_graph st') \<subseteq> graph_edges (wk_graph st) \<union> target_edges D v T \<and>
     ends (target_edges D v T) \<subseteq> ends (graph_edges (wk_graph st')) \<and>
     visits (snd ` T \<inter> sliced D) st st' \<and> wk_node_slice st' = wk_node_slice st"

lemma extendsD:
  assumes "extends D v T st st'"
  shows "grows (wk_graph st) (wk_graph st')"
    and "graph_values (wk_graph st') = graph_values (wk_graph st) \<union> {w. \<exists>m \<in> snd ` T. sliced_value D m = Some w}"
    and "graph_edges (wk_graph st) \<subseteq> graph_edges (wk_graph st')"
    and "graph_edges (wk_graph st') \<subseteq> graph_edges (wk_graph st) \<union> target_edges D v T"
    and "ends (target_edges D v T) \<subseteq> ends (graph_edges (wk_graph st'))"
    and "visits (snd ` T \<inter> sliced D) st st'" and "wk_node_slice st' = wk_node_slice st"
  using assms unfolding extends_def by simp_all

lemma growsD:
  assumes "grows g g'"
  shows "graph_wf g'" and "sg_direction g' = sg_direction g" and "sg_root g' = sg_root g"
    and "\<And>v n. sg_node_map g v = Some n \<Longrightarrow> sg_node_map g' v = Some n"
proof -
  show "graph_wf g'" "sg_direction g' = sg_direction g" "sg_root g' = sg_root g" using assms unfolding grows_def by blast+
  have "sg_node_map g \<subseteq>\<^sub>m sg_node_map g'" using assms unfolding grows_def by blast
  then show "\<And>v n. sg_node_map g v = Some n \<Longrightarrow> sg_node_map g' v = Some n" by (metis map_le_def domI)
qed

lemma grows_refl: "graph_wf g \<Longrightarrow> grows g g"
  by (simp add: grows_def)

lemma grows_trans: "grows g g1 \<Longrightarrow> grows g1 g2 \<Longrightarrow> grows g g2"
  unfolding grows_def by (auto intro: map_le_trans)

lemma visits_refl: "visits {} st st"
  by (simp add: visits_def)

lemma visits_trans: "visits M st st1 \<Longrightarrow> visits N st1 st2 \<Longrightarrow> visits (M \<union> N) st st2"
  unfolding visits_def by fastforce

lemma extends_refl: "graph_wf (wk_graph st) \<Longrightarrow> extends D v {} st st"
  by (simp add: extends_def target_edges_def ends_def grows_refl visits_refl)

lemma ends_mono: "E \<subseteq> F \<Longrightarrow> ends E \<subseteq> ends F"
  by (simp add: ends_def image_mono)

lemma target_edges_Un: "target_edges D v (S \<union> T) = target_edges D v S \<union> target_edges D v T"
  by (auto simp: target_edges_def)

lemma extends_trans:
  assumes 1: "extends D v S st st1" and 2: "extends D v T st1 st2"
  shows "extends D v (S \<union> T) st st2"
  unfolding extends_def
proof (intro conjI)
  show "grows (wk_graph st) (wk_graph st2)" using grows_trans [OF extendsD(1) [OF 1] extendsD(1) [OF 2]] .
  show "graph_values (wk_graph st2) = graph_values (wk_graph st) \<union> {w. \<exists>m \<in> snd ` (S \<union> T). sliced_value D m = Some w}"
    using extendsD(2) [OF 1] extendsD(2) [OF 2] by auto
  show "graph_edges (wk_graph st) \<subseteq> graph_edges (wk_graph st2)" using extendsD(3) [OF 1] extendsD(3) [OF 2] by simp
  show "graph_edges (wk_graph st2) \<subseteq> graph_edges (wk_graph st) \<union> target_edges D v (S \<union> T)"
    using extendsD(4) [OF 1] extendsD(4) [OF 2] unfolding target_edges_Un by blast
  show "ends (target_edges D v (S \<union> T)) \<subseteq> ends (graph_edges (wk_graph st2))"
    using extendsD(5) [OF 1] extendsD(5) [OF 2] ends_mono [OF extendsD(3) [OF 2]] by (simp add: target_edges_Un ends_def image_Un)
  show "visits (snd ` (S \<union> T) \<inter> sliced D) st st2"
    using visits_trans [OF extendsD(6) [OF 1] extendsD(6) [OF 2]] by (simp add: image_Un Int_Un_distrib2)
  show "wk_node_slice st2 = wk_node_slice st" using extendsD(7) [OF 1] extendsD(7) [OF 2] by simp
qed

lemma process_edge_extends:
  assumes wf: "graph_wf (wk_graph st)" and v: "sg_node_map (wk_graph st) v = Some sn" and m: "m \<in> dom (dg_nodes D)"
  shows "\<exists>st'. process_edge D sn k m st = Some st' \<and> extends D v {(k, m)} st st'"
proof (cases "sliced_value D m")
  case None
  then have "process_edge D sn k m st = Some st"
    using m by (auto simp: process_edge_def sliced_value_def split: option.splits if_splits)
  then show ?thesis using None wf
    by (simp add: extends_def target_edges_def ends_def grows_refl visits_refl sliced_def domIff)
next
  case (Some w)
  obtain sn2 g1 where g1: "getOrCreateNode (wk_graph st) w = (sn2, g1)" by fastforce
  note G = getOrCreateNode_wf [OF wf g1] getOrCreateNode_graph [OF wf g1]
  obtain b g2 where g2: "connect g1 sn sn2 k = Some (b, g2)" "graph_wf g2" "sg_node_map g2 = sg_node_map g1"
    "sg_direction g2 = sg_direction g1" "sg_root g2 = sg_root g1" "node_value g2 = node_value g1" "graph_edges g1 \<subseteq> graph_edges g2"
    "graph_edges g2 \<subseteq> graph_edges g1 \<union> {(v, k, w) |_::unit. v \<noteq> w}" "v \<noteq> w \<Longrightarrow> \<exists>k'. (v, k', w) \<in> graph_edges g2"
    using connect_graph [OF G(1) G(7) [OF v] G(2)] by metis
  let ?st = "enqueue m (st\<lparr>wk_graph := g2\<rparr>)"
  have r: "process_edge D sn k m st = Some ?st"
    using Some g1 g2(1) by (auto simp: process_edge_def sliced_value_def split: option.splits if_splits Option.bind_splits)
  have "extends D v {(k, m)} st ?st"
    unfolding extends_def
  proof (intro conjI)
    have T: "target_edges D v {(k, m)} = {(v, k, w) |_::unit. v \<noteq> w}" using Some by (auto simp: target_edges_def)
    have g: "wk_graph ?st = g2" by (simp add: enqueue_def)
    show "grows (wk_graph st) (wk_graph ?st)" using G(7-9) g2(2-5) unfolding g grows_def map_le_def by auto
    show "graph_values (wk_graph ?st) = graph_values (wk_graph st) \<union> {w. \<exists>m \<in> snd ` {(k, m)}. sliced_value D m = Some w}"
      using G(5) g2(3) Some unfolding g by (auto simp: graph_values_def)
    show "graph_edges (wk_graph st) \<subseteq> graph_edges (wk_graph ?st)" using g2(7) G(6) unfolding g by simp
    show "graph_edges (wk_graph ?st) \<subseteq> graph_edges (wk_graph st) \<union> target_edges D v {(k, m)}" using g2(8) G(6) unfolding g T by simp
    show "ends (target_edges D v {(k, m)}) \<subseteq> ends (graph_edges (wk_graph ?st))" using g2(9) unfolding g T by (force simp: ends_def)
    show "visits (snd ` {(k, m)} \<inter> sliced D) st ?st" using Some by (auto simp: visits_def enqueue_def sliced_def)
    show "wk_node_slice ?st = wk_node_slice st" by (simp add: enqueue_def)
  qed
  then show ?thesis using r by blast
qed

lemma process_targets_extends:
  assumes "graph_wf (wk_graph st)" and "sg_node_map (wk_graph st) v = Some sn" and "snd ` set ts \<subseteq> dom (dg_nodes D)"
  shows "\<exists>st'. ofold (\<lambda>(k, m). process_edge D sn k m) ts st = Some st' \<and> extends D v (set ts) st st'"
  using assms
proof (induction ts arbitrary: st)
  case Nil
  then show ?case using extends_refl by auto
next
  case (Cons t ts)
  obtain k m where t: "t = (k, m)" by fastforce
  obtain st1 where st1: "process_edge D sn k m st = Some st1" "extends D v {(k, m)} st st1"
    using process_edge_extends [OF Cons.prems(1,2), of m D k] Cons.prems(3) t by auto
  have "graph_wf (wk_graph st1)" "sg_node_map (wk_graph st1) v = Some sn"
    using growsD(1,4) [OF extendsD(1) [OF st1(2)]] Cons.prems(2) by blast+
  from Cons.IH [OF this] obtain st2 where "ofold (\<lambda>(k, m). process_edge D sn k m) ts st1 = Some st2" "extends D v (set ts) st1 st2"
    using Cons.prems(3) by auto
  then show ?case using st1 extends_trans [OF st1(2)] t by auto
qed

section \<open>The walk returns\<close>

definition walk_steps :: "'v dependence_graph \<Rightarrow> slice_direction \<Rightarrow> flags \<Rightarrow> (nat \<times> nat) set" where
  "walk_steps D dir opts = {(n, m). n \<in> sliced D \<and> m \<in> sliced D \<and> m \<in> snd ` set (node_targets D dir opts (the (dg_nodes D n)))}"

definition walk_reach :: "'v dependence_graph \<Rightarrow> slice_direction \<Rightarrow> flags \<Rightarrow> nat \<Rightarrow> nat set" where
  "walk_reach D dir opts start = (walk_steps D dir opts)\<^sup>* `` {start}"

definition relation_edges :: "'v dependence_graph \<Rightarrow> slice_direction \<Rightarrow> flags \<Rightarrow> nat set \<Rightarrow> ('v \<times> slice_dependence \<times> 'v) set" where
  "relation_edges D dir opts N =
     (\<Union>n \<in> N \<inter> sliced D. target_edges D (the (sliced_value D n)) (set (node_targets D dir opts (the (dg_nodes D n)))))"

definition reached_values :: "'v dependence_graph \<Rightarrow> nat set \<Rightarrow> 'v set" where
  "reached_values D N = {w. \<exists>n \<in> N. sliced_value D n = Some w}"

definition walk_inv :: "'v dependence_graph \<Rightarrow> slice_direction \<Rightarrow> flags \<Rightarrow> nat \<Rightarrow> 'v \<Rightarrow> nat \<Rightarrow> 'v walk_state \<Rightarrow> bool" where
  "walk_inv D dir opts start root_val slice_id st \<longleftrightarrow> (let g = wk_graph st; seen = set (wk_seen st); P = seen - set (wk_queue st) in
     graph_wf g \<and> sg_direction g = dir \<and> sg_node_map g root_val = Some (sg_root g) \<and>
     start \<in> seen \<and> seen \<subseteq> walk_reach D dir opts start \<and> set (wk_queue st) \<subseteq> seen \<and> distinct (wk_queue st) \<and>
     walk_steps D dir opts `` P \<subseteq> seen \<and>
     graph_values g = insert root_val (reached_values D seen) \<and>
     graph_edges g \<subseteq> relation_edges D dir opts P \<and> ends (relation_edges D dir opts P) \<subseteq> ends (graph_edges g) \<and>
     wk_node_slice st = (\<lambda>n. if n \<in> P \<inter> sliced D \<and> opts \<noteq> 0 then Some slice_id else None))"

lemma has_flag_0 [simp]: "\<not> has_flag 0 f"
  by (simp add: has_flag_def)

lemma node_targets_0 [simp]: "node_targets D dir 0 dn = []"
  by (simp add: node_targets_def Let_def)

lemma sliced_dom: "n \<in> sliced D \<Longrightarrow> n \<in> dom (dg_nodes D)"
  by (auto simp: sliced_def sliced_value_def split: Option.bind_splits)

lemma node_targets_dom:
  assumes "dg_ok D opts" and "dg_nodes D n = Some dn"
  shows "snd ` set (node_targets D dir opts dn) \<subseteq> dom (dg_nodes D)"
proof -
  have B: "n \<in> dom (dg_nodes D)" if "dg_blocks D b = Some block" "db_last_node block = Some n" for b block n
    using assms(1) that unfolding dg_ok_def by blast
  have "set (last_nodes D bs) \<subseteq> dom (dg_nodes D)" for bs
    unfolding last_nodes_def by (induction bs) (auto simp: map_filter_simps split: option.splits Option.bind_splits dest: B)
  then have L: "(\<Union>bs. set (last_nodes D bs)) \<subseteq> dom (dg_nodes D)" by blast
  have S: "set (dn_use dn) \<union> set (dn_user dn) \<union> set (dn_data dn) \<union> set (dn_rev_data dn) \<union> set (dn_control dn) \<union> set (dn_rev_control dn) \<union>
       set (dn_interference dn) \<union> set (dn_rev_interference dn) \<subseteq> dom (dg_nodes D)"
    using assms unfolding dg_ok_def by blast
  have E: "snd ` set (if f then map (Pair k) (in_order dir ns) else []) \<subseteq> set ns" for f :: bool and k :: slice_dependence and ns
    by auto
  have C: "snd ` set (if f then map (Pair k) (in_order dir ns @ (case ob of None \<Rightarrow> [] | Some block \<Rightarrow> last_nodes D (in_order dir (blocks block)))) else [])
     \<subseteq> set ns \<union> (\<Union>bs. set (last_nodes D bs))" for f :: bool and k :: slice_dependence and ns and ob :: "dg_block option" and blocks
    by (cases ob) auto
  show ?thesis
    unfolding node_targets_def Let_def set_append image_Un
    by (intro Un_least order_trans [OF E] order_trans [OF C] L) (use S in auto)
qed

lemma reach_step: "n \<in> walk_reach D dir opts start \<Longrightarrow> (n, m) \<in> walk_steps D dir opts \<Longrightarrow> m \<in> walk_reach D dir opts start"
  unfolding walk_reach_def by (auto intro: rtrancl.rtrancl_into_rtrancl)

lemma relation_edges_insert:
  "relation_edges D dir opts (insert n N) = relation_edges D dir opts N \<union>
     (if n \<in> sliced D then target_edges D (the (sliced_value D n)) (set (node_targets D dir opts (the (dg_nodes D n)))) else {})"
  by (auto simp: relation_edges_def)

lemma ends_Un: "ends (E \<union> F) = ends E \<union> ends F"
  by (simp add: ends_def image_Un)

lemma steps_of: "n \<in> sliced D \<Longrightarrow>
    walk_steps D dir opts `` {n} = snd ` set (node_targets D dir opts (the (dg_nodes D n))) \<inter> sliced D"
  "n \<notin> sliced D \<Longrightarrow> walk_steps D dir opts `` {n} = {}"
  by (auto simp: walk_steps_def)

text \<open>One round: what is left of the queue, and the nodes that are new.\<close>

lemma build_step_extends:
  assumes ok: "dg_ok D opts" and n: "n \<in> sliced D" and opts: "opts \<noteq> 0"
    and wf: "graph_wf (wk_graph st)" and sn: "sg_node_map (wk_graph st) (the (sliced_value D n)) \<noteq> None"
  shows "\<exists>dn st'. dg_nodes D n = Some dn \<and> build_step D opts slice_id n st = Some st' \<and>
    extends D (the (sliced_value D n)) (set (node_targets D (sg_direction (wk_graph st)) opts dn)) (mark_node slice_id n dn st) st'"
proof -
  obtain dn v opc where dn: "dg_nodes D n = Some dn" "dn_value dn = Some (v, opc)" "shouldSliceInst opc" "sliced_value D n = Some v"
    using n by (auto simp: sliced_def sliced_value_def split: Option.bind_splits if_splits)
  obtain m where m: "sg_node_map (wk_graph st) v = Some m" using sn dn(4) by auto
  let ?st = "mark_node slice_id n dn (st\<lparr>wk_dfs_order := wk_dfs_order st + 1\<rparr>)"
  have "\<exists>st'. ofold (\<lambda>(k, m'). process_edge D m k m') (node_targets D (sg_direction (wk_graph ?st)) opts dn) ?st = Some st' \<and>
     extends D v (set (node_targets D (sg_direction (wk_graph ?st)) opts dn)) ?st st'"
    by (rule process_targets_extends [OF _ _ node_targets_dom [OF ok dn(1)]]) (use wf m in \<open>simp_all add: mark_node_def\<close>)
  then obtain st' where st': "process_relations D opts m dn ?st = Some st'"
    "extends D v (set (node_targets D (sg_direction (wk_graph ?st)) opts dn)) ?st st'"
    using process_relations_targets [OF ok dn(1)] by metis
  have "build_step D opts slice_id n st = Some st'"
    using dn st'(1) m opts by (simp add: build_step_def getOrCreateNode_def mark_node_def)
  moreover have "extends D v (set (node_targets D (sg_direction (wk_graph st)) opts dn)) (mark_node slice_id n dn st) st'"
    using st'(2) by (simp add: extends_def visits_def mark_node_def)
  ultimately show ?thesis using dn by auto
qed

lemma build_step_skips:
  assumes "n \<in> dom (dg_nodes D)" and "n \<notin> sliced D \<or> opts = 0"
  shows "build_step D opts slice_id n st = Some (st\<lparr>wk_dfs_order := wk_dfs_order st + 1\<rparr>)"
proof (cases "opts = 0")
  case True
  then show ?thesis by (simp add: build_step_def)
next
  case False
  obtain dn where dn: "dg_nodes D n = Some dn" using assms(1) by auto
  have "sliced_value D n = None" using assms(2) False by (auto simp: sliced_def)
  then show ?thesis using dn False
    by (cases "dn_value dn") (auto simp: build_step_def sliced_value_def split: if_splits)
qed

lemma Image_insert: "r `` insert n P = r `` {n} \<union> r `` P"
  by auto

lemma walk_invD:
  assumes "walk_inv D dir opts start root_val slice_id st"
  shows "graph_wf (wk_graph st)" and "sg_direction (wk_graph st) = dir" and "sg_node_map (wk_graph st) root_val = Some (sg_root (wk_graph st))"
    and "start \<in> set (wk_seen st)" and "set (wk_seen st) \<subseteq> walk_reach D dir opts start" and "set (wk_queue st) \<subseteq> set (wk_seen st)"
    and "distinct (wk_queue st)" and "walk_steps D dir opts `` (set (wk_seen st) - set (wk_queue st)) \<subseteq> set (wk_seen st)"
    and "graph_values (wk_graph st) = insert root_val (reached_values D (set (wk_seen st)))"
    and "graph_edges (wk_graph st) \<subseteq> relation_edges D dir opts (set (wk_seen st) - set (wk_queue st))"
    and "ends (relation_edges D dir opts (set (wk_seen st) - set (wk_queue st))) \<subseteq> ends (graph_edges (wk_graph st))"
    and "wk_node_slice st = (\<lambda>n. if n \<in> (set (wk_seen st) - set (wk_queue st)) \<inter> sliced D \<and> opts \<noteq> 0 then Some slice_id else None)"
  using assms unfolding walk_inv_def Let_def by blast+

lemma finite_reach:
  assumes "dg_ok D opts"
  shows "finite (walk_reach D dir opts start)"
proof -
  have "walk_reach D dir opts start \<subseteq> insert start (sliced D)"
  proof
    fix n assume "n \<in> walk_reach D dir opts start"
    then have "(start, n) \<in> (walk_steps D dir opts)\<^sup>*" by (simp add: walk_reach_def)
    then show "n \<in> insert start (sliced D)" by (induction rule: rtrancl_induct) (auto simp: walk_steps_def)
  qed
  moreover have "finite (sliced D)"
    using assms sliced_dom finite_subset [of "sliced D" "dom (dg_nodes D)"] by (auto simp: dg_ok_def)
  ultimately show ?thesis by (meson finite_insert finite_subset)
qed

lemma card_newly_seen:
  assumes "finite R" and "distinct new" and "set new = M - seen" and "M \<subseteq> R"
  shows "length new + card (R - (set new \<union> seen)) = card (R - seen)"
proof -
  have "R - seen = set new \<union> (R - (set new \<union> seen))" using assms(3,4) by auto
  then have "card (R - seen) = card (set new) + card (R - (set new \<union> seen))"
    using card_Un_disjoint [of "set new" "R - (set new \<union> seen)"] assms(1) by auto
  then show ?thesis using assms(2) by (simp add: distinct_card)
qed

text \<open>A node without a value, or a walk without relations: only the order counter moves on.\<close>

lemma build_step_skip_inv:
  assumes ndom: "n \<in> dom (dg_nodes D)" and inv: "walk_inv D dir opts start root_val slice_id st" and q: "wk_queue st = n # rest"
    and skip: "\<not> (n \<in> sliced D \<and> opts \<noteq> 0)"
  shows "\<exists>st'. build_step D opts slice_id n (st\<lparr>wk_queue := rest\<rparr>) = Some st' \<and> walk_inv D dir opts start root_val slice_id st' \<and>
     length (wk_queue st') + card (walk_reach D dir opts start - set (wk_seen st')) <
     length (wk_queue st) + card (walk_reach D dir opts start - set (wk_seen st))"
proof -
  note I = walk_invD [OF inv]
  let ?P = "set (wk_seen st) - set (wk_queue st)"
  have nseen: "n \<in> set (wk_seen st)" and nrest: "n \<notin> set rest" and drest: "distinct rest" and rest: "set rest \<subseteq> set (wk_seen st)"
    using I(6,7) q by auto
  have P': "set (wk_seen st) - set rest = insert n ?P" using nseen nrest q by auto
  let ?st = "st\<lparr>wk_queue := rest, wk_dfs_order := wk_dfs_order st + 1\<rparr>"
  have st': "build_step D opts slice_id n (st\<lparr>wk_queue := rest\<rparr>) = Some ?st"
    using build_step_skips [OF ndom, of opts slice_id "st\<lparr>wk_queue := rest\<rparr>"] skip by simp
  have steps: "walk_steps D dir opts `` {n} = {}" using skip by (auto simp: walk_steps_def)
  have rel: "relation_edges D dir opts (insert n ?P) = relation_edges D dir opts ?P"
    using skip by (auto simp: relation_edges_insert target_edges_def)
  have "walk_inv D dir opts start root_val slice_id ?st"
    unfolding walk_inv_def Let_def
  proof (intro conjI)
    show "walk_steps D dir opts `` (set (wk_seen ?st) - set (wk_queue ?st)) \<subseteq> set (wk_seen ?st)"
      using I(8) steps Image_insert [of "walk_steps D dir opts" n ?P] by (simp add: P')
    show "wk_node_slice ?st = (\<lambda>m. if m \<in> (set (wk_seen ?st) - set (wk_queue ?st)) \<inter> sliced D \<and> opts \<noteq> 0 then Some slice_id else None)"
    proof -
      have "m \<in> insert n ?P \<inter> sliced D \<and> opts \<noteq> 0 \<longleftrightarrow> m \<in> ?P \<inter> sliced D \<and> opts \<noteq> 0" for m using skip by blast
      then have "wk_node_slice st = (\<lambda>m. if m \<in> insert n ?P \<inter> sliced D \<and> opts \<noteq> 0 then Some slice_id else None)"
        by (simp only: I(12))
      then show ?thesis by (simp add: P')
    qed
  qed (use I rest drest rel P' in simp_all)
  then show ?thesis using st' q by auto
qed

text \<open>A node with a value: its targets are added to the graph, and those seen for the first time to the queue.\<close>

lemma build_step_extend_inv:
  assumes ok: "dg_ok D opts" and inv: "walk_inv D dir opts start root_val slice_id st" and q: "wk_queue st = n # rest"
    and visit: "n \<in> sliced D" "opts \<noteq> 0"
  shows "\<exists>st'. build_step D opts slice_id n (st\<lparr>wk_queue := rest\<rparr>) = Some st' \<and> walk_inv D dir opts start root_val slice_id st' \<and>
     length (wk_queue st') + card (walk_reach D dir opts start - set (wk_seen st')) <
     length (wk_queue st) + card (walk_reach D dir opts start - set (wk_seen st))"
proof -
  note I = walk_invD [OF inv]
  let ?P = "set (wk_seen st) - set (wk_queue st)"
  have nseen: "n \<in> set (wk_seen st)" and nrest: "n \<notin> set rest" and drest: "distinct rest" and rest: "set rest \<subseteq> set (wk_seen st)"
    using I(6,7) q by auto
  have P': "set (wk_seen st) - set rest = insert n ?P" using nseen nrest q by auto
  have nreach: "n \<in> walk_reach D dir opts start" using I(5) nseen by auto
  let ?v = "the (sliced_value D n)"
  have v: "sliced_value D n = Some ?v" using visit by (auto simp: sliced_def)
  then have "?v \<in> graph_values (wk_graph st)" using I(9) nseen by (auto simp: reached_values_def)
  then have "sg_node_map (wk_graph (st\<lparr>wk_queue := rest\<rparr>)) ?v \<noteq> None" by (simp add: graph_values_def domIff)
  moreover have "n \<in> sliced D" "opts \<noteq> 0" "graph_wf (wk_graph (st\<lparr>wk_queue := rest\<rparr>))" using visit I(1) by simp_all
  ultimately obtain dn st' where dn: "dg_nodes D n = Some dn"
    and st': "build_step D opts slice_id n (st\<lparr>wk_queue := rest\<rparr>) = Some st'"
    and ext0: "extends D ?v (set (node_targets D (sg_direction (wk_graph (st\<lparr>wk_queue := rest\<rparr>))) opts dn))
      (mark_node slice_id n dn (st\<lparr>wk_queue := rest\<rparr>)) st'"
    using build_step_extends [OF ok, of n "st\<lparr>wk_queue := rest\<rparr>" slice_id] by blast
  have ext: "extends D ?v (set (node_targets D dir opts dn)) (mark_node slice_id n dn (st\<lparr>wk_queue := rest\<rparr>)) st'"
    using ext0 I(2) by simp
  let ?T = "set (node_targets D dir opts dn)" and ?M = "snd ` set (node_targets D dir opts dn) \<inter> sliced D"
  note E = extendsD [OF ext, unfolded mark_node_def, simplified] and Gr = growsD [OF extendsD(1) [OF ext], unfolded mark_node_def, simplified]
  obtain new where new: "wk_seen st' = new @ wk_seen st" "wk_queue st' = new @ rest" "distinct new" "set new = ?M - set (wk_seen st)"
    using E(6) by (auto simp: visits_def)
  have steps: "walk_steps D dir opts `` {n} = ?M" using steps_of(1) [of n D dir opts] visit dn by simp
  have Mreach: "?M \<subseteq> walk_reach D dir opts start" using reach_step [OF nreach] steps by blast
  have P: "set (wk_seen st') - set (wk_queue st') = insert n ?P" using new P' rest by auto
  have seen': "set (wk_seen st') = set (wk_seen st) \<union> ?M" using new by auto
  have rel: "relation_edges D dir opts (insert n ?P) = relation_edges D dir opts ?P \<union> target_edges D ?v ?T"
    using visit dn by (simp add: relation_edges_insert)
  have "walk_inv D dir opts start root_val slice_id st'"
    unfolding walk_inv_def Let_def P
  proof (intro conjI)
    show "graph_wf (wk_graph st')" "sg_direction (wk_graph st') = dir" using Gr(1,2) I(2) by simp_all
    show "sg_node_map (wk_graph st') root_val = Some (sg_root (wk_graph st'))" using Gr(3,4) I(3) by simp
    show "start \<in> set (wk_seen st')" "set (wk_seen st') \<subseteq> walk_reach D dir opts start" using I(4,5) Mreach seen' by auto
    show "set (wk_queue st') \<subseteq> set (wk_seen st')" "distinct (wk_queue st')" using new rest drest by auto
    show "walk_steps D dir opts `` (insert n ?P) \<subseteq> set (wk_seen st')" using I(8) steps seen' Image_insert [of "walk_steps D dir opts" n ?P] by auto
    show "graph_values (wk_graph st') = insert root_val (reached_values D (set (wk_seen st')))"
      using E(2) I(9) seen' by (auto simp: reached_values_def sliced_def)
    show "graph_edges (wk_graph st') \<subseteq> relation_edges D dir opts (insert n ?P)" using E(4) I(10) rel by auto
    show "ends (relation_edges D dir opts (insert n ?P)) \<subseteq> ends (graph_edges (wk_graph st'))"
      using E(5) I(11) ends_mono [OF E(3)] by (simp add: rel ends_Un)
    show "wk_node_slice st' = (\<lambda>m. if m \<in> insert n ?P \<inter> sliced D \<and> opts \<noteq> 0 then Some slice_id else None)"
    proof
      fix m
      have "wk_node_slice st' m = ((wk_node_slice st)(n \<mapsto> slice_id)) m" using E(7) by simp
      also have "\<dots> = (if m \<in> insert n ?P \<inter> sliced D \<and> opts \<noteq> 0 then Some slice_id else None)"
        using visit unfolding I(12) by (cases "m = n") simp_all
      finally show "wk_node_slice st' m = (if m \<in> insert n ?P \<inter> sliced D \<and> opts \<noteq> 0 then Some slice_id else None)" .
    qed
  qed
  moreover have "length new + card (walk_reach D dir opts start - set (wk_seen st')) = card (walk_reach D dir opts start - set (wk_seen st))"
    using card_newly_seen [OF finite_reach [OF ok] new(3,4) Mreach] new(1) by simp
  ultimately show ?thesis using st' q new(2) by auto
qed

lemma build_step_inv:
  assumes ok: "dg_ok D opts" and start: "start \<in> dom (dg_nodes D)" and inv: "walk_inv D dir opts start root_val slice_id st" and q: "wk_queue st = n # rest"
  shows "\<exists>st'. build_step D opts slice_id n (st\<lparr>wk_queue := rest\<rparr>) = Some st' \<and> walk_inv D dir opts start root_val slice_id st' \<and>
     length (wk_queue st') + card (walk_reach D dir opts start - set (wk_seen st')) <
     length (wk_queue st) + card (walk_reach D dir opts start - set (wk_seen st))"
proof -
  have "n \<in> walk_reach D dir opts start" using walk_invD(5,6) [OF inv] q by auto
  then have "n = start \<or> n \<in> sliced D" unfolding walk_reach_def by (auto elim: rtrancl.cases simp: walk_steps_def)
  then have "n \<in> dom (dg_nodes D)" using start sliced_dom by blast
  then show ?thesis using build_step_skip_inv [OF _ inv q] build_step_extend_inv [OF ok inv q] by blast
qed

lemma build_loop_returns:
  assumes ok: "dg_ok D opts" and start: "start \<in> dom (dg_nodes D)" and "walk_inv D dir opts start root_val slice_id st"
  shows "\<exists>st'. build_loop D opts slice_id st = Some st' \<and> walk_inv D dir opts start root_val slice_id st' \<and> wk_queue st' = []"
  using assms(3)
proof (induction "length (wk_queue st) + card (walk_reach D dir opts start - set (wk_seen st))" arbitrary: st rule: less_induct)
  case less
  show ?case
  proof (cases "wk_queue st")
    case Nil
    then show ?thesis using less.prems by (subst build_loop.simps) auto
  next
    case (Cons n rest)
    from build_step_inv [OF ok start less.prems Cons] less.hyps show ?thesis
      using Cons by (subst build_loop.simps) fastforce
  qed
qed

section \<open>Properties\<close>

lemma graph_values_new: "graph_values (new_graph v dir i) = {v}" "sg_node_map (new_graph v dir i) v = Some 0"
  by (auto simp: graph_values_def new_graph_def alloc_node_def addNode_def set_node_def new_node_def Let_def)

lemma graph_edges_new: "graph_edges (new_graph v dir i) = {}"
  by (auto simp: graph_edges_def new_graph_def alloc_node_def addNode_def set_node_def new_node_def Let_def split: if_splits)

lemma walk_inv_start:
  assumes "dg_nodes D start = Some dn" and "dn_value dn = Some (v, opc)"
  shows "walk_inv D dir opts start v slice_id (enqueue start \<lparr>wk_graph = new_graph v dir slice_id, wk_queue = [], wk_seen = [],
    wk_dfs_order = 0, wk_node_slice = Map.empty, wk_block_slice = Map.empty, wk_dg_slice = Map.empty\<rparr>)"
proof -
  have "reached_values D {start} \<subseteq> {v}"
    using assms by (auto simp: reached_values_def sliced_value_def split: if_splits)
  then have r: "insert v (reached_values D {start}) = {v}" by auto
  have none: "(\<lambda>x. None) = (\<lambda>n. if n = start \<and> n \<noteq> start \<and> n \<in> sliced D \<and> opts \<noteq> 0 then Some slice_id else None)"
    by (rule ext) simp
  show ?thesis
    using r none
    by (simp add: walk_inv_def Let_def enqueue_def new_graph_wf graph_values_new graph_edges_new walk_reach_def relation_edges_def ends_def)
qed

lemma build_final:
  assumes ok: "dg_ok D opts" and dn: "dg_nodes D start = Some dn" "dn_value dn = Some (v, opc)"
  obtains st where "build D dir opts start slice_id = Some (Some st)" and "walk_inv D dir opts start v slice_id st"
    and "wk_queue st = []" and "set (wk_seen st) = walk_reach D dir opts start"
    and "dom (wk_node_slice st) = (if opts = 0 then {} else walk_reach D dir opts start \<inter> sliced D)"
proof -
  have "start \<in> dom (dg_nodes D)" using dn by blast
  from build_loop_returns [OF ok this walk_inv_start [OF dn]] obtain st where
    st: "build_loop D opts slice_id (enqueue start \<lparr>wk_graph = new_graph v dir slice_id, wk_queue = [], wk_seen = [],
      wk_dfs_order = 0, wk_node_slice = Map.empty, wk_block_slice = Map.empty, wk_dg_slice = Map.empty\<rparr>) = Some st"
    "walk_inv D dir opts start v slice_id st" "wk_queue st = []" by blast
  note I = walk_invD [OF st(2)]
  have "m \<in> set (wk_seen st)" if "m \<in> walk_reach D dir opts start" for m
  proof -
    have "(start, m) \<in> (walk_steps D dir opts)\<^sup>*" using that by (simp add: walk_reach_def)
    then show ?thesis by (induction rule: rtrancl_induct) (use I(4,8) st(3) in auto)
  qed
  then have seen: "set (wk_seen st) = walk_reach D dir opts start" using I(5) by blast
  have "wk_node_slice st = (\<lambda>n. if n \<in> walk_reach D dir opts start \<inter> sliced D \<and> opts \<noteq> 0 then Some slice_id else None)"
    using I(12) st(3) seen by simp
  then have "dom (wk_node_slice st) = (if opts = 0 then {} else walk_reach D dir opts start \<inter> sliced D)"
    by (auto simp: dom_def split: if_splits)
  then show thesis using that [of st] st seen dn by (simp add: build_def)
qed

text \<open>
  C16: \<open>build\<close> returns on every finite dependence graph whose relations stay inside it and whose nodes have blocks when
  control dependencies are asked for. The slice graph is well-formed; its instructions are the start
  and the instructions reachable over the selected relations, its edges join exactly the pairs of
  different instructions that a selected relation joins, each with a kind that relates the two, and the nodes marked with the slice are the reachable ones.
\<close>

theorem build_covers:
  assumes "dg_ok D opts" and "dg_nodes D start = Some dn" and "dn_value dn = Some (v, opc)"
  shows "\<exists>st. build D dir opts start slice_id = Some (Some st) \<and> graph_wf (wk_graph st) \<and>
    graph_values (wk_graph st) = insert v (reached_values D (walk_reach D dir opts start)) \<and>
    graph_edges (wk_graph st) \<subseteq> relation_edges D dir opts (walk_reach D dir opts start) \<and>
    ends (graph_edges (wk_graph st)) = ends (relation_edges D dir opts (walk_reach D dir opts start)) \<and>
    (opts \<noteq> 0 \<longrightarrow> dom (wk_node_slice st) = walk_reach D dir opts start \<inter> sliced D)"
proof -
  obtain st where st: "build D dir opts start slice_id = Some (Some st)" "walk_inv D dir opts start v slice_id st"
    "wk_queue st = []" "set (wk_seen st) = walk_reach D dir opts start"
    "dom (wk_node_slice st) = (if opts = 0 then {} else walk_reach D dir opts start \<inter> sliced D)" by (rule build_final [OF assms])
  show ?thesis using st(1,3-5) walk_invD(1,9,10,11) [OF st(2)] ends_mono [OF walk_invD(10) [OF st(2)]] by (intro exI [of _ st] conjI) (simp_all add: subset_antisym)
qed

lemma graph_edges_steps:
  assumes wf: "graph_wf g" and "(u, k, w) \<in> graph_edges g" and n: "sg_node_map g u = Some n"
  obtains m where "(n, m) \<in> dep_steps func_of True g" and "sg_node_map g w = Some m"
proof -
  obtain nd e where nd: "sg_heap g n = Some nd" "e \<in> set (nd_edges nd)" "w = node_value g (se_target e)"
    using assms(2) n by (auto simp: graph_edges_def)
  have "n \<in> set (sg_nodes g)" using graph_wfD(4) [OF wf n] by simp
  then have "se_target e \<in> set (sg_nodes g)" using graph_wfD(3) [OF wf] nd(1,2) by (fastforce simp: node_wf_def)
  then have "sg_node_map g w = Some (se_target e)" using node_map_value [OF wf] nd(3) by simp
  moreover have "(n, se_target e) \<in> dep_steps func_of True g" using nd(1,2) by (auto simp: dep_steps_def allowed_def)
  ultimately show thesis using that by blast
qed

lemma dep_reach_step: "n \<in> dep_reach func_of ip g \<Longrightarrow> (n, m) \<in> dep_steps func_of ip g \<Longrightarrow> m \<in> dep_reach func_of ip g"
  unfolding dep_reach_def by (auto intro: rtrancl.rtrancl_into_rtrancl)

lemma walk_inv_connected:
  assumes inv: "walk_inv D dir opts start v slice_id st" and "wk_queue st = []" and "set (wk_seen st) = walk_reach D dir opts start"
    and n: "n \<in> walk_reach D dir opts start" and w: "sliced_value D n = Some w" and start: "sliced_value D start \<in> {None, Some v}"
  shows "\<exists>i \<in> dep_reach func_of True (wk_graph st). sg_node_map (wk_graph st) w = Some i"
proof -
  let ?g = "wk_graph st"
  note I = walk_invD [OF inv, unfolded assms(2,3), simplified]
  have "(start, n) \<in> (walk_steps D dir opts)\<^sup>*" using n by (simp add: walk_reach_def)
  then show ?thesis using w
  proof (induction arbitrary: w rule: rtrancl_induct)
    case base
    then have "w = v" using start by auto
    then show ?case using I(3) by (auto simp: dep_reach_def)
  next
    case (step n m)
    then obtain u where u: "sliced_value D n = Some u" by (auto simp: walk_steps_def sliced_def)
    obtain i where i: "i \<in> dep_reach func_of True ?g" "sg_node_map ?g u = Some i" using step.IH [OF u] by blast
    show ?case
    proof (cases "u = w")
      case True
      then show ?thesis using i by blast
    next
      case False
      have "n \<in> walk_reach D dir opts start" using step.hyps(1) by (simp add: walk_reach_def)
      moreover obtain k where "(k, m) \<in> set (node_targets D dir opts (the (dg_nodes D n)))" "n \<in> sliced D"
        using step.hyps(2) by (auto simp: walk_steps_def)
      ultimately have "(u, k, w) \<in> relation_edges D dir opts (walk_reach D dir opts start)"
        using u step.prems False unfolding relation_edges_def target_edges_def by (intro UN_I [of n]) auto
      then have "(u, w) \<in> ends (relation_edges D dir opts (walk_reach D dir opts start))" by (force simp: ends_def)
      then have "(u, w) \<in> ends (graph_edges ?g)" using walk_invD(11) [OF inv] assms(2,3) by auto
      then obtain k' where "(u, k', w) \<in> graph_edges ?g" by (auto simp: ends_def)
      then obtain j where "(i, j) \<in> dep_steps func_of True ?g" "sg_node_map ?g w = Some j"
        using graph_edges_steps [OF I(1) _ i(2)] by blast
      then show ?thesis using dep_reach_step [OF i(1)] by blast
    qed
  qed
qed

text \<open>A graph of four nodes: an instruction that depends on another, on a return without value and on a global.\<close>

definition plain_node :: "(nat \<times> inst_opcode) option \<Rightarrow> nat \<Rightarrow> nat dg_node" where
  "plain_node v b = \<lparr>dn_value = v, dn_use = [], dn_user = [], dn_data = [], dn_rev_data = [], dn_control = [], dn_rev_control = [],
     dn_interference = [], dn_rev_interference = [], dn_block = Some b, dn_dg = Some 0\<rparr>"

definition sample_dg :: "nat dependence_graph" where
  "sample_dg = \<lparr>dg_nodes = [0 \<mapsto> plain_node (Some (10, OtherInst)) 0\<lparr>dn_user := [1, 3], dn_rev_data := [2]\<rparr>,
       1 \<mapsto> plain_node (Some (11, OtherInst)) 1\<lparr>dn_user := [0]\<rparr>, 2 \<mapsto> plain_node (Some (12, Ret False)) 1, 3 \<mapsto> plain_node None 1],
     dg_blocks = [0 \<mapsto> \<lparr>db_control = [], db_rev_control = [1], db_first_node = Some 0, db_last_node = Some 0\<rparr>,
       1 \<mapsto> \<lparr>db_control = [0], db_rev_control = [], db_first_node = Some 3, db_last_node = Some 1\<rparr>]\<rparr>"

lemma sample_dg_ok: "dg_ok sample_dg opts"
  by (auto simp: dg_ok_def sample_dg_def plain_node_def)

theorem build_covers_witness:
  "(\<exists>st. build sample_dg Backward 0x58 0 1 = Some (Some st) \<and> graph_wf (wk_graph st)) \<and>
   map_option (map_option (\<lambda>st. (sg_nodes (wk_graph st), map (wk_node_slice st) [0, 1, 2, 3]))) (build sample_dg Backward 0x58 0 1) =
     Some (Some ([0, 1], [Some 1, Some 1, None, None]))"
proof
  have "dg_nodes sample_dg 0 = Some (plain_node (Some (10, OtherInst)) 0\<lparr>dn_user := [1, 3], dn_rev_data := [2]\<rparr>)" by (simp add: sample_dg_def)
  from build_covers [OF sample_dg_ok this, of 10 OtherInst Backward "0x58" 1]
  show "\<exists>st. build sample_dg Backward 0x58 0 1 = Some (Some st) \<and> graph_wf (wk_graph st)" by (auto simp: plain_node_def)
qed code_simp

end
