(* ===== verification/Marking.thy ===== *)
theory Marking
  imports DgWalk
begin

unbundle bit_operations_syntax

text \<open>
  The marking approach to slicing (\<open>DgWalkAndMark\<close> in \<open>analyzer/lib/Slicing/DgWalk.cpp\<close>), which runs the breadth-first walk \<open>NodesWalk::walk\<close> of
  the library dg (\<open>analyzer/third-party/dg/include/dg/analysis/legacy/NodesWalk.h\<close>, compiled with \<open>ENABLE_CFG\<close>). The lemmas show that
  it marks the nodes reachable over the selected relations, and that in the backward direction this includes everything the storing approach
  of the previous theory collects.
\<close>

section \<open>Operations\<close>

text \<open>\<open>mk_blocks\<close> is \<open>_markedBlocks\<close>; identifiers of slices are zero where none has been set.\<close>

record mark_state =
  mk_queue :: "nat list"
  mk_seen :: "nat list"
  mk_node_slice :: "nat \<Rightarrow> nat"
  mk_block_slice :: "nat \<Rightarrow> nat"
  mk_dg_slice :: "nat \<Rightarrow> nat"
  mk_blocks :: "nat list"

definition markSlice :: "slice_direction \<Rightarrow> nat \<Rightarrow> nat \<Rightarrow> 'v dg_node \<Rightarrow> mark_state \<Rightarrow> mark_state" where
  "markSlice dir slice_id n dn st = (let
     st1 = st\<lparr>mk_node_slice := (mk_node_slice st)(n := slice_id)\<rparr>;
     st2 = (case dn_block dn of None \<Rightarrow> st1
       | Some b \<Rightarrow> st1\<lparr>mk_block_slice := (mk_block_slice st1)(b := slice_id),
           mk_blocks := (if dir \<noteq> Backward then List.insert b (mk_blocks st1) else mk_blocks st1)\<rparr>)
   in case dn_dg dn of None \<Rightarrow> st2 | Some d \<Rightarrow> st2\<lparr>mk_dg_slice := (mk_dg_slice st2)(d := slice_id)\<rparr>)"

definition walk_enqueue :: "nat \<Rightarrow> mark_state \<Rightarrow> mark_state" where
  "walk_enqueue n st = (if n \<in> set (mk_seen st) then st else st\<lparr>mk_seen := n # mk_seen st, mk_queue := mk_queue st @ [n]\<rparr>)"

text \<open>
  The nodes the walk enqueues from a node, in its order. A block's missing first or last node is a null pointer that is
  enqueued all the same, which is undefined.
\<close>

definition block_targets :: "'v dependence_graph \<Rightarrow> 'v dg_node \<Rightarrow> (dg_block \<Rightarrow> nat list) \<Rightarrow> (dg_block \<Rightarrow> nat option) \<Rightarrow> nat list option" where
  "block_targets D dn blocks end_node = (case dn_block dn of None \<Rightarrow> Some []
    | Some b \<Rightarrow> do {
        block \<leftarrow> dg_blocks D b;
        those (map (\<lambda>c. Option.bind (dg_blocks D c) end_node) (blocks block))
      })"

definition walk_targets :: "'v dependence_graph \<Rightarrow> flags \<Rightarrow> 'v dg_node \<Rightarrow> nat list option" where
  "walk_targets D opts dn = do {
     let sel = (\<lambda>f ns. if has_flag opts f then ns else []);
     cd_blocks \<leftarrow> (if has_flag opts NODES_WALK_CD then block_targets D dn db_control db_first_node else Some []);
     rev_cd_blocks \<leftarrow> (if has_flag opts NODES_WALK_REV_CD then block_targets D dn db_rev_control db_last_node else Some []);
     Some (sel NODES_WALK_CD (dn_control dn) @ cd_blocks @ sel NODES_WALK_REV_CD (dn_rev_control dn) @ rev_cd_blocks @
       sel NODES_WALK_DD (dn_data dn) @ sel NODES_WALK_REV_DD (dn_rev_data dn) @
       sel NODES_WALK_USE (dn_use dn) @ sel NODES_WALK_USER (dn_user dn) @
       sel NODES_WALK_ID (dn_interference dn) @ sel NODES_WALK_REV_ID (dn_rev_interference dn))
   }"

definition walk_round :: "'v dependence_graph \<Rightarrow> slice_direction \<Rightarrow> flags \<Rightarrow> nat \<Rightarrow> nat \<Rightarrow> mark_state \<Rightarrow> mark_state option" where
  "walk_round D dir opts slice_id n st = do {
     dn \<leftarrow> dg_nodes D n;
     let st1 = markSlice dir slice_id n dn st;
     if opts = 0 then Some st1
     else map_option (\<lambda>ts. fold walk_enqueue ts st1) (walk_targets D opts dn)
   }"

partial_function (option) walk_loop :: "'v dependence_graph \<Rightarrow> slice_direction \<Rightarrow> flags \<Rightarrow> nat \<Rightarrow> mark_state \<Rightarrow> mark_state option" where
  "walk_loop D dir opts slice_id st = (case mk_queue st of [] \<Rightarrow> Some st
    | n # rest \<Rightarrow> Option.bind (walk_round D dir opts slice_id n (st\<lparr>mk_queue := rest\<rparr>)) (walk_loop D dir opts slice_id))"

declare walk_loop.simps [code]

text \<open>\<open>DgWalkAndMark::mark\<close>; the slice identifiers of an earlier walk are in the state it starts from, its queue is empty.\<close>

definition mark :: "'v dependence_graph \<Rightarrow> slice_direction \<Rightarrow> flags \<Rightarrow> nat list \<Rightarrow> nat \<Rightarrow> mark_state \<Rightarrow> mark_state option" where
  "mark D dir deps start slice_id st =
     walk_loop D dir (sliceRelationOpts dir deps) slice_id (fold walk_enqueue start (st\<lparr>mk_queue := [], mk_seen := []\<rparr>))"

section \<open>What the walk marks\<close>

definition mark_steps :: "'v dependence_graph \<Rightarrow> flags \<Rightarrow> (nat \<times> nat) set" where
  "mark_steps D opts = {(n, m). \<exists>dn ts. dg_nodes D n = Some dn \<and> walk_targets D opts dn = Some ts \<and> m \<in> set ts \<and> opts \<noteq> 0}"

definition mark_reach :: "'v dependence_graph \<Rightarrow> flags \<Rightarrow> nat set \<Rightarrow> nat set" where
  "mark_reach D opts S = (mark_steps D opts)\<^sup>* `` S"

text \<open>The relations lead to nodes of the graph and the blocks control dependencies lead to are not empty.\<close>

definition mark_ok :: "'v dependence_graph \<Rightarrow> flags \<Rightarrow> bool" where
  "mark_ok D opts \<longleftrightarrow> finite (dom (dg_nodes D)) \<and>
     (\<forall>n dn. dg_nodes D n = Some dn \<longrightarrow> (\<exists>ts. walk_targets D opts dn = Some ts \<and> set ts \<subseteq> dom (dg_nodes D)))"

lemma fold_walk_enqueue:
  "\<exists>new. mk_seen (fold walk_enqueue ts st) = rev new @ mk_seen st \<and> mk_queue (fold walk_enqueue ts st) = mk_queue st @ new \<and>
     distinct new \<and> set new = set ts - set (mk_seen st) \<and> mk_node_slice (fold walk_enqueue ts st) = mk_node_slice st"
proof (induction ts arbitrary: st)
  case (Cons t ts)
  show ?case
  proof (cases "t \<in> set (mk_seen st)")
    case True
    then show ?thesis using Cons [of st] by (auto simp: walk_enqueue_def)
  next
    case False
    let ?st = "st\<lparr>mk_seen := t # mk_seen st, mk_queue := mk_queue st @ [t]\<rparr>"
    have st: "walk_enqueue t st = ?st" using False by (simp add: walk_enqueue_def)
    obtain new where "mk_seen (fold walk_enqueue ts ?st) = rev new @ t # mk_seen st" "mk_queue (fold walk_enqueue ts ?st) = mk_queue st @ t # new"
      "distinct new" "set new = set ts - insert t (set (mk_seen st))" "mk_node_slice (fold walk_enqueue ts ?st) = mk_node_slice st"
      using Cons [of ?st] by auto
    then show ?thesis using False by (intro exI [of _ "t # new"]) (auto simp: st)
  qed
qed simp

lemma markSlice_simps [simp]:
  "mk_queue (markSlice dir i n dn st) = mk_queue st" "mk_seen (markSlice dir i n dn st) = mk_seen st"
  "mk_node_slice (markSlice dir i n dn st) = (mk_node_slice st)(n := i)"
  by (simp_all add: markSlice_def Let_def split: option.split)

definition mark_inv :: "'v dependence_graph \<Rightarrow> flags \<Rightarrow> nat set \<Rightarrow> nat \<Rightarrow> (nat \<Rightarrow> nat) \<Rightarrow> mark_state \<Rightarrow> bool" where
  "mark_inv D opts S slice_id old st \<longleftrightarrow> S \<subseteq> set (mk_seen st) \<and> set (mk_seen st) \<subseteq> mark_reach D opts S \<and>
     set (mk_queue st) \<subseteq> set (mk_seen st) \<and> distinct (mk_queue st) \<and>
     mark_steps D opts `` (set (mk_seen st) - set (mk_queue st)) \<subseteq> set (mk_seen st) \<and>
     (\<forall>n. mk_node_slice st n = (if n \<in> set (mk_seen st) - set (mk_queue st) then slice_id else old n))"

lemma mark_invD:
  assumes "mark_inv D opts S slice_id old st"
  shows "S \<subseteq> set (mk_seen st)" and "set (mk_seen st) \<subseteq> mark_reach D opts S" and "set (mk_queue st) \<subseteq> set (mk_seen st)"
    and "distinct (mk_queue st)" and "mark_steps D opts `` (set (mk_seen st) - set (mk_queue st)) \<subseteq> set (mk_seen st)"
    and "mk_node_slice st n = (if n \<in> set (mk_seen st) - set (mk_queue st) then slice_id else old n)"
  using assms unfolding mark_inv_def by blast+

lemma mark_reach_dom: "mark_ok D opts \<Longrightarrow> S \<subseteq> dom (dg_nodes D) \<Longrightarrow> mark_reach D opts S \<subseteq> dom (dg_nodes D)"
proof
  fix n assume ok: "mark_ok D opts" "S \<subseteq> dom (dg_nodes D)" and "n \<in> mark_reach D opts S"
  then obtain s where "s \<in> S" "(s, n) \<in> (mark_steps D opts)\<^sup>*" by (auto simp: mark_reach_def)
  from this(2,1) show "n \<in> dom (dg_nodes D)"
  proof (induction rule: rtrancl_induct)
    case base
    then show ?case using ok(2) by blast
  next
    case (step m n)
    then obtain dn ts where "dg_nodes D m = Some dn" "walk_targets D opts dn = Some ts" "n \<in> set ts" by (auto simp: mark_steps_def)
    then show ?case using ok(1) unfolding mark_ok_def by (metis option.inject subsetD)
  qed
qed

lemma walk_round_inv:
  assumes ok: "mark_ok D opts" and S: "S \<subseteq> dom (dg_nodes D)" and inv: "mark_inv D opts S slice_id old st" and q: "mk_queue st = n # rest"
  shows "\<exists>st'. walk_round D dir opts slice_id n (st\<lparr>mk_queue := rest\<rparr>) = Some st' \<and> mark_inv D opts S slice_id old st' \<and>
     length (mk_queue st') + card (mark_reach D opts S - set (mk_seen st')) <
     length (mk_queue st) + card (mark_reach D opts S - set (mk_seen st))"
proof -
  note I = mark_invD [OF inv]
  let ?P = "set (mk_seen st) - set (mk_queue st)"
  have nseen: "n \<in> set (mk_seen st)" and nrest: "n \<notin> set rest" and drest: "distinct rest" and rest: "set rest \<subseteq> set (mk_seen st)"
    using I(3,4) q by auto
  have nreach: "n \<in> mark_reach D opts S" using I(2) nseen by blast
  then obtain dn where dn: "dg_nodes D n = Some dn" using mark_reach_dom [OF ok S] by blast
  obtain ts where ts: "walk_targets D opts dn = Some ts" using ok dn unfolding mark_ok_def by blast
  let ?st = "markSlice dir slice_id n dn (st\<lparr>mk_queue := rest\<rparr>)" and ?T = "if opts = 0 then [] else ts"
  let ?st' = "fold walk_enqueue ?T ?st"
  have r: "walk_round D dir opts slice_id n (st\<lparr>mk_queue := rest\<rparr>) = Some ?st'" using dn ts by (simp add: walk_round_def)
  obtain new where new: "mk_seen ?st' = rev new @ mk_seen st" "mk_queue ?st' = rest @ new" "distinct new"
    "set new = set ?T - set (mk_seen st)" "mk_node_slice ?st' = (mk_node_slice st)(n := slice_id)"
    using fold_walk_enqueue [of ?T ?st] by auto
  have steps: "mark_steps D opts `` {n} = set ?T" using dn ts by (auto simp: mark_steps_def)
  have Treach: "set ?T \<subseteq> mark_reach D opts S"
    using nreach unfolding steps [symmetric] mark_reach_def by (auto intro: rtrancl.rtrancl_into_rtrancl)
  have P: "set (mk_seen ?st') - set (mk_queue ?st') = insert n ?P" using new q nseen nrest rest by auto
  have seen': "set (mk_seen ?st') = set (mk_seen st) \<union> set ?T" using new by auto
  have "mark_inv D opts S slice_id old ?st'"
    unfolding mark_inv_def P
  proof (intro conjI allI)
    show "S \<subseteq> set (mk_seen ?st')" "set (mk_seen ?st') \<subseteq> mark_reach D opts S" using I(1,2) Treach seen' by auto
    show "set (mk_queue ?st') \<subseteq> set (mk_seen ?st')" "distinct (mk_queue ?st')" using new rest drest by auto
    show "mark_steps D opts `` insert n ?P \<subseteq> set (mk_seen ?st')"
      using I(5) steps seen' Image_insert [of "mark_steps D opts" n ?P] by auto
    show "mk_node_slice ?st' m = (if m \<in> insert n ?P then slice_id else old m)" for m
      using I(6) [of m] by (simp add: new(5))
  qed
  moreover have "length new + card (mark_reach D opts S - set (mk_seen ?st')) = card (mark_reach D opts S - set (mk_seen st))"
  proof -
    have fin: "finite (mark_reach D opts S)"
      using ok mark_reach_dom [OF ok S] unfolding mark_ok_def by (meson finite_subset)
    have "mark_reach D opts S - set (mk_seen st) = set new \<union> (mark_reach D opts S - set (mk_seen ?st'))"
      using new(1,4) Treach by auto
    moreover have "set new \<inter> (mark_reach D opts S - set (mk_seen ?st')) = {}" using new(1) by auto
    ultimately show ?thesis using fin new(3) by (simp add: card_Un_disjoint distinct_card)
  qed
  ultimately show ?thesis using r q new(2) by (intro exI [of _ ?st']) simp
qed

lemma walk_loop_returns:
  assumes ok: "mark_ok D opts" and S: "S \<subseteq> dom (dg_nodes D)" and "mark_inv D opts S slice_id old st"
  shows "\<exists>st'. walk_loop D dir opts slice_id st = Some st' \<and> mark_inv D opts S slice_id old st' \<and> mk_queue st' = []"
  using assms(3)
proof (induction "length (mk_queue st) + card (mark_reach D opts S - set (mk_seen st))" arbitrary: st rule: less_induct)
  case less
  show ?case
  proof (cases "mk_queue st")
    case Nil
    then show ?thesis using less.prems by (subst walk_loop.simps) auto
  next
    case (Cons n rest)
    from walk_round_inv [OF ok S less.prems Cons, of dir] less.hyps show ?thesis
      using Cons by (subst walk_loop.simps) fastforce
  qed
qed

lemma mark_marks_reachable_lemma:
  assumes "mark_ok D (sliceRelationOpts dir deps)" and "set start \<subseteq> dom (dg_nodes D)"
  shows "\<exists>st'. mark D dir deps start slice_id st = Some st' \<and>
    mk_node_slice st' = (\<lambda>n. if n \<in> mark_reach D (sliceRelationOpts dir deps) (set start) then slice_id else mk_node_slice st n)"
proof -
  let ?opts = "sliceRelationOpts dir deps" and ?S = "set start"
  let ?st = "fold walk_enqueue start (st\<lparr>mk_queue := [], mk_seen := []\<rparr>)"
  obtain new where new: "mk_seen ?st = rev new" "mk_queue ?st = new" "distinct new" "set new = ?S" "mk_node_slice ?st = mk_node_slice st"
    using fold_walk_enqueue [of start "st\<lparr>mk_queue := [], mk_seen := []\<rparr>"] by auto
  have "mark_inv D ?opts ?S slice_id (mk_node_slice st) ?st"
    using new by (auto simp: mark_inv_def mark_reach_def)
  from walk_loop_returns [OF assms this] obtain st' where st': "mark D dir deps start slice_id st = Some st'"
    "mark_inv D ?opts ?S slice_id (mk_node_slice st) st'" "mk_queue st' = []" by (auto simp: mark_def)
  note I = mark_invD [OF st'(2)]
  have "n \<in> set (mk_seen st')" if reach: "n \<in> mark_reach D ?opts ?S" for n
  proof -
    obtain s where "s \<in> ?S" "(s, n) \<in> (mark_steps D ?opts)\<^sup>*" using reach by (auto simp: mark_reach_def)
    from this(2,1) show ?thesis by (induction rule: rtrancl_induct) (use I(1,5) st'(3) in auto)
  qed
  then have "set (mk_seen st') = mark_reach D ?opts ?S" using I(2) by blast
  then show ?thesis using I(6) st'(1,3) by auto
qed

section \<open>Properties\<close>

text \<open>
  C23: marking returns and sets the slice of exactly the nodes reachable from the start nodes over the selected relations; every other node
  keeps the identifier of an earlier slice.
\<close>

theorem mark_marks_reachable:
  assumes "mark_ok D (sliceRelationOpts dir deps)" and "set start \<subseteq> dom (dg_nodes D)"
  shows "\<exists>st'. mark D dir deps start slice_id st = Some st' \<and>
    mk_node_slice st' = (\<lambda>n. if n \<in> mark_reach D (sliceRelationOpts dir deps) (set start) then slice_id else mk_node_slice st n)"
  using mark_marks_reachable_lemma [OF assms] .

lemma has_flag_OR [simp]: "has_flag (a OR b) f \<longleftrightarrow> has_flag a f \<or> has_flag b f"
proof -
  have "(a OR b) AND f = (a AND f) OR (b AND f)" by (simp add: bit.conj_disj_distrib2)
  then show ?thesis by (auto simp: has_flag_def or_eq_0_iff)
qed

lemma has_flag_if: "has_flag (if c then x else 0) f \<longleftrightarrow> c \<and> has_flag x f"
  by simp

lemma relation_flags_all:
  "(has_flag (sliceRelationOpts dir deps) NODES_WALK_USE \<longleftrightarrow> dir \<noteq> Backward \<and> has_flag deps DEF_USE) \<and>
   (has_flag (sliceRelationOpts dir deps) NODES_WALK_USER \<longleftrightarrow> dir \<noteq> Forward \<and> has_flag deps DEF_USE) \<and>
   (has_flag (sliceRelationOpts dir deps) NODES_WALK_DD \<longleftrightarrow> dir \<noteq> Backward \<and> has_flag deps MEMORY) \<and>
   (has_flag (sliceRelationOpts dir deps) NODES_WALK_REV_DD \<longleftrightarrow> dir \<noteq> Forward \<and> has_flag deps MEMORY) \<and>
   (has_flag (sliceRelationOpts dir deps) NODES_WALK_CD \<longleftrightarrow> dir \<noteq> Backward \<and> has_flag deps CONTROL) \<and>
   (has_flag (sliceRelationOpts dir deps) NODES_WALK_REV_CD \<longleftrightarrow> dir \<noteq> Forward \<and> has_flag deps CONTROL) \<and>
   (has_flag (sliceRelationOpts dir deps) NODES_WALK_ID \<longleftrightarrow> dir \<noteq> Backward \<and> has_flag deps INTERFERENCE) \<and>
   (has_flag (sliceRelationOpts dir deps) NODES_WALK_REV_ID \<longleftrightarrow> dir \<noteq> Forward \<and> has_flag deps INTERFERENCE)"
proof -
  have F: "has_flag NODES_WALK_USE f \<longleftrightarrow> f AND 32 \<noteq> 0" "has_flag NODES_WALK_USER f \<longleftrightarrow> f AND 64 \<noteq> 0"
    "has_flag NODES_WALK_DD f \<longleftrightarrow> f AND 4 \<noteq> 0" "has_flag NODES_WALK_REV_DD f \<longleftrightarrow> f AND 16 \<noteq> 0"
    "has_flag NODES_WALK_CD f \<longleftrightarrow> f AND 2 \<noteq> 0" "has_flag NODES_WALK_REV_CD f \<longleftrightarrow> f AND 8 \<noteq> 0"
    "has_flag NODES_WALK_ID f \<longleftrightarrow> f AND 128 \<noteq> 0" "has_flag NODES_WALK_REV_ID f \<longleftrightarrow> f AND 256 \<noteq> 0" for f
    by (simp_all add: has_flag_def flag_defs and.commute)
  show ?thesis
    by (cases dir) (simp_all add: sliceRelationOpts_def has_flag_if F, simp_all add: flag_defs)
qed

text \<open>
  The relations walked are exactly those asked for: the flags of the walk select a relation of the forward family if its kind of dependence is
  asked for and the direction is not backward, and one of the backward family if the direction is not forward.
\<close>

theorem relation_flags:
  "(has_flag (sliceRelationOpts dir deps) NODES_WALK_USE \<longleftrightarrow> dir \<noteq> Backward \<and> has_flag deps DEF_USE) \<and>
   (has_flag (sliceRelationOpts dir deps) NODES_WALK_USER \<longleftrightarrow> dir \<noteq> Forward \<and> has_flag deps DEF_USE) \<and>
   (has_flag (sliceRelationOpts dir deps) NODES_WALK_DD \<longleftrightarrow> dir \<noteq> Backward \<and> has_flag deps MEMORY) \<and>
   (has_flag (sliceRelationOpts dir deps) NODES_WALK_REV_DD \<longleftrightarrow> dir \<noteq> Forward \<and> has_flag deps MEMORY) \<and>
   (has_flag (sliceRelationOpts dir deps) NODES_WALK_CD \<longleftrightarrow> dir \<noteq> Backward \<and> has_flag deps CONTROL) \<and>
   (has_flag (sliceRelationOpts dir deps) NODES_WALK_REV_CD \<longleftrightarrow> dir \<noteq> Forward \<and> has_flag deps CONTROL) \<and>
   (has_flag (sliceRelationOpts dir deps) NODES_WALK_ID \<longleftrightarrow> dir \<noteq> Backward \<and> has_flag deps INTERFERENCE) \<and>
   (has_flag (sliceRelationOpts dir deps) NODES_WALK_REV_ID \<longleftrightarrow> dir \<noteq> Forward \<and> has_flag deps INTERFERENCE)"
  by (rule relation_flags_all)

lemma those_nodes_Some: "those (map f xs) = Some ys \<Longrightarrow> set ys = {y. \<exists>x \<in> set xs. f x = Some y}"
  by (induction xs arbitrary: ys) (force split: option.splits)+

lemma walk_steps_mark_steps:
  assumes "mark_ok D opts" and cd: "\<not> has_flag opts NODES_WALK_CD"
  shows "walk_steps D dir opts \<subseteq> mark_steps D opts"
proof
  fix p assume walk: "p \<in> walk_steps D dir opts"
  obtain n m dn where p: "p = (n, m)" and dn: "dg_nodes D n = Some dn" and m: "m \<in> snd ` set (node_targets D dir opts dn)"
  proof -
    obtain n m where "p = (n, m)" "n \<in> sliced D" "m \<in> snd ` set (node_targets D dir opts (the (dg_nodes D n)))"
      using walk by (auto simp: walk_steps_def)
    moreover obtain dn where "dg_nodes D n = Some dn" using sliced_dom [OF \<open>n \<in> sliced D\<close>] by blast
    ultimately show thesis using that by simp
  qed
  obtain ts where ts: "walk_targets D opts dn = Some ts" using assms(1) dn unfolding mark_ok_def by blast
  have nz: "opts \<noteq> 0" using m by auto
  let ?sel = "\<lambda>f ns. if has_flag opts f then ns else []"
  obtain rs where rs: "(if has_flag opts NODES_WALK_REV_CD then block_targets D dn db_rev_control db_last_node else Some []) = Some rs"
    and ts': "ts = ?sel NODES_WALK_REV_CD (dn_rev_control dn) @ rs @ ?sel NODES_WALK_DD (dn_data dn) @ ?sel NODES_WALK_REV_DD (dn_rev_data dn) @
       ?sel NODES_WALK_USE (dn_use dn) @ ?sel NODES_WALK_USER (dn_user dn) @
       ?sel NODES_WALK_ID (dn_interference dn) @ ?sel NODES_WALK_REV_ID (dn_rev_interference dn)"
    using ts cd unfolding walk_targets_def by (simp split: Option.bind_splits)
  have "set (case Option.bind (dn_block dn) (dg_blocks D) of None \<Rightarrow> [] | Some block \<Rightarrow> last_nodes D (in_order dir (db_rev_control block))) \<subseteq> set rs"
    if "has_flag opts NODES_WALK_REV_CD"
  proof (cases "Option.bind (dn_block dn) (dg_blocks D)")
    case (Some block)
    then have "those (map (\<lambda>c. Option.bind (dg_blocks D c) db_last_node) (db_rev_control block)) = Some rs"
      using rs that by (cases "dn_block dn") (simp_all add: block_targets_def)
    from those_nodes_Some [OF this]
    have "set rs = {m. \<exists>c \<in> set (db_rev_control block). Option.bind (dg_blocks D c) db_last_node = Some m}" .
    moreover have "m \<in> set (last_nodes D bs) \<longleftrightarrow> (\<exists>c \<in> set bs. Option.bind (dg_blocks D c) db_last_node = Some m)" for m bs
      unfolding last_nodes_def by (induction bs) (auto simp: map_filter_simps split: option.splits)
    ultimately show ?thesis using Some by auto
  qed simp
  then have last: "x \<in> set rs" if "has_flag opts NODES_WALK_REV_CD"
    "x \<in> set (case Option.bind (dn_block dn) (dg_blocks D) of None \<Rightarrow> [] | Some block \<Rightarrow> last_nodes D (in_order dir (db_rev_control block)))" for x
    using that by blast
  have mem: "x \<in> set (if c then xs else []) \<longleftrightarrow> c \<and> x \<in> set xs" for x :: 'x and c xs by simp
  obtain k where "(k, m) \<in> set (node_targets D dir opts dn)" using m by auto
  then have "m \<in> set ts"
    unfolding ts' node_targets_def Let_def set_append Un_iff mem using cd last [of m] by auto
  then show "p \<in> mark_steps D opts" using p dn ts nz by (auto simp: mark_steps_def)
qed


lemma sample_mark_ok: "mark_ok sample_dg opts"
  by (auto simp: mark_ok_def sample_dg_def plain_node_def walk_targets_def block_targets_def)

definition no_marks :: mark_state where
  "no_marks = \<lparr>mk_queue = [], mk_seen = [], mk_node_slice = (\<lambda>_. 0), mk_block_slice = (\<lambda>_. 0), mk_dg_slice = (\<lambda>_. 0), mk_blocks = []\<rparr>"

theorem mark_marks_reachable_witness:
  "(\<exists>st'. mark sample_dg Backward 7 [0] 5 no_marks = Some st' \<and>
     (\<forall>n. mk_node_slice st' n \<in> {0, 5})) \<and>
   map_option (\<lambda>st. map (mk_node_slice st) [0, 1, 2, 3, 4]) (mark sample_dg Backward 7 [0] 5 no_marks) = Some [5, 5, 5, 5, 0]"
proof
  have "set [0] \<subseteq> dom (dg_nodes sample_dg)" by (simp add: sample_dg_def)
  from mark_marks_reachable [OF sample_mark_ok this, of Backward 7 5 no_marks]
  show "\<exists>st'. mark sample_dg Backward 7 [0] 5 no_marks = Some st' \<and> (\<forall>n. mk_node_slice st' n \<in> {0, 5})"
    by (auto simp: no_marks_def)
qed code_simp


end
