(* ===== verification/Slicer.thy ===== *)
theory Slicer
  imports Marking Options
begin

unbundle bit_operations_syntax

text \<open>
  The slicer on top of dg (\<open>analyzer/include/Slicing/Slicer.h\<close>, \<open>analyzer/lib/Slicing/Slicer.cpp\<close>): the options handed to the dependence graph
  builder, the state of the slicer, slicing from a node or an instruction, and the statistics. The builder
  itself is dg's; what it constructs, a graph per function, is an input. The lemmas show what the options select and
  that the statistics count exactly what a slice leaves out.
\<close>

section \<open>Options of the dependence graph\<close>

definition ENTRY_ONLY :: flags where "ENTRY_ONLY = 1"
definition INTRA_PROCEDURAL :: flags where "INTRA_PROCEDURAL = 2"
definition INTER_PROCEDURAL :: flags where "INTER_PROCEDURAL = 4"
definition ENABLE_PTA :: flags where "ENABLE_PTA = 8"
definition ENABLE_CONTROL_DEP :: flags where "ENABLE_CONTROL_DEP = 16"
definition SUPPORT_THREADS :: flags where "SUPPORT_THREADS = 32"

lemmas dg_flag_defs = ENTRY_ONLY_def INTRA_PROCEDURAL_def INTER_PROCEDURAL_def ENABLE_PTA_def ENABLE_CONTROL_DEP_def SUPPORT_THREADS_def

definition createDgFlags :: "dg_options \<Rightarrow> flags" where
  "createDgFlags options = (let
     f0 = 0;
     f1 = (if dg_entry_only options then f0 OR ENTRY_ONLY else f0);
     f2 = (if dg_enable_pta options then f1 OR ENABLE_PTA else f1);
     f3 = (if dg_enable_ctrl options \<or> dg_slice_ctrl options then f2 OR ENABLE_CONTROL_DEP else f2);
     f4 = (if dg_support_thread options then f3 OR SUPPORT_THREADS else f3);
     f5 = (if dg_intra_procedural options then f4 OR INTRA_PROCEDURAL else f4)
   in if dg_inter_procedural options then f5 OR INTER_PROCEDURAL else f5)"

datatype analysis_type = FlowSensitive | DataFlow

record analysis_options =
  an_threads :: bool
  an_intraProcedural :: bool
  an_entryOnly :: bool
  an_analysisType :: analysis_type
  an_fixedPointThreshold :: nat
  an_timeout :: nat

record 'f graph_options =
  go_entryFunction :: "'f option"
  go_intraProcedural :: bool
  go_entryOnly :: bool
  go_pointerAnalysis :: bool
  go_controlDependency :: bool
  go_threads :: bool
  go_verifyGraph :: bool
  go_PTAOptions :: analysis_options
  go_RDAOptions :: analysis_options

definition createDgOptions :: "flags \<Rightarrow> 'f option \<Rightarrow> 'f graph_options" where
  "createDgOptions dg_flags entry = (let
     intra = has_flag dg_flags INTRA_PROCEDURAL \<or> \<not> has_flag dg_flags INTER_PROCEDURAL;
     entry_only = has_flag dg_flags ENTRY_ONLY;
     threads = has_flag dg_flags SUPPORT_THREADS
   in \<lparr>go_entryFunction = entry, go_intraProcedural = intra, go_entryOnly = entry_only,
     go_pointerAnalysis = has_flag dg_flags ENABLE_PTA, go_controlDependency = has_flag dg_flags ENABLE_CONTROL_DEP,
     go_threads = threads, go_verifyGraph = False,
     go_PTAOptions = \<lparr>an_threads = threads, an_intraProcedural = intra, an_entryOnly = entry_only,
       an_analysisType = FlowSensitive, an_fixedPointThreshold = 500000, an_timeout = 30 * 60 * 1000\<rparr>,
     go_RDAOptions = \<lparr>an_threads = threads, an_intraProcedural = intra, an_entryOnly = entry_only,
       an_analysisType = DataFlow, an_fixedPointThreshold = 100000, an_timeout = 15 * 60 * 1000\<rparr>\<rparr>)"

section \<open>State\<close>

text \<open>What dg builds for a module: the graph of all nodes, and per function its nodes, exit and blocks.\<close>

record sub_graph =
  gd_nodes :: "nat list"
  gd_exit :: "nat option"
  gd_blocks :: "nat list"

record 'v module_graph =
  md_graph :: "'v dependence_graph"
  md_subgraphs :: "nat \<Rightarrow> sub_graph option"
  md_findNode :: "nat \<Rightarrow> 'v \<Rightarrow> nat option"

record slicer_statistics =
  nodesTotal :: "64 word"
  nodesRemoved :: "64 word"
  blocksTotal :: "32 word"
  blocksRemoved :: "32 word"
  funcsTotal :: "32 word"
  funcsRemoved :: "32 word"

text \<open>
  The slice identifiers set in the graph are part of the slicer's state: \<open>ds_marks\<close> keeps them between slices. \<open>ds_func_dgs\<close> is
  \<open>_funcDgMap\<close>, null until the dependencies are computed.
\<close>

record 'f dg_slicer =
  ds_direction :: slice_direction
  ds_last_slice_id :: "32 word"
  ds_dependency_computed :: bool
  ds_func_dgs :: "('f \<times> nat) list option"
  ds_marks :: mark_state
  ds_statistics :: slicer_statistics

section \<open>Operations\<close>

text \<open>\<open>constructed\<close> is what the builder constructs, or nothing if it fails.\<close>

definition computeDependencies :: "('f \<times> nat) list option \<Rightarrow> 'f dg_slicer \<Rightarrow> bool \<times> 'f dg_slicer" where
  "computeDependencies constructed ds = (if ds_dependency_computed ds then (True, ds)
     else case constructed of None \<Rightarrow> (False, ds)
     | Some funcs \<Rightarrow> (True, ds\<lparr>ds_func_dgs := Some funcs, ds_dependency_computed := True\<rparr>))"

text \<open>For a function without a graph the end iterator is dereferenced.\<close>

definition getDependenceGraph :: "'f dg_slicer \<Rightarrow> 'f \<Rightarrow> nat option option" where
  "getDependenceGraph ds func = (case ds_func_dgs ds of None \<Rightarrow> Some None
     | Some funcs \<Rightarrow> (case map_of funcs func of None \<Rightarrow> None | Some g \<Rightarrow> Some (Some g)))"

definition markSliceId :: "'v module_graph \<Rightarrow> nat \<Rightarrow> nat \<Rightarrow> flags \<Rightarrow> 'f dg_slicer \<Rightarrow> 'f dg_slicer option" where
  "markSliceId M start slice_id deps ds =
     map_option (\<lambda>ms. ds\<lparr>ds_marks := ms\<rparr>)
       (mark (md_graph M) (ds_direction ds) deps [start] slice_id (ds_marks ds\<lparr>mk_blocks := []\<rparr>))"

definition marks_of_walk :: "mark_state \<Rightarrow> 'v walk_state \<Rightarrow> mark_state" where
  "marks_of_walk ms st = ms\<lparr>mk_node_slice := (\<lambda>n. case wk_node_slice st n of None \<Rightarrow> mk_node_slice ms n | Some i \<Rightarrow> i),
     mk_block_slice := (\<lambda>n. case wk_block_slice st n of None \<Rightarrow> mk_block_slice ms n | Some i \<Rightarrow> i),
     mk_dg_slice := (\<lambda>n. case wk_dg_slice st n of None \<Rightarrow> mk_dg_slice ms n | Some i \<Rightarrow> i)\<rparr>"

definition count_node :: "mark_state \<Rightarrow> sub_graph \<Rightarrow> nat \<Rightarrow> nat \<Rightarrow> slicer_statistics \<Rightarrow> slicer_statistics" where
  "count_node ms graph slice_id node s = (if Some node = gd_exit graph then s
     else let s' = s\<lparr>nodesTotal := nodesTotal s + 1\<rparr>
       in if mk_node_slice ms node \<noteq> slice_id then s'\<lparr>nodesRemoved := nodesRemoved s' + 1\<rparr> else s')"

definition count_block :: "mark_state \<Rightarrow> nat \<Rightarrow> nat \<Rightarrow> slicer_statistics \<Rightarrow> slicer_statistics" where
  "count_block ms slice_id blk s = (let s' = s\<lparr>blocksTotal := blocksTotal s + 1\<rparr>
     in if mk_block_slice ms blk \<noteq> slice_id then s'\<lparr>blocksRemoved := blocksRemoved s' + 1\<rparr> else s')"

definition updateStatsSliceId :: "mark_state \<Rightarrow> nat \<Rightarrow> sub_graph \<Rightarrow> nat \<Rightarrow> slicer_statistics \<Rightarrow> slicer_statistics" where
  "updateStatsSliceId ms g graph slice_id stats = (let
     s1 = fold (count_node ms graph slice_id) (gd_nodes graph) stats;
     s2 = fold (count_block ms slice_id) (gd_blocks graph) s1;
     s3 = s2\<lparr>funcsTotal := funcsTotal s2 + 1\<rparr>
   in if mk_dg_slice ms g \<noteq> slice_id then s3\<lparr>funcsRemoved := funcsRemoved s3 + 1\<rparr> else s3)"

datatype slicing_approach = Storing | Marking

text \<open>
  Slicing from a node: the result is the slice graph or a null pointer, the slice identifier, and the slicer.
\<close>

definition slice_from_node ::
    "'v module_graph \<Rightarrow> nat \<Rightarrow> 32 word \<Rightarrow> slicing_approach \<Rightarrow> flags \<Rightarrow> 'f dg_slicer \<Rightarrow> ('v slice_graph option \<times> 32 word \<times> 'f dg_slicer) option" where
  "slice_from_node M start slice_id0 kind deps ds = do {
     let last = (if slice_id0 = 0 then ds_last_slice_id ds + 1 else ds_last_slice_id ds);
     let slice_id = (if slice_id0 = 0 then last else slice_id0);
     let ds1 = ds\<lparr>ds_last_slice_id := last\<rparr>;
     (result, ds2) \<leftarrow> (case kind of
         Storing \<Rightarrow> map_option (\<lambda>r. case r of None \<Rightarrow> (None, ds1)
             | Some st \<Rightarrow> (Some (wk_graph st), ds1\<lparr>ds_marks := marks_of_walk (ds_marks ds1) st\<rparr>))
           (buildSliceGraph (md_graph M) (ds_direction ds) start (unat slice_id) deps)
       | Marking \<Rightarrow> map_option (\<lambda>ds'. (None, ds')) (markSliceId M start (unat slice_id) deps ds1));
     funcs \<leftarrow> ds_func_dgs ds2;
     stats \<leftarrow> ofold (\<lambda>(_, g) s. map_option (\<lambda>graph. updateStatsSliceId (ds_marks ds2) g graph (unat slice_id) s) (md_subgraphs M g))
       funcs (ds_statistics ds2);
     Some (result, slice_id, ds2\<lparr>ds_statistics := stats\<rparr>)
   }"

definition slice_instr ::
    "('v \<Rightarrow> 'f) \<Rightarrow> 'v module_graph \<Rightarrow> 'v \<Rightarrow> 32 word \<Rightarrow> slicing_approach \<Rightarrow> flags \<Rightarrow> 'f dg_slicer \<Rightarrow>
     ('v slice_graph option \<times> 32 word \<times> 'f dg_slicer) option" where
  "slice_instr func_of M start slice_id kind deps ds = do {
     subdg \<leftarrow> getDependenceGraph ds (func_of start);
     case subdg of None \<Rightarrow> Some (None, slice_id, ds)
     | Some g \<Rightarrow> (case md_findNode M g start of None \<Rightarrow> Some (None, slice_id, ds)
        | Some node \<Rightarrow> slice_from_node M node slice_id kind deps ds)
   }"

text \<open>The traversals that call a function on what belongs to a slice.\<close>

definition walkNodeSliceId :: "mark_state \<Rightarrow> sub_graph \<Rightarrow> nat \<Rightarrow> (nat \<Rightarrow> 's \<Rightarrow> 's) \<Rightarrow> 's \<Rightarrow> 's" where
  "walkNodeSliceId ms graph slice_id func =
     fold (\<lambda>node s. if Some node = gd_exit graph then s else if mk_node_slice ms node = slice_id then func node s else s) (gd_nodes graph)"

definition walkBasicBlockSliceId :: "mark_state \<Rightarrow> sub_graph \<Rightarrow> nat \<Rightarrow> (nat \<Rightarrow> 's \<Rightarrow> 's) \<Rightarrow> 's \<Rightarrow> 's" where
  "walkBasicBlockSliceId ms graph slice_id func =
     fold (\<lambda>blk s. if mk_block_slice ms blk = slice_id then func blk s else s) (gd_blocks graph)"

definition walkFunctionSliceId :: "mark_state \<Rightarrow> nat \<Rightarrow> nat \<Rightarrow> (nat \<Rightarrow> 's \<Rightarrow> 's) \<Rightarrow> 's \<Rightarrow> 's" where
  "walkFunctionSliceId ms g slice_id func s = (if mk_dg_slice ms g = slice_id then func g s else s)"

text \<open>A missing callback is a null pointer; without a graph all functions are walked.\<close>

definition walk_one :: "mark_state \<Rightarrow> nat \<Rightarrow> nat \<Rightarrow> sub_graph \<Rightarrow> (nat \<Rightarrow> 's \<Rightarrow> 's) option \<Rightarrow> (nat \<Rightarrow> 's \<Rightarrow> 's) option \<Rightarrow>
    (nat \<Rightarrow> 's \<Rightarrow> 's) option \<Rightarrow> 's \<Rightarrow> 's" where
  "walk_one ms slice_id g graph nodeFunc bbFunc fnFunc s0 = (let
     s1 = (case nodeFunc of None \<Rightarrow> s0 | Some f \<Rightarrow> walkNodeSliceId ms graph slice_id f s0);
     s2 = (case bbFunc of None \<Rightarrow> s1 | Some f \<Rightarrow> walkBasicBlockSliceId ms graph slice_id f s1)
   in case fnFunc of None \<Rightarrow> s2 | Some f \<Rightarrow> walkFunctionSliceId ms g slice_id f s2)"

definition walkSliceId :: "'v module_graph \<Rightarrow> 'f dg_slicer \<Rightarrow> nat \<Rightarrow> nat option \<Rightarrow> (nat \<Rightarrow> 's \<Rightarrow> 's) option \<Rightarrow> (nat \<Rightarrow> 's \<Rightarrow> 's) option \<Rightarrow>
    (nat \<Rightarrow> 's \<Rightarrow> 's) option \<Rightarrow> 's \<Rightarrow> 's option" where
  "walkSliceId M ds slice_id graph nodeFunc bbFunc fnFunc s = (case graph of
      Some g \<Rightarrow> map_option (\<lambda>sub. walk_one (ds_marks ds) slice_id g sub nodeFunc bbFunc fnFunc s) (md_subgraphs M g)
    | None \<Rightarrow> Option.bind (ds_func_dgs ds) (\<lambda>funcs.
        ofold (\<lambda>(_, g) s. map_option (\<lambda>sub. walk_one (ds_marks ds) slice_id g sub nodeFunc bbFunc fnFunc s) (md_subgraphs M g)) funcs s))"

section \<open>Lemmas\<close>

definition left_nodes :: "mark_state \<Rightarrow> nat \<Rightarrow> sub_graph \<Rightarrow> nat list" where
  "left_nodes ms slice_id graph = filter (\<lambda>n. Some n \<noteq> gd_exit graph \<and> mk_node_slice ms n \<noteq> slice_id) (gd_nodes graph)"

definition all_nodes :: "sub_graph \<Rightarrow> nat list" where
  "all_nodes graph = filter (\<lambda>n. Some n \<noteq> gd_exit graph) (gd_nodes graph)"

lemma updateStats_nodes:
  "nodesTotal (updateStatsSliceId ms g graph i s) = nodesTotal s + of_nat (length (all_nodes graph))"
  "nodesRemoved (updateStatsSliceId ms g graph i s) = nodesRemoved s + of_nat (length (left_nodes ms i graph))"
proof -
  have B: "nodesTotal (fold (count_block ms i) bs s) = nodesTotal s" "nodesRemoved (fold (count_block ms i) bs s) = nodesRemoved s" for bs s
    by (induction bs arbitrary: s) (auto simp: count_block_def Let_def)
  have N: "nodesTotal (fold (count_node ms graph i) ns s) = nodesTotal s + of_nat (length (filter (\<lambda>n. Some n \<noteq> gd_exit graph) ns))"
    "nodesRemoved (fold (count_node ms graph i) ns s) =
      nodesRemoved s + of_nat (length (filter (\<lambda>n. Some n \<noteq> gd_exit graph \<and> mk_node_slice ms n \<noteq> i) ns))" for ns s
    by (induction ns arbitrary: s) (auto simp: count_node_def Let_def)
  show "nodesTotal (updateStatsSliceId ms g graph i s) = nodesTotal s + of_nat (length (all_nodes graph))"
    "nodesRemoved (updateStatsSliceId ms g graph i s) = nodesRemoved s + of_nat (length (left_nodes ms i graph))"
    by (simp_all add: N B updateStatsSliceId_def Let_def all_nodes_def left_nodes_def)
qed

lemma update_all_stats:
  assumes "\<forall>(f, g) \<in> set funcs. md_subgraphs M g \<noteq> None"
  shows "\<exists>stats. ofold (\<lambda>(_, g) s. map_option (\<lambda>graph. updateStatsSliceId ms g graph i s) (md_subgraphs M g)) funcs s = Some stats \<and>
    nodesTotal stats = nodesTotal s + of_nat (length (concat (map (\<lambda>(_, g). all_nodes (the (md_subgraphs M g))) funcs))) \<and>
    nodesRemoved stats = nodesRemoved s + of_nat (length (concat (map (\<lambda>(_, g). left_nodes ms i (the (md_subgraphs M g))) funcs)))"
  using assms
proof (induction funcs arbitrary: s)
  case (Cons p funcs)
  obtain f g where p: "p = (f, g)" by fastforce
  obtain graph where g: "md_subgraphs M g = Some graph" using Cons.prems p by auto
  from Cons.IH [of "updateStatsSliceId ms g graph i s"] show ?case
    using Cons.prems g p by (auto simp: updateStats_nodes)
qed simp

lemma slice_from_node_stores:
  assumes ok: "dg_ok (md_graph M) (sliceRelationOpts (ds_direction ds) deps)" and opts: "sliceRelationOpts (ds_direction ds) deps \<noteq> 0"
    and dn: "dg_nodes (md_graph M) start = Some dn" "dn_value dn = Some (v, opc)"
    and funcs: "ds_func_dgs ds = Some funcs" "\<forall>(f, g) \<in> set funcs. md_subgraphs M g \<noteq> None"
    and old: "\<forall>n. mk_node_slice (ds_marks ds) n \<le> unat (ds_last_slice_id ds)" "ds_last_slice_id ds + 1 \<noteq> 0"
  shows "\<exists>st ds'. slice_from_node M start 0 Storing deps ds = Some (Some (wk_graph st), ds_last_slice_id ds + 1, ds') \<and>
    walk_inv (md_graph M) (ds_direction ds) (sliceRelationOpts (ds_direction ds) deps) start v (unat (ds_last_slice_id ds + 1)) st \<and>
    wk_queue st = [] \<and> set (wk_seen st) = walk_reach (md_graph M) (ds_direction ds) (sliceRelationOpts (ds_direction ds) deps) start \<and>
    {n. mk_node_slice (ds_marks ds') n = unat (ds_last_slice_id ds + 1)} =
      walk_reach (md_graph M) (ds_direction ds) (sliceRelationOpts (ds_direction ds) deps) start \<inter> sliced (md_graph M) \<and>
    (\<forall>n. mk_node_slice (ds_marks ds') n \<le> unat (ds_last_slice_id ds')) \<and>
    nodesTotal (ds_statistics ds') = nodesTotal (ds_statistics ds) +
      of_nat (length (concat (map (\<lambda>(_, g). all_nodes (the (md_subgraphs M g))) funcs))) \<and>
    nodesRemoved (ds_statistics ds') = nodesRemoved (ds_statistics ds) +
      of_nat (length (concat (map (\<lambda>(_, g). left_nodes (ds_marks ds') (unat (ds_last_slice_id ds + 1)) (the (md_subgraphs M g))) funcs)))"
proof -
  let ?opts = "sliceRelationOpts (ds_direction ds) deps" and ?id = "unat (ds_last_slice_id ds + 1)"
  let ?R = "walk_reach (md_graph M) (ds_direction ds) ?opts start"
  have id: "?id = unat (ds_last_slice_id ds) + 1" using old(2) by (simp add: unatSuc add.commute)
  obtain st where st: "build (md_graph M) (ds_direction ds) ?opts start ?id = Some (Some st)"
    "walk_inv (md_graph M) (ds_direction ds) ?opts start v ?id st" "wk_queue st = []" "set (wk_seen st) = ?R"
    "dom (wk_node_slice st) = (if ?opts = 0 then {} else ?R \<inter> sliced (md_graph M))"
    by (rule build_final [OF ok dn])
  have marks: "wk_node_slice st n = (if n \<in> ?R \<inter> sliced (md_graph M) then Some ?id else None)" for n
    using walk_invD(12) [OF st(2)] st(3,4) opts by simp
  let ?ms = "marks_of_walk (ds_marks ds) st"
  have ms: "mk_node_slice ?ms n = (if n \<in> ?R \<inter> sliced (md_graph M) then ?id else mk_node_slice (ds_marks ds) n)" for n
    by (simp add: marks_of_walk_def marks)
  obtain stats where stats: "ofold (\<lambda>(_, g) s. map_option (\<lambda>graph. updateStatsSliceId ?ms g graph ?id s) (md_subgraphs M g)) funcs
      (ds_statistics ds) = Some stats"
    "nodesTotal stats = nodesTotal (ds_statistics ds) + of_nat (length (concat (map (\<lambda>(_, g). all_nodes (the (md_subgraphs M g))) funcs)))"
    "nodesRemoved stats = nodesRemoved (ds_statistics ds) +
      of_nat (length (concat (map (\<lambda>(_, g). left_nodes ?ms ?id (the (md_subgraphs M g))) funcs)))"
    using update_all_stats [OF funcs(2)] by blast
  let ?ds = "ds\<lparr>ds_last_slice_id := ds_last_slice_id ds + 1, ds_marks := ?ms, ds_statistics := stats\<rparr>"
  have "slice_from_node M start 0 Storing deps ds = Some (Some (wk_graph st), ds_last_slice_id ds + 1, ?ds)"
    using st(1) stats(1) funcs(1) old(2) by (simp add: slice_from_node_def buildSliceGraph_def Let_def)
  moreover have "{n. mk_node_slice ?ms n = ?id} = ?R \<inter> sliced (md_graph M)"
  proof -
    have "mk_node_slice (ds_marks ds) n \<noteq> ?id" for n using old(1) [rule_format, of n] id by simp
    then show ?thesis by (auto simp: ms)
  qed
  moreover have "\<forall>n. mk_node_slice ?ms n \<le> ?id" using old(1) id by (auto simp: ms intro: le_SucI)
  ultimately show ?thesis using st(2-4) stats(2,3) by (intro exI [of _ st] exI [of _ ?ds]) simp
qed

section \<open>Properties\<close>

text \<open>
  The dependence graph is built with what the command line asks for: intra-procedurally if that is asked for or inter-procedural is not, with
  control dependencies also if only the slices are to have them, and both analyses get the same threads, scope and entry settings, with their fixed limits.
\<close>

theorem graph_options_follow_command_line:
  "createDgOptions (createDgFlags o') entry = (let
     intra = dg_intra_procedural o' \<or> \<not> dg_inter_procedural o';
     analysis = \<lparr>an_threads = dg_support_thread o', an_intraProcedural = intra, an_entryOnly = dg_entry_only o',
       an_analysisType = FlowSensitive, an_fixedPointThreshold = 500000, an_timeout = 1800000\<rparr>
   in \<lparr>go_entryFunction = entry, go_intraProcedural = intra, go_entryOnly = dg_entry_only o', go_pointerAnalysis = dg_enable_pta o',
     go_controlDependency = (dg_enable_ctrl o' \<or> dg_slice_ctrl o'), go_threads = dg_support_thread o', go_verifyGraph = False,
     go_PTAOptions = analysis,
     go_RDAOptions = analysis\<lparr>an_analysisType := DataFlow, an_fixedPointThreshold := 100000, an_timeout := 900000\<rparr>\<rparr>)"
proof -
  have F: "createDgFlags o' = (if dg_entry_only o' then ENTRY_ONLY else 0) OR (if dg_enable_pta o' then ENABLE_PTA else 0) OR
    (if dg_enable_ctrl o' \<or> dg_slice_ctrl o' then ENABLE_CONTROL_DEP else 0) OR (if dg_support_thread o' then SUPPORT_THREADS else 0) OR
    (if dg_intra_procedural o' then INTRA_PROCEDURAL else 0) OR (if dg_inter_procedural o' then INTER_PROCEDURAL else 0)"
    by (simp add: createDgFlags_def Let_def or.assoc)
  have "has_flag (createDgFlags o') ENTRY_ONLY = dg_entry_only o'" "has_flag (createDgFlags o') ENABLE_PTA = dg_enable_pta o'"
    "has_flag (createDgFlags o') ENABLE_CONTROL_DEP = (dg_enable_ctrl o' \<or> dg_slice_ctrl o')"
    "has_flag (createDgFlags o') SUPPORT_THREADS = dg_support_thread o'"
    "has_flag (createDgFlags o') INTRA_PROCEDURAL = dg_intra_procedural o'"
    "has_flag (createDgFlags o') INTER_PROCEDURAL = dg_inter_procedural o'"
    by (simp_all add: F has_flag_if, simp_all add: has_flag_def dg_flag_defs)
  then show ?thesis by (simp add: createDgOptions_def Let_def)
qed

text \<open>
  C22: storing a slice from an instruction's node under a new identifier. The slicing returns a slice graph and the next identifier; the nodes that bear the
  identifier are exactly the reachable ones that belong into slices; identifiers in the graph stay below the next one; and
  the statistics grow by the nodes of all functions but their exits, and by those of them that are not in the slice.
\<close>

theorem slice_marks_and_counts:
  assumes ok: "dg_ok (md_graph M) (sliceRelationOpts (ds_direction ds) deps)" and opts: "sliceRelationOpts (ds_direction ds) deps \<noteq> 0"
    and dn: "dg_nodes (md_graph M) start = Some dn" "dn_value dn = Some (v, opc)"
    and funcs: "ds_func_dgs ds = Some funcs" "\<forall>(f, g) \<in> set funcs. md_subgraphs M g \<noteq> None"
    and old: "\<forall>n. mk_node_slice (ds_marks ds) n \<le> unat (ds_last_slice_id ds)" "ds_last_slice_id ds + 1 \<noteq> 0"
  shows "\<exists>g ds'. slice_from_node M start 0 Storing deps ds = Some (Some g, ds_last_slice_id ds + 1, ds') \<and>
    {n. mk_node_slice (ds_marks ds') n = unat (ds_last_slice_id ds + 1)} =
      walk_reach (md_graph M) (ds_direction ds) (sliceRelationOpts (ds_direction ds) deps) start \<inter> sliced (md_graph M) \<and>
    (\<forall>n. mk_node_slice (ds_marks ds') n \<le> unat (ds_last_slice_id ds')) \<and>
    nodesTotal (ds_statistics ds') = nodesTotal (ds_statistics ds) +
      of_nat (length (concat (map (\<lambda>(_, g). all_nodes (the (md_subgraphs M g))) funcs))) \<and>
    nodesRemoved (ds_statistics ds') = nodesRemoved (ds_statistics ds) +
      of_nat (length (concat (map (\<lambda>(_, g). left_nodes (ds_marks ds') (unat (ds_last_slice_id ds + 1)) (the (md_subgraphs M g))) funcs)))"
  using slice_from_node_stores [OF assms] by blast

definition sample_mgraph :: "nat module_graph" where
  "sample_mgraph = \<lparr>md_graph = sample_dg, md_subgraphs = [0 \<mapsto> \<lparr>gd_nodes = [0, 1, 2, 3], gd_exit = Some 3, gd_blocks = [0, 1]\<rparr>],
     md_findNode = (\<lambda>_ v. if v = 10 then Some 0 else if v = 11 then Some 1 else None)\<rparr>"

definition new_slicer :: "slice_direction \<Rightarrow> unit dg_slicer" where
  "new_slicer dir = snd (computeDependencies (Some [((), 0)]) \<lparr>ds_direction = dir, ds_last_slice_id = 0, ds_dependency_computed = False,
     ds_func_dgs = None, ds_marks = no_marks, ds_statistics = \<lparr>nodesTotal = 0, nodesRemoved = 0, blocksTotal = 0, blocksRemoved = 0,
     funcsTotal = 0, funcsRemoved = 0\<rparr>\<rparr>)"

lemma sample_mgraph_ok:
  "dg_ok (md_graph sample_mgraph) opts" "ds_direction (new_slicer dir) = dir" "ds_func_dgs (new_slicer dir) = Some [((), 0)]"
  "md_subgraphs sample_mgraph 0 \<noteq> None" "mk_node_slice (ds_marks (new_slicer dir)) n = 0" "ds_last_slice_id (new_slicer dir) = 0"
  "dg_nodes (md_graph sample_mgraph) 0 = Some (plain_node (Some (10, OtherInst)) 0\<lparr>dn_user := [1, 3], dn_rev_data := [2]\<rparr>)"
  by (simp_all add: sample_mgraph_def sample_dg_ok new_slicer_def computeDependencies_def no_marks_def, simp add: sample_dg_def)

theorem slice_marks_and_counts_witness:
  "(\<exists>g ds'. slice_from_node sample_mgraph 0 0 Storing 7 (new_slicer Backward) = Some (Some g, 1, ds') \<and>
     (\<forall>n. mk_node_slice (ds_marks ds') n \<le> unat (ds_last_slice_id ds'))) \<and>
   map_option (\<lambda>(_, _, ds). (nodesTotal (ds_statistics ds), nodesRemoved (ds_statistics ds), blocksRemoved (ds_statistics ds)))
     (slice_from_node sample_mgraph 0 0 Storing 7 (new_slicer Backward)) = Some (3, 1, 0)"
proof
  have opts: "sliceRelationOpts (ds_direction (new_slicer Backward)) 7 \<noteq> 0" by code_simp
  have v: "dn_value (plain_node (Some (10, OtherInst)) 0\<lparr>dn_user := [1, 3], dn_rev_data := [2]\<rparr>) = Some (10, OtherInst)" by (simp add: plain_node_def)
  have f: "\<forall>(f, g) \<in> set [((), 0)]. md_subgraphs sample_mgraph g \<noteq> None" using sample_mgraph_ok(4) by simp
  from slice_marks_and_counts [OF sample_mgraph_ok(1) opts sample_mgraph_ok(7) v sample_mgraph_ok(3) f]
  show "\<exists>g ds'. slice_from_node sample_mgraph 0 0 Storing 7 (new_slicer Backward) = Some (Some g, 1, ds') \<and>
     (\<forall>n. mk_node_slice (ds_marks ds') n \<le> unat (ds_last_slice_id ds'))"
    by (auto simp: sample_mgraph_ok(5,6))
qed code_simp

end
