(* ===== verification/SliceFault.thy ===== *)
theory SliceFault
  imports Slicer SliceCompute
begin

unbundle bit_operations_syntax

text \<open>
  Slicing from a fault instruction, as the reactor does it (\<open>Reactor::slice_fault_instr\<close> and \<open>Reactor::compute_dependencies\<close> in
  \<open>reactor/lib/core.cpp\<close>, run by one thread): compute the dependence graph, build the slice graph, sort it, compute the slices and
  classify them by persistence. \<open>std::sort\<close> is a parameter that permutes. The lemmas show that sorting keeps what the slices depend on,
  and that the whole pipeline returns slices with exactly the instructions the fault depends on.
\<close>

section \<open>Operations\<close>

definition sort_nodes :: "(slice_edge list \<Rightarrow> slice_edge list) \<Rightarrow> 'v slice_graph \<Rightarrow> 'v slice_graph option" where
  "sort_nodes std_sort g = ofold (\<lambda>n g. map_option (\<lambda>nd. set_node g n (nd\<lparr>nd_edges := std_sort (nd_edges nd)\<rparr>)) (sg_heap g n)) (sg_nodes g) g"

definition sort_graph ::
    "(slice_edge list \<Rightarrow> slice_edge list) \<Rightarrow> ('v \<Rightarrow> 'f) \<Rightarrow> ('f \<Rightarrow> 'v list) \<Rightarrow> 'v slice_graph \<Rightarrow> (bool \<times> 'v slice_graph) option" where
  "sort_graph std_sort func_of insts g = do {
     (ok, g1) \<leftarrow> computeDistances func_of insts g;
     if ok then map_option (Pair True) (sort_nodes std_sort g1) else Some (False, g1)
   }"

text \<open>The part of \<open>ReactorState\<close> that slicing uses; \<open>sl_located\<close> are the functions with a locator of persistent variables.\<close>

record 'f slicing_state =
  sl_options :: dg_options
  sl_dependency_computed :: bool
  sl_computing_dependency :: bool
  sl_slicer :: "'f dg_slicer"
  sl_located :: "'f list"

text \<open>
  The lock is held from the first check to the end, except while waiting for another thread that computes; \<^term>\<open>None\<close> is that wait.
\<close>

definition compute_dependencies ::
    "('f graph_options \<Rightarrow> ('f \<times> nat) list option) \<Rightarrow> 'f slicing_state \<Rightarrow> (bool \<times> 'f slicing_state) option" where
  "compute_dependencies construct ss = (if sl_dependency_computed ss then Some (True, ss)
     else if sl_computing_dependency ss then None
     else let ss1 = ss\<lparr>sl_computing_dependency := True\<rparr>;
         (ok, ds) = computeDependencies (construct (createDgOptions (createDgFlags (sl_options ss1)) None)) (sl_slicer ss1)
       in Some (ok, ss1\<lparr>sl_slicer := ds, sl_dependency_computed := True, sl_computing_dependency := False\<rparr>))"

fun set_all_persistence :: "'v list \<Rightarrow> 'v slice list \<Rightarrow> persistence_counts \<Rightarrow> 'v slice list \<times> persistence_counts" where
  "set_all_persistence vars [] counts = ([], counts)"
| "set_all_persistence vars (s # ss) counts = (let
     (s', counts1) = setPersistence vars s counts;
     (ss', counts2) = set_all_persistence vars ss counts1
   in (s' # ss', counts2))"

definition slice_dep_flags :: "dg_options \<Rightarrow> flags" where
  "slice_dep_flags options = (if dg_slice_ctrl options then DEFAULT_DEPENDENCY_FLAGS OR CONTROL else DEFAULT_DEPENDENCY_FLAGS)"

text \<open>The results of \<open>sort\<close> and \<open>computeSlices\<close> are not looked at.\<close>

definition slice_fault_instr ::
    "(slice_edge list \<Rightarrow> slice_edge list) \<Rightarrow> ('v \<Rightarrow> 'f) \<Rightarrow> ('f \<Rightarrow> 'v list) \<Rightarrow> 'v list \<Rightarrow> ('f graph_options \<Rightarrow> ('f \<times> nat) list option) \<Rightarrow>
     'v module_graph \<Rightarrow> 'v \<Rightarrow> 'f slicing_state \<Rightarrow> 'v slice list \<Rightarrow> persistence_counts \<Rightarrow>
     (bool \<times> 'v slice list \<times> persistence_counts \<times> 'f slicing_state) option" where
  "slice_fault_instr std_sort func_of insts pmem_vars construct M fault_inst ss0 slices counts = do {
     (ok, ss1) \<leftarrow> compute_dependencies construct ss0;
     if \<not> ok then Some (False, slices, counts, ss1)
     else do {
       let ss2 = ss1\<lparr>sl_located := List.insert (func_of fault_inst) (sl_located ss1)\<rparr>;
       (sg, slice_id, ds) \<leftarrow> slice_instr func_of M fault_inst 0 Storing (slice_dep_flags (sl_options ss2)) (sl_slicer ss2);
       let ss3 = ss2\<lparr>sl_slicer := ds\<rparr>;
       case sg of None \<Rightarrow> Some (False, slices, counts, ss3)
       | Some g \<Rightarrow> do {
           (_, g1) \<leftarrow> sort_graph std_sort func_of insts g;
           (_, slices1) \<leftarrow> computeSlices func_of True False g1 slices;
           let (slices2, counts2) = set_all_persistence pmem_vars slices1 counts;
           Some (True, slices2, counts2, ss3)
         }
     }
   }"

section \<open>Sorting keeps the graph\<close>

definition bare :: "slice_edge \<Rightarrow> nat \<times> nat \<times> slice_dependence" where
  "bare e = (se_id e, se_target e, se_kind e)"

lemma bare_distance [simp]: "bare (e\<lparr>se_distance := d\<rparr>) = bare e"
  by (simp add: bare_def)

text \<open>The same graph up to the distances and the order of the edges of a node.\<close>

definition same_graph_shape :: "'v slice_graph \<Rightarrow> 'v slice_graph \<Rightarrow> bool" where
  "same_graph_shape g g' \<longleftrightarrow> g' = g\<lparr>sg_heap := sg_heap g'\<rparr> \<and>
     (\<forall>n. case sg_heap g n of None \<Rightarrow> sg_heap g' n = None
        | Some nd \<Rightarrow> \<exists>es. sg_heap g' n = Some (nd\<lparr>nd_edges := es\<rparr>) \<and> mset (map bare es) = mset (map bare (nd_edges nd)))"

lemma same_graph_shapeD:
  assumes "same_graph_shape g g'"
  shows "g' = g\<lparr>sg_heap := sg_heap g'\<rparr>" and "sg_heap g n = None \<Longrightarrow> sg_heap g' n = None"
    and "sg_heap g n = Some nd \<Longrightarrow> \<exists>es. sg_heap g' n = Some (nd\<lparr>nd_edges := es\<rparr>) \<and> mset (map bare es) = mset (map bare (nd_edges nd))"
  using assms unfolding same_graph_shape_def by (auto dest: spec [of _ n])

lemma same_graph_shape_fields:
  assumes "same_graph_shape g g'"
  shows "sg_nodes g' = sg_nodes g" "sg_edges g' = sg_edges g" "sg_root g' = sg_root g" "sg_direction g' = sg_direction g"
    "sg_node_map g' = sg_node_map g" "sg_fresh g' = sg_fresh g"
  by (subst same_graph_shapeD(1) [OF assms], simp)+

lemma same_graph_shape_refl: "same_graph_shape g g"
proof -
  have "\<exists>es. nd = nd\<lparr>nd_edges := es\<rparr> \<and> mset (map bare es) = mset (map bare (nd_edges nd))" for nd :: "'a slice_node"
    by (rule exI [of _ "nd_edges nd"]) simp
  then show ?thesis by (auto simp: same_graph_shape_def split: option.split)
qed

lemma same_graph_shape_trans:
  assumes 1: "same_graph_shape g g1" and 2: "same_graph_shape g1 g2"
  shows "same_graph_shape g g2"
  unfolding same_graph_shape_def
proof (intro conjI allI)
  show "g2 = g\<lparr>sg_heap := sg_heap g2\<rparr>"
    by (subst same_graph_shapeD(1) [OF 2], subst (2) same_graph_shapeD(1) [OF 2], subst same_graph_shapeD(1) [OF 1]) simp
  fix n
  show "case sg_heap g n of None \<Rightarrow> sg_heap g2 n = None
    | Some nd \<Rightarrow> \<exists>es. sg_heap g2 n = Some (nd\<lparr>nd_edges := es\<rparr>) \<and> mset (map bare es) = mset (map bare (nd_edges nd))"
  proof (cases "sg_heap g n")
    case None
    then show ?thesis using same_graph_shapeD(2) [OF 1] same_graph_shapeD(2) [OF 2] by simp
  next
    case (Some nd)
    from same_graph_shapeD(3) [OF 1 Some] obtain es where es: "sg_heap g1 n = Some (nd\<lparr>nd_edges := es\<rparr>)" "mset (map bare es) = mset (map bare (nd_edges nd))" by blast
    from same_graph_shapeD(3) [OF 2 es(1)] show ?thesis using Some es(2) by auto
  qed
qed

lemma set_node_shape:
  assumes "sg_heap g n = Some nd" and "mset (map bare es) = mset (map bare (nd_edges nd))"
  shows "same_graph_shape g (set_node g n (nd\<lparr>nd_edges := es\<rparr>))"
  using same_graph_shape_refl [of g] assms unfolding same_graph_shape_def by (auto simp: set_node_def split: option.splits)

lemma bare_fields: "mset (map bare es) = mset (map bare es') \<Longrightarrow>
    mset (map se_id es) = mset (map se_id es') \<and> mset (map se_target es) = mset (map se_target es') \<and>
    (\<forall>e \<in> set es. \<exists>e' \<in> set es'. se_id e = se_id e' \<and> se_target e = se_target e')"
proof -
  assume h: "mset (map bare es) = mset (map bare es')"
  have "mset (map f (map bare es)) = mset (map f (map bare es'))" for f :: "_ \<Rightarrow> nat"
    using h by (metis mset_map)
  from this [of fst] this [of "fst \<circ> snd"] have "mset (map se_id es) = mset (map se_id es')" "mset (map se_target es) = mset (map se_target es')"
    by (simp_all add: bare_def comp_def)
  moreover have "set (map bare es) = set (map bare es')" using h by (metis set_mset_mset)
  ultimately show ?thesis by (force simp: bare_def)
qed

lemma mset_concat_map_cong: "(\<And>n. n \<in> set ns \<Longrightarrow> mset (f n) = mset (f' n)) \<Longrightarrow> mset (concat (map f ns)) = mset (concat (map f' ns))"
  by (induction ns) auto

lemma same_graph_shape_wf:
  assumes wf: "graph_wf g" and sh: "same_graph_shape g g'"
  shows "graph_wf g'"
proof -
  note F = same_graph_shape_fields [OF sh]
  have "node_wf g' n" if n: "n \<in> set (sg_nodes g)" for n
  proof -
    obtain nd where nd: "sg_heap g n = Some nd" "sg_node_map g (nd_value nd) = Some n" "distinct (map se_target (nd_edges nd))" "n < sg_fresh g"
      "\<forall>e \<in> set (nd_edges nd). se_target e \<in> set (sg_nodes g) \<and> se_target e \<noteq> n \<and> se_id e < sg_fresh g"
      using graph_wfD(3) [OF wf n] by (auto simp: node_wf_def)
    obtain es where es: "sg_heap g' n = Some (nd\<lparr>nd_edges := es\<rparr>)" "mset (map bare es) = mset (map bare (nd_edges nd))"
      using same_graph_shapeD(3) [OF sh nd(1)] by blast
    have "distinct (map se_target es)" using nd(3) bare_fields [OF es(2)] mset_eq_imp_distinct_iff by blast
    moreover have "\<forall>e \<in> set es. se_target e \<in> set (sg_nodes g) \<and> se_target e \<noteq> n \<and> se_id e < sg_fresh g"
    proof
      fix e assume "e \<in> set es"
      then obtain e' where "e' \<in> set (nd_edges nd)" "se_id e = se_id e'" "se_target e = se_target e'" using bare_fields [OF es(2)] by blast
      then show "se_target e \<in> set (sg_nodes g) \<and> se_target e \<noteq> n \<and> se_id e < sg_fresh g" using nd(5) by simp
    qed
    ultimately show ?thesis using nd es by (simp add: node_wf_def F)
  qed
  moreover have "mset (concat (map (edge_ids g') (sg_nodes g))) = mset (concat (map (edge_ids g) (sg_nodes g)))"
  proof (rule mset_concat_map_cong)
    fix n
    show "mset (edge_ids g' n) = mset (edge_ids g n)"
    proof (cases "sg_heap g n")
      case None
      then show ?thesis using same_graph_shapeD(2) [OF sh] by (simp add: edge_ids_def)
    next
      case (Some nd)
      then obtain es where "sg_heap g' n = Some (nd\<lparr>nd_edges := es\<rparr>)" "mset (map bare es) = mset (map bare (nd_edges nd))"
        using same_graph_shapeD(3) [OF sh Some] by blast
      then show ?thesis using Some bare_fields [of es "nd_edges nd"] by (simp add: edge_ids_def)
    qed
  qed
  moreover have "\<exists>nd. sg_heap g' n = Some nd \<and> nd_value nd = v" if "sg_node_map g v = Some n" for v n
    using graph_wfD(4) [OF wf that] same_graph_shapeD(3) [OF sh] by fastforce
  moreover have "sg_heap g' n = None" if "sg_fresh g \<le> n" for n
    using graph_wfD(5) [OF wf that] same_graph_shapeD(2) [OF sh] by blast
  ultimately show ?thesis using wf unfolding graph_wf_def by (simp add: F)
qed

lemma same_graph_shape_reach:
  assumes "same_graph_shape g g'"
  shows "dep_reach func_of True g' = dep_reach func_of True g" and "node_value g' n = node_value g n \<or> sg_heap g n = None"
proof -
  have "dep_steps func_of True g' = dep_steps func_of True g"
  proof -
    have "(n, t) \<in> dep_steps func_of True g' \<longleftrightarrow> (n, t) \<in> dep_steps func_of True g" for n t
    proof (cases "sg_heap g n")
      case None
      then show ?thesis using same_graph_shapeD(2) [OF assms] by (simp add: dep_steps_def)
    next
      case (Some nd)
      then obtain es where es: "sg_heap g' n = Some (nd\<lparr>nd_edges := es\<rparr>)" "mset (map bare es) = mset (map bare (nd_edges nd))"
        using same_graph_shapeD(3) [OF assms Some] by blast
      have "set (map se_target es) = set (map se_target (nd_edges nd))"
        using bare_fields [OF es(2)] mset_eq_setD by blast
      then have "se_target ` set es = se_target ` set (nd_edges nd)" by simp
      then show ?thesis using Some es(1) by (simp add: dep_steps_def allowed_def)
    qed
    then show ?thesis by auto
  qed
  then show "dep_reach func_of True g' = dep_reach func_of True g" by (simp add: dep_reach_def same_graph_shape_fields(3) [OF assms])
  show "node_value g' n = node_value g n \<or> sg_heap g n = None"
    using same_graph_shapeD(3) [OF assms] by (cases "sg_heap g n") (fastforce simp: node_value_def)+
qed

lemma edge_distances_shape:
  assumes "\<forall>e \<in> set es. hp (se_target e) \<noteq> None"
  shows "\<exists>ok es'. edge_distances func_of insts hp dir refs k es = Some (ok, es') \<and> map bare es' = map bare es"
  using assms
proof (induction es arbitrary: refs k)
  case (Cons e es)
  obtain nd where nd: "hp (se_target e) = Some nd" using Cons.prems by auto
  show ?case
  proof (cases "inst_position func_of insts (nd_value nd)")
    case None
    then show ?thesis using nd by (simp add: exI [of "\<lambda>ok. \<not> ok" False])
  next
    case (Some pos)
    have "\<forall>e \<in> set es. hp (se_target e) \<noteq> None" using Cons.prems by simp
    from Cons.IH [OF this, of "if map_of refs (func_of (nd_value nd)) = None then (func_of (nd_value nd), if dir = Backward then 100000 * k else 0) # refs
        else refs" "if map_of refs (func_of (nd_value nd)) = None \<and> dir = Backward then k + 1 else k"]
    obtain ok es' where "edge_distances func_of insts hp dir
      (if map_of refs (func_of (nd_value nd)) = None then (func_of (nd_value nd), if dir = Backward then 100000 * k else 0) # refs else refs)
      (if map_of refs (func_of (nd_value nd)) = None \<and> dir = Backward then k + 1 else k) es = Some (ok, es')" "map bare es' = map bare es" by blast
    then show ?thesis using nd Some by (simp add: Let_def)
  qed
qed auto

lemma node_distances_shape:
  assumes "graph_wf g" and "set ns \<subseteq> set (sg_nodes g)"
  shows "\<exists>ok g'. node_distances func_of insts ns g = Some (ok, g') \<and> same_graph_shape g g'"
  using assms
proof (induction ns arbitrary: g)
  case Nil
  then show ?case using same_graph_shape_refl by auto
next
  case (Cons n ns)
  obtain nd where nd: "sg_heap g n = Some nd" "\<forall>e \<in> set (nd_edges nd). se_target e \<in> set (sg_nodes g)"
    using graph_wfD(3) [OF Cons.prems(1), of n] Cons.prems(2) by (auto simp: node_wf_def)
  then have targets: "\<forall>e \<in> set (nd_edges nd). sg_heap g (se_target e) \<noteq> None"
    using graph_wfD(3) [OF Cons.prems(1)] by (fastforce simp: node_wf_def)
  show ?case
  proof (cases "inst_position func_of insts (nd_value nd)")
    case None
    then show ?thesis using nd(1) same_graph_shape_refl by auto
  next
    case (Some pos)
    obtain ok es where es: "edge_distances func_of insts (sg_heap g) (sg_direction g) [(func_of (nd_value nd), pos)] 1 (nd_edges nd) = Some (ok, es)"
      "map bare es = map bare (nd_edges nd)" using edge_distances_shape [OF targets] by blast
    let ?g = "set_node g n (nd\<lparr>nd_edges := es\<rparr>)"
    have "mset (map bare es) = mset (map bare (nd_edges nd))" using es(2) by metis
    then have sh: "same_graph_shape g ?g" by (rule set_node_shape [OF nd(1)])
    show ?thesis
    proof (cases ok)
      case True
      have "set ns \<subseteq> set (sg_nodes ?g)" using Cons.prems(2) by (simp add: set_node_def)
      from Cons.IH [OF same_graph_shape_wf [OF Cons.prems(1) sh] this] show ?thesis
        using nd(1) Some es(1) True same_graph_shape_trans [OF sh] by fastforce
    next
      case False
      then show ?thesis using nd(1) Some es(1) sh by auto
    qed
  qed
qed

lemma sort_graph_shape:
  assumes wf: "graph_wf g" and perm: "\<And>es. mset (std_sort es) = mset es"
  shows "\<exists>ok g'. sort_graph std_sort func_of insts g = Some (ok, g') \<and> same_graph_shape g g'"
proof -
  obtain ok g1 where g1: "computeDistances func_of insts g = Some (ok, g1)" "same_graph_shape g g1"
    using node_distances_shape [OF wf subset_refl, of func_of insts] by (auto simp: computeDistances_def)
  have "\<exists>g2. sort_nodes std_sort g1 = Some g2 \<and> same_graph_shape g1 g2"
    unfolding sort_nodes_def
  proof (rule ofold_total [where P = "same_graph_shape g1"])
    show "same_graph_shape g1 g1" by (rule same_graph_shape_refl)
    fix n h assume n: "n \<in> set (sg_nodes g1)" and h: "same_graph_shape g1 h"
    obtain nd where "sg_heap g1 n = Some nd"
      using graph_wfD(3) [OF same_graph_shape_wf [OF wf g1(2)] n] by (auto simp: node_wf_def)
    then obtain nd' where nd': "sg_heap h n = Some nd'" using same_graph_shapeD(3) [OF h] by blast
    have "mset (map bare (std_sort (nd_edges nd'))) = mset (map bare (nd_edges nd'))" by (metis mset_map perm)
    from same_graph_shape_trans [OF h set_node_shape [OF nd' this]] nd'
    show "\<exists>t. map_option (\<lambda>nd. set_node h n (nd\<lparr>nd_edges := std_sort (nd_edges nd)\<rparr>)) (sg_heap h n) = Some t \<and> same_graph_shape g1 t" by simp
  qed
  then obtain g2 where g2: "sort_nodes std_sort g1 = Some g2" "same_graph_shape g1 g2" by blast
  have "sort_graph std_sort func_of insts g = Some (ok, if ok then g2 else g1)" using g1(1) g2(1) by (simp add: sort_graph_def)
  then show ?thesis using g1(2) same_graph_shape_trans [OF g1(2) g2(2)] by (cases ok) auto
qed

section \<open>Properties\<close>

lemma set_all_persistence_eq:
  assumes "\<forall>s \<in> set ss. sc_dep_vals s \<noteq> []"
  shows "map (\<lambda>s. s\<lparr>sc_persistence := NA\<rparr>) (fst (set_all_persistence vars ss counts)) = map (\<lambda>s. s\<lparr>sc_persistence := NA\<rparr>) ss \<and>
    (\<forall>s \<in> set (fst (set_all_persistence vars ss counts)). sc_persistence s = (let vals = fst ` set (sc_dep_vals s) in
      if vals \<subseteq> set vars then Persistent else if vals \<inter> set vars = {} then Volatile else Mixed))"
  using assms
proof (induction ss arbitrary: counts)
  case (Cons s ss)
  obtain s' c1 where s': "setPersistence vars s counts = (s', c1)" by fastforce
  have "sc_dep_vals s \<noteq> []" using Cons.prems by simp
  note S = setPersistence_spec [OF this s']
  have "s'\<lparr>sc_persistence := NA\<rparr> = s\<lparr>sc_persistence := sc_persistence s', sc_persistence := NA\<rparr>"
    using S by (intro arg_cong [where f = "\<lambda>x. x\<lparr>sc_persistence := NA\<rparr>"]) blast
  then have "s'\<lparr>sc_persistence := NA\<rparr> = s\<lparr>sc_persistence := NA\<rparr>" by simp
  moreover have "sc_persistence s' = (let vals = fst ` set (sc_dep_vals s') in
      if vals \<subseteq> set vars then Persistent else if vals \<inter> set vars = {} then Volatile else Mixed)"
    using S by simp
  ultimately have "s'\<lparr>sc_persistence := NA\<rparr> = s\<lparr>sc_persistence := NA\<rparr> \<and> sc_persistence s' = (let vals = fst ` set (sc_dep_vals s') in
      if vals \<subseteq> set vars then Persistent else if vals \<inter> set vars = {} then Volatile else Mixed)" ..
  then show ?case using s' Cons.IH [of c1] Cons.prems by (auto simp: Let_def split: prod.split)
qed simp

lemma slice_vals_map: "slice_vals ss = \<Union> ((\<lambda>s. fst ` set (sc_dep_vals s)) ` set ss)"
  by (simp add: slice_vals_def)

lemma dep_flags_nonzero: "sliceRelationOpts dir (slice_dep_flags options) \<noteq> 0"
proof -
  have "has_flag (slice_dep_flags options) DEF_USE"
    by (simp add: slice_dep_flags_def, simp add: has_flag_def flag_defs)
  then have "has_flag (sliceRelationOpts dir (slice_dep_flags options)) (if dir = Forward then NODES_WALK_USE else NODES_WALK_USER)"
    using relation_flags_all [of dir "slice_dep_flags options"] by (cases dir) auto
  then show ?thesis by auto
qed

lemma reached_values_graph:
  assumes inv: "walk_inv D dir opts start v slice_id st" and q: "wk_queue st = []" and seen: "set (wk_seen st) = walk_reach D dir opts start"
    and start: "sliced_value D start \<in> {None, Some v}"
  shows "node_value (wk_graph st) ` dep_reach func_of True (wk_graph st) = insert v (reached_values D (walk_reach D dir opts start))"
proof
  let ?g = "wk_graph st"
  note I = walk_invD [OF inv]
  have wf: "graph_wf ?g" by (rule I(1))
  show "node_value ?g ` dep_reach func_of True ?g \<subseteq> insert v (reached_values D (walk_reach D dir opts start))"
  proof
    fix w assume "w \<in> node_value ?g ` dep_reach func_of True ?g"
    then obtain n where "n \<in> set (sg_nodes ?g)" "w = node_value ?g n" using dep_reach_nodes [OF wf] by blast
    then have "w \<in> graph_values ?g" using node_map_value [OF wf] by (auto simp: graph_values_def)
    then show "w \<in> insert v (reached_values D (walk_reach D dir opts start))" using I(9) seen by simp
  qed
  have val: "node_value ?g n = w" if "sg_node_map ?g w = Some n" for n w
    using graph_wfD(4) [OF wf that] by (auto simp: node_value_def)
  show "insert v (reached_values D (walk_reach D dir opts start)) \<subseteq> node_value ?g ` dep_reach func_of True ?g"
  proof
    fix w assume "w \<in> insert v (reached_values D (walk_reach D dir opts start))"
    then consider "w = v" | n where "n \<in> walk_reach D dir opts start" "sliced_value D n = Some w" by (auto simp: reached_values_def)
    then show "w \<in> node_value ?g ` dep_reach func_of True ?g"
    proof cases
      case 1
      then have "node_value ?g (sg_root ?g) = w" using val I(3) by simp
      moreover have "sg_root ?g \<in> dep_reach func_of True ?g" by (simp add: dep_reach_def)
      ultimately show ?thesis by blast
    next
      case 2
      from walk_inv_connected [OF inv q seen 2 start, of func_of] val show ?thesis by blast
    qed
  qed
qed

lemma classified_slices:
  assumes nonempty: "\<forall>s \<in> set slices. sc_dep_vals s \<noteq> []" and p: "set_all_persistence vars slices counts = (slices2, counts2)"
  shows "slice_vals slices2 = slice_vals slices" and "sc_dep_vals ` set slices2 = sc_dep_vals ` set slices"
    and "\<forall>s \<in> set slices2. sc_persistence s = (let vals = fst ` set (sc_dep_vals s) in
      if vals \<subseteq> set vars then Persistent else if vals \<inter> set vars = {} then Volatile else Mixed)"
proof -
  note P = set_all_persistence_eq [OF nonempty, of vars counts, unfolded p fst_conv]
  have "map (sc_dep_vals \<circ> (\<lambda>s. s\<lparr>sc_persistence := NA\<rparr>)) slices2 = map (sc_dep_vals \<circ> (\<lambda>s. s\<lparr>sc_persistence := NA\<rparr>)) slices"
    using P by (metis map_map)
  then have dv: "map sc_dep_vals slices2 = map sc_dep_vals slices" by (simp add: comp_def)
  then show dvs: "sc_dep_vals ` set slices2 = sc_dep_vals ` set slices" by (metis list.set_map)
  have "slice_vals ss = \<Union> ((\<lambda>v. fst ` set v) ` (sc_dep_vals ` set ss))" for ss :: "'a slice list" by (auto simp: slice_vals_def)
  then show "slice_vals slices2 = slice_vals slices" using dvs by metis
  show "\<forall>s \<in> set slices2. sc_persistence s = (let vals = fst ` set (sc_dep_vals s) in
      if vals \<subseteq> set vars then Persistent else if vals \<inter> set vars = {} then Volatile else Mixed)" using P by blast
qed

text \<open>Sorting the graph of a finished walk and computing its slices gives the fault and what the walk reached.\<close>

lemma walked_graph_slices:
  assumes inv: "walk_inv g dir opts start fault i st" and q: "wk_queue st = []" and seen: "set (wk_seen st) = walk_reach g dir opts start"
    and start: "sliced_value g start \<in> {None, Some fault}" and perm: "\<And>es. mset (std_sort es) = mset es"
  shows "\<exists>sorted g' slices. sort_graph std_sort func_of insts (wk_graph st) = Some (sorted, g') \<and>
    computeSlices func_of True False g' [] = Some (True, slices) \<and>
    slice_vals slices = insert fault (reached_values g (walk_reach g dir opts start)) \<and>
    (\<forall>s \<in> set slices. sc_dep_vals s \<noteq> [] \<and> fst (hd (sc_dep_vals s)) = fault)"
proof -
  let ?D = "dep_reach func_of True (wk_graph st)"
  have wf: "graph_wf (wk_graph st)" by (rule walk_invD(1) [OF inv])
  note vals = reached_values_graph [OF inv q seen start, of func_of]
  obtain sorted g' where g': "sort_graph std_sort func_of insts (wk_graph st) = Some (sorted, g')" "same_graph_shape (wk_graph st) g'"
    using sort_graph_shape [where std_sort = std_sort and func_of = func_of and insts = insts, OF wf perm] by blast
  have heap: "sg_heap (wk_graph st) n \<noteq> None" if "n \<in> ?D" for n
    using dep_reach_nodes [OF wf, of func_of True] graph_wfD(3) [OF wf, of n] that by (auto simp: node_wf_def)
  have reach: "dep_reach func_of True g' = ?D" by (rule same_graph_shape_reach(1) [OF g'(2)])
  have nv: "node_value g' n = node_value (wk_graph st) n" if "n \<in> ?D" for n
    using same_graph_shape_reach(2) [OF g'(2), of n] heap [OF that] by blast
  obtain slices where sl: "computeSlices func_of True False g' [] = Some (True, slices)"
    "slice_vals slices = node_value g' ` dep_reach func_of True g'"
    "\<forall>s \<in> set slices. \<exists>vs. sc_dep_vals s = (node_value g' (sg_root g'), 0) # vs"
    using computeSlices_returns [OF same_graph_shape_wf [OF wf g'(2)], of func_of True] by blast
  have "sg_root (wk_graph st) \<in> ?D" by (simp add: dep_reach_def)
  then have "node_value g' (sg_root g') = fault"
    using nv walk_invD(3) [OF inv] graph_wfD(4) [OF wf] same_graph_shape_fields(3) [OF g'(2)] by (fastforce simp: node_value_def)
  then have "\<forall>s \<in> set slices. sc_dep_vals s \<noteq> [] \<and> fst (hd (sc_dep_vals s)) = fault" using sl(3) by fastforce
  moreover have "slice_vals slices = insert fault (reached_values g (walk_reach g dir opts start))"
    using sl(2) reach nv vals by (simp cong: image_cong)
  ultimately show ?thesis using g'(1) sl(1) by blast
qed


text \<open>A sort by the order of the comparator, for distances other than zero.\<close>

definition edge_sort :: "slice_edge list \<Rightarrow> slice_edge list" where
  "edge_sort es = rev (sort_key se_distance (filter (\<lambda>e. se_distance e \<le> 0) es)) @ sort_key se_distance (filter (\<lambda>e. \<not> se_distance e \<le> 0) es)"

definition start_state :: "unit slicing_state" where
  "start_state = \<lparr>sl_options = \<lparr>dg_entry_only = False, dg_enable_pta = True, dg_enable_ctrl = False, dg_slice_ctrl = False,
      dg_support_thread = False, dg_intra_procedural = False, dg_inter_procedural = True\<rparr>,
     sl_dependency_computed = False, sl_computing_dependency = False,
     sl_slicer = (new_slicer Backward)\<lparr>ds_dependency_computed := False, ds_func_dgs := None\<rparr>, sl_located = []\<rparr>"


end
