(* ===== verification/AddrTrace.thy ===== *)
theory AddrTrace
  imports StringUtils
begin

text \<open>
  The text files that connect the instrumented program with the reactor. The GUID map
  (\<open>analyzer/lib/Instrument/PmemVarGuidMap.cpp\<close>) lists the instrumented instructions; the address trace is
  written by the runtime (\<open>analyzer/runtime/addr_tracker.c\<close>) and read by
  \<open>analyzer/lib/Instrument/PmemAddrTrace.cpp\<close>, which also assigns addresses to pools. A file is the list of its
  lines. A number that does not parse throws an exception, which no caller handles: the result
  \<open>Throws\<close>. The lemmas show the round trips through both formats and which offsets the pool assignment
  computes.
\<close>

section \<open>The GUID map\<close>

record guid_entry =
  ge_guid :: int
  ge_source_path :: string
  ge_source_file :: string
  ge_function :: string
  ge_line :: int
  ge_instruction :: string

text \<open>The \<open>std::map\<close> in the order of its keys; \<open>add\<close> keeps the first entry of a GUID.\<close>

type_synonym guid_map = "guid_entry list"

fun guid_add :: "guid_map \<Rightarrow> guid_entry \<Rightarrow> guid_map" where
  "guid_add [] e = [e]"
| "guid_add (x # xs) e =
     (if ge_guid e < ge_guid x then e # x # xs
      else if ge_guid e = ge_guid x then x # xs
      else x # guid_add xs e)"

definition guid_find :: "guid_map \<Rightarrow> int \<Rightarrow> guid_entry option" where
  "guid_find gm g = find (\<lambda>e. ge_guid e = g) gm"

definition FieldSeparator :: string where "FieldSeparator = ''##''"

definition EntryFields :: nat where "EntryFields = 6"

definition serialize_entry :: "guid_entry \<Rightarrow> string" where
  "serialize_entry e = print_base 10 (nat (ge_guid e)) @ FieldSeparator @ ge_source_path e @ FieldSeparator @
     ge_source_file e @ FieldSeparator @ ge_function e @ FieldSeparator @
     print_base 10 (nat (ge_line e)) @ FieldSeparator @ ge_instruction e"

definition serialize :: "guid_map \<Rightarrow> string list" where
  "serialize gm = map serialize_entry gm"

datatype 'a outcome = Done 'a | Failed | Throws

definition parse_entry :: "string \<Rightarrow> guid_entry outcome" where
  "parse_entry line = (let parts = snd (splitList_str line FieldSeparator) in
     if length parts \<noteq> EntryFields then Failed
     else case str2fmt 64 10 (parts ! 0) of None \<Rightarrow> Throws | Some g \<Rightarrow>
       (case str2fmt 32 10 (parts ! 4) of None \<Rightarrow> Throws | Some l \<Rightarrow>
         Done \<lparr>ge_guid = g, ge_source_path = parts ! 1, ge_source_file = parts ! 2, ge_function = parts ! 3,
           ge_line = l, ge_instruction = parts ! 5\<rparr>))"

fun deserialize_map :: "bool \<Rightarrow> string list \<Rightarrow> guid_map \<Rightarrow> guid_map outcome" where
  "deserialize_map ignoreBadLine [] result = Done result"
| "deserialize_map ignoreBadLine (line # rest) result = (case parse_entry line of
      Failed \<Rightarrow> if \<not> ignoreBadLine then Failed else deserialize_map ignoreBadLine rest result
    | Throws \<Rightarrow> Throws
    | Done e \<Rightarrow> deserialize_map ignoreBadLine rest (guid_add result e))"

section \<open>Trace items\<close>

text \<open>\<open>ti_instr\<close> is the instruction the item is resolved to, a parameter type.\<close>

record 'i trace_item =
  ti_addr_str :: string
  ti_addr :: addr
  ti_guid :: int
  ti_pool_offset :: addr
  ti_is_pool :: bool
  ti_is_mmap :: bool
  ti_var :: "guid_entry option"
  ti_instr :: "'i option"

text \<open>What the runtime prints for a tracked address: \<open>"%p,%u\n"\<close> without the line end.\<close>

definition track_addr :: "addr \<Rightarrow> nat \<Rightarrow> string" where
  "track_addr a guid = print_ptr a @ '','' @ print_base 10 guid"

definition TraceEntryFields :: nat where "TraceEntryFields = 2"

definition PmemObjCreateCallInstrStr :: string where
  "PmemObjCreateCallInstrStr = ''call %struct.pmemobjpool* @pmemobj_create''"

definition PmemCreateCallInstrStr :: string where
  "PmemCreateCallInstrStr = ''call i8* @pmem_map_file''"

text \<open>
  \<open>PmemAddrTraceItem::parse\<close>; \<open>varMap\<close> may be null. \<open>addr_str[0]\<close> and \<open>addr_str[1]\<close> beyond the end are the
  terminating null character.
\<close>

definition hex_body :: "string \<Rightarrow> string" where
  "hex_body s = (case s of
      c # d # r \<Rightarrow> if c = CHR ''0'' \<and> (d = CHR ''x'' \<or> d = CHR ''X'') then r else s
    | _ \<Rightarrow> s)"

definition parse_item :: "guid_map option \<Rightarrow> string \<Rightarrow> 'i trace_item outcome" where
  "parse_item varMap item_str = (let parts = snd (splitList_str item_str '','') in
     if length parts \<noteq> TraceEntryFields then Failed
     else case str2fmt 64 16 (hex_body (parts ! 0)) of None \<Rightarrow> Throws | Some a \<Rightarrow>
       (case str2fmt 64 10 (parts ! 1) of None \<Rightarrow> Throws | Some g \<Rightarrow>
         let var = (case varMap of None \<Rightarrow> None | Some gm \<Rightarrow> guid_find gm g);
           has = (\<lambda>sub. case var of None \<Rightarrow> False | Some e \<Rightarrow> find_str sub (ge_instruction e) \<noteq> None)
         in Done \<lparr>ti_addr_str = parts ! 0, ti_addr = word_of_int a, ti_guid = g, ti_pool_offset = 0,
           ti_is_pool = has PmemObjCreateCallInstrStr,
           ti_is_mmap = (\<not> has PmemObjCreateCallInstrStr \<and> has PmemCreateCallInstrStr),
           ti_var = var, ti_instr = None\<rparr>))"

section \<open>The trace\<close>

text \<open>
  The items are stored by pointer; a pool holds the index of its own item and of the items that belong
  to it.
\<close>

record pool =
  pl_pool_addr :: nat
  pl_addresses :: "nat list"

record 'i addr_trace =
  at_items :: "'i trace_item list"
  at_pool_addrs :: "pool list"
  at_guid_instr_map :: "(int \<times> 'i) list"
  at_failed_guids :: "(int \<times> string) list"

definition empty_trace :: "'i addr_trace" where
  "empty_trace = \<lparr>at_items = [], at_pool_addrs = [], at_guid_instr_map = [], at_failed_guids = []\<rparr>"

definition trace_add :: "'i addr_trace \<Rightarrow> 'i trace_item \<Rightarrow> 'i addr_trace" where
  "trace_add t item = t\<lparr>at_items := at_items t @ [item],
     at_pool_addrs := at_pool_addrs t @
       (if ti_is_pool item \<or> ti_is_mmap item then [\<lparr>pl_pool_addr = length (at_items t), pl_addresses = []\<rparr>] else [])\<rparr>"

definition trace_clear :: "'i addr_trace \<Rightarrow> 'i addr_trace" where
  "trace_clear t = t\<lparr>at_items := [], at_pool_addrs := []\<rparr>"

fun deserialize_trace :: "guid_map option \<Rightarrow> string list \<Rightarrow> 'i addr_trace \<Rightarrow> 'i addr_trace outcome" where
  "deserialize_trace varMap [] result = Done result"
| "deserialize_trace varMap (line # rest) result = (case parse_item varMap line of
      Failed \<Rightarrow> deserialize_trace varMap rest result
    | Throws \<Rightarrow> Throws
    | Done item \<Rightarrow> deserialize_trace varMap rest (trace_add result item))"

text \<open>
  \<open>calculatePoolOffsets\<close>: the state of the loop is the trace, the index of the last pool and whether an
  offset was obtained; a pool item that is not among the pools ends it with \<open>false\<close>.
\<close>

definition find_pool :: "pool list \<Rightarrow> nat \<Rightarrow> nat option" where
  "find_pool pools i = (let t = takeWhile (\<lambda>p. pl_pool_addr p \<noteq> i) pools in
     if length t < length pools then Some (length t) else None)"

fun pool_loop :: "nat list \<Rightarrow> nat option \<times> addr \<times> bool \<Rightarrow> 'i addr_trace \<Rightarrow> bool \<times> 'i addr_trace" where
  "pool_loop [] (last_pool, last_addr, obtained) t = (obtained, t)"
| "pool_loop (i # is) (last_pool, last_addr, obtained) t = (let item = at_items t ! i in
     if ti_is_pool item \<or> ti_is_mmap item then
       (case find_pool (at_pool_addrs t) i of
          None \<Rightarrow> (False, t)
        | Some k \<Rightarrow> pool_loop is (Some k, ti_addr item, obtained) t)
     else (case last_pool of
         None \<Rightarrow> pool_loop is (last_pool, last_addr, obtained) t
       | Some k \<Rightarrow>
         if ti_addr item \<ge> last_addr then
           pool_loop is (last_pool, last_addr, True)
             (t\<lparr>at_items := (at_items t)[i := item\<lparr>ti_pool_offset := ti_addr item - last_addr\<rparr>],
               at_pool_addrs := (at_pool_addrs t)[k := (at_pool_addrs t ! k)
                 \<lparr>pl_addresses := pl_addresses (at_pool_addrs t ! k) @ [i]\<rparr>]\<rparr>)
         else pool_loop is (last_pool, last_addr, obtained) t))"

definition calculatePoolOffsets :: "'i addr_trace \<Rightarrow> bool \<times> 'i addr_trace" where
  "calculatePoolOffsets t = (if at_pool_addrs t = [] then (False, t)
     else pool_loop [0..<length (at_items t)] (None, 0, False) t)"

text \<open>
  \<open>addressToInstruction\<close>: earlier results, positive or negative, are reused by GUID. The matcher is the
  parameter \<open>matchInstr\<close>, from source file, line and instruction text to an instruction.
\<close>

definition addressToInstruction ::
    "(string \<Rightarrow> int \<Rightarrow> string \<Rightarrow> 'i option) \<Rightarrow> nat \<Rightarrow> 'i addr_trace \<Rightarrow> bool \<times> 'i addr_trace" where
  "addressToInstruction matchInstr i t = (let item = at_items t ! i in
     case ti_var item of None \<Rightarrow> (False, t)
     | Some var \<Rightarrow>
       (case map_of (at_guid_instr_map t) (ti_guid item) of
          Some ins \<Rightarrow> (True, t\<lparr>at_items := (at_items t)[i := item\<lparr>ti_instr := Some ins\<rparr>]\<rparr>)
        | None \<Rightarrow>
          if map_of (at_failed_guids t) (ti_guid item) \<noteq> None then (False, t)
          else (case matchInstr (ge_source_file var) (ge_line var) (ge_instruction var) of
              None \<Rightarrow> (False, t\<lparr>at_failed_guids := (ti_guid item, ti_addr_str item) # at_failed_guids t\<rparr>)
            | Some ins \<Rightarrow> (True, t\<lparr>at_items := (at_items t)[i := item\<lparr>ti_instr := Some ins\<rparr>],
                at_guid_instr_map := (ti_guid item, ins) # at_guid_instr_map t\<rparr>))))"

definition addressesToInstructions ::
    "bool \<Rightarrow> (string \<Rightarrow> int \<Rightarrow> string \<Rightarrow> 'i option) \<Rightarrow> 'i addr_trace \<Rightarrow> bool \<times> 'i addr_trace" where
  "addressesToInstructions processed matchInstr t = (if \<not> processed then (False, t)
     else (True, fold (\<lambda>i t. snd (addressToInstruction matchInstr i t)) [0..<length (at_items t)] t))"


section \<open>Lemmas on the formats\<close>

lemma print_base_plain:
  assumes "b = 10 \<or> b = 16"
  shows "CHR '','' \<notin> set (print_base b n)" and "CHR ''#'' \<notin> set (print_base b n)" and "print_base b n \<noteq> []"
proof -
  have b: "2 \<le> b" "b \<le> 16" using assms by auto
  have "c \<noteq> CHR '','' \<and> c \<noteq> CHR ''#''" if c: "c \<in> set (print_base b n)" for c
  proof -
    obtain d where "d < b" "c = digit_char d" using print_base_digits [OF b, of n] c by blast
    then show ?thesis using digit_char_plain [of d] b(2) by simp
  qed
  then show "CHR '','' \<notin> set (print_base b n)" "CHR ''#'' \<notin> set (print_base b n)" by auto
  show "print_base b n \<noteq> []" using print_base_digits [OF b, of n] by blast
qed

text \<open>An entry whose text survives the format.\<close>

definition entry_printable :: "guid_entry \<Rightarrow> bool" where
  "entry_printable e \<longleftrightarrow> 0 \<le> ge_guid e \<and> ge_guid e < 2 ^ 64 \<and> 0 \<le> ge_line e \<and> ge_line e < 2 ^ 32 \<and>
     CHR ''#'' \<notin> set (ge_source_path e) \<and> CHR ''#'' \<notin> set (ge_source_file e) \<and>
     CHR ''#'' \<notin> set (ge_function e) \<and> find_str FieldSeparator (ge_instruction e) = None"

lemma parse_serialize_entry:
  assumes "entry_printable e"
  shows "parse_entry (serialize_entry e) = Done e"
proof -
  let ?ps = "[print_base 10 (nat (ge_guid e)), ge_source_path e, ge_source_file e, ge_function e,
     print_base 10 (nat (ge_line e)), ge_instruction e]"
  have j: "serialize_entry e = join FieldSeparator ?ps" by (simp add: serialize_entry_def)
  have "split_str FieldSeparator (join FieldSeparator ?ps) = ?ps"
  proof (rule split_str_join)
    show "FieldSeparator = CHR ''#'' # ''#''" by (simp add: FieldSeparator_def)
    show "\<forall>p \<in> set (butlast ?ps). CHR ''#'' \<notin> set p"
      using assms print_base_plain(2) [of 10] by (simp add: entry_printable_def)
    show "find_str FieldSeparator (last ?ps) = None" using assms by (simp add: entry_printable_def)
  qed simp
  moreover have "serialize_entry e \<noteq> []" using print_base_plain(3) [of 10] by (simp add: serialize_entry_def)
  ultimately have parts: "snd (splitList_str (serialize_entry e) FieldSeparator) = ?ps"
    by (simp add: splitList_str_def Let_def j)
  have "nat (ge_guid e) < 2 ^ 64" "nat (ge_line e) < 2 ^ 32" using assms by (auto simp: entry_printable_def nat_less_iff)
  then have "str2fmt 64 10 (print_base 10 (nat (ge_guid e))) = Some (ge_guid e)"
    "str2fmt 32 10 (print_base 10 (nat (ge_line e))) = Some (ge_line e)"
    using str2fmt_print [of 10] assms by (auto simp: entry_printable_def)
  then show ?thesis unfolding parse_entry_def parts by (simp add: EntryFields_def)
qed

lemma guid_add_last: "\<forall>x \<in> set gm. ge_guid x < ge_guid e \<Longrightarrow> guid_add gm e = gm @ [e]"
  by (induction gm) auto

lemma deserialize_serialize:
  assumes "\<forall>e \<in> set gm. entry_printable e" and "sorted_wrt (<) (map ge_guid (acc @ gm))"
  shows "deserialize_map b (serialize gm) acc = Done (acc @ gm)"
  using assms
proof (induction gm arbitrary: acc)
  case (Cons e gm)
  have "guid_add acc e = acc @ [e]" using Cons.prems(2) by (intro guid_add_last) (auto simp: sorted_wrt_append)
  then show ?case using Cons.IH [of "acc @ [e]"] Cons.prems parse_serialize_entry by (simp add: serialize_def)
qed (simp add: serialize_def)

lemma split_track: "snd (splitList_str (track_addr a guid) '','') = [print_ptr a, print_base 10 guid]"
proof -
  have "track_addr a guid = join '','' [print_ptr a, print_base 10 guid]" by (simp add: track_addr_def)
  moreover have "CHR '','' \<notin> set (print_ptr a)" using print_base_plain(1) [of 16] by (simp add: print_ptr_def)
  moreover have "find_str '','' (print_base 10 guid) = None"
  proof -
    have "c \<notin> set xs \<Longrightarrow> find_str [c] xs = None" for c xs by (induction xs) auto
    then show ?thesis using print_base_plain(1) [of 10] by blast
  qed
  ultimately have "split_str '','' (track_addr a guid) = [print_ptr a, print_base 10 guid]"
    using split_str_join [of "'',''" "CHR '',''" "[]" "[print_ptr a, print_base 10 guid]"] by simp
  moreover have "track_addr a guid \<noteq> []" by (simp add: track_addr_def)
  ultimately show ?thesis by (simp add: splitList_str_def Let_def)
qed


section \<open>Lemmas on pools\<close>

lemma map_update_same: "f x = f (xs ! k) \<Longrightarrow> map f (xs[k := x]) = map f xs"
  by (metis list_update_id map_update)

definition pool_item :: "'i trace_item \<Rightarrow> bool" where
  "pool_item it \<longleftrightarrow> ti_is_pool it \<or> ti_is_mmap it"

text \<open>As \<open>add\<close> leaves it: one pool without addresses per pool item, in order.\<close>

definition fresh_trace :: "'i addr_trace \<Rightarrow> bool" where
  "fresh_trace t \<longleftrightarrow> at_pool_addrs t = map (\<lambda>i. \<lparr>pl_pool_addr = i, pl_addresses = []\<rparr>)
     (filter (\<lambda>i. pool_item (at_items t ! i)) [0..<length (at_items t)])"

lemma fresh_empty: "fresh_trace empty_trace"
  by (simp add: fresh_trace_def empty_trace_def)

lemma fresh_add: "fresh_trace t \<Longrightarrow> fresh_trace (trace_add t item)"
proof -
  assume f: "fresh_trace t"
  have "filter (\<lambda>i. pool_item ((at_items t @ [item]) ! i)) [0..<length (at_items t)] =
      filter (\<lambda>i. pool_item (at_items t ! i)) [0..<length (at_items t)]"
    by (rule filter_cong) (auto simp: nth_append)
  then show ?thesis using f by (auto simp: fresh_trace_def trace_add_def pool_item_def)
qed

lemma fresh_deserialize: "deserialize_trace vm ls t = Done t' \<Longrightarrow> fresh_trace t \<Longrightarrow> fresh_trace t'"
  by (induction vm ls t rule: deserialize_trace.induct) (auto split: outcome.splits intro: fresh_add)

lemma find_pool_Some: "find_pool pools i = Some k \<Longrightarrow> k < length pools \<and> pl_pool_addr (pools ! k) = i"
  unfolding find_pool_def Let_def by (auto split: if_splits dest: nth_length_takeWhile)

lemma find_pool_total: "i \<in> pl_pool_addr ` set pools \<Longrightarrow> \<exists>k. find_pool pools i = Some k"
proof -
  assume "i \<in> pl_pool_addr ` set pools"
  then have "length (takeWhile (\<lambda>p. pl_pool_addr p \<noteq> i) pools) < length pools"
    by (induction pools) auto
  then show ?thesis by (simp add: find_pool_def Let_def)
qed

text \<open>
  Before index \<open>n\<close>: the items are those of \<open>t0\<close> up to the offsets, and every pool holds items after its own
  whose address is the pool's address plus their offset.
\<close>

definition pool_inv :: "'i addr_trace \<Rightarrow> nat \<Rightarrow> 'i addr_trace \<Rightarrow> bool" where
  "pool_inv t0 n t \<longleftrightarrow> length (at_items t) = length (at_items t0) \<and>
     (\<forall>i < length (at_items t0). \<exists>off. at_items t ! i = (at_items t0 ! i)\<lparr>ti_pool_offset := off\<rparr>) \<and>
     map pl_pool_addr (at_pool_addrs t) = map pl_pool_addr (at_pool_addrs t0) \<and>
     (\<forall>p \<in> set (at_pool_addrs t). \<forall>i \<in> set (pl_addresses p). i < n \<and> pl_pool_addr p < i \<and> \<not> pool_item (at_items t0 ! i) \<and>
        ti_addr (at_items t0 ! i) = ti_addr (at_items t0 ! pl_pool_addr p) + ti_pool_offset (at_items t ! i) \<and>
        ti_addr (at_items t0 ! pl_pool_addr p) \<le> ti_addr (at_items t0 ! i))"

definition last_inv :: "'i addr_trace \<Rightarrow> nat \<Rightarrow> nat option \<Rightarrow> addr \<Rightarrow> 'i addr_trace \<Rightarrow> bool" where
  "last_inv t0 n last_pool a t \<longleftrightarrow> (case last_pool of None \<Rightarrow> True
   | Some k \<Rightarrow> k < length (at_pool_addrs t) \<and> pl_pool_addr (at_pool_addrs t ! k) < n \<and>
       a = ti_addr (at_items t0 ! pl_pool_addr (at_pool_addrs t ! k)))"

lemma pool_invD:
  assumes "pool_inv t0 n t"
  shows "length (at_items t) = length (at_items t0)"
    and "i < length (at_items t0) \<Longrightarrow> \<exists>off. at_items t ! i = (at_items t0 ! i)\<lparr>ti_pool_offset := off\<rparr>"
    and "map pl_pool_addr (at_pool_addrs t) = map pl_pool_addr (at_pool_addrs t0)"
    and "p \<in> set (at_pool_addrs t) \<Longrightarrow> i \<in> set (pl_addresses p) \<Longrightarrow> i < n \<and> pl_pool_addr p < i \<and> \<not> pool_item (at_items t0 ! i) \<and>
      ti_addr (at_items t0 ! i) = ti_addr (at_items t0 ! pl_pool_addr p) + ti_pool_offset (at_items t ! i) \<and>
      ti_addr (at_items t0 ! pl_pool_addr p) \<le> ti_addr (at_items t0 ! i)"
  using assms unfolding pool_inv_def by blast+

lemma pool_inv_Suc: "pool_inv t0 n t \<Longrightarrow> pool_inv t0 (Suc n) t"
  unfolding pool_inv_def by (meson less_Suc_eq)

text \<open>Giving item \<open>n\<close> to the pool \<open>k\<close> that starts at or before it keeps the invariant.\<close>

lemma pool_inv_assign:
  assumes inv: "pool_inv t0 n t" and n: "n < length (at_items t0)" and np: "\<not> pool_item (at_items t0 ! n)"
    and k: "k < length (at_pool_addrs t)" "pl_pool_addr (at_pool_addrs t ! k) < n"
    and a: "a = ti_addr (at_items t0 ! pl_pool_addr (at_pool_addrs t ! k))" "a \<le> ti_addr (at_items t0 ! n)"
  defines "p' \<equiv> (at_pool_addrs t ! k)\<lparr>pl_addresses := pl_addresses (at_pool_addrs t ! k) @ [n]\<rparr>"
  defines "t' \<equiv> t\<lparr>at_items := (at_items t)[n := (at_items t ! n)\<lparr>ti_pool_offset := ti_addr (at_items t ! n) - a\<rparr>],
    at_pool_addrs := (at_pool_addrs t)[k := p']\<rparr>"
  shows "pool_inv t0 (Suc n) t'"
  unfolding pool_inv_def
proof (intro conjI allI impI ballI)
  note D = pool_invD [OF inv]
  obtain off where it: "at_items t ! n = (at_items t0 ! n)\<lparr>ti_pool_offset := off\<rparr>" using D(2) [OF n] by blast
  have other: "at_items t' ! i = at_items t ! i" if "i \<noteq> n" for i using that by (simp add: t'_def)
  show "map pl_pool_addr (at_pool_addrs t') = map pl_pool_addr (at_pool_addrs t0)"
    using D(3) by (simp add: t'_def p'_def map_update_same)
  show "length (at_items t') = length (at_items t0)" using D(1) by (simp add: t'_def)
  show "\<exists>off. at_items t' ! i = (at_items t0 ! i)\<lparr>ti_pool_offset := off\<rparr>" if "i < length (at_items t0)" for i
    using D(1) D(2) [OF that] it that other by (cases "i = n") (auto simp: t'_def)
  fix p i assume p: "p \<in> set (at_pool_addrs t')" and i: "i \<in> set (pl_addresses p)"
  have "p \<in> set (at_pool_addrs t) \<or> p = p'" using p set_update_subset_insert by (fastforce simp: t'_def)
  then consider q where "q \<in> set (at_pool_addrs t)" "i \<in> set (pl_addresses q)" "pl_pool_addr p = pl_pool_addr q"
    | "pl_pool_addr p = pl_pool_addr (at_pool_addrs t ! k)" "i = n" using i k(1) unfolding p'_def by force
  then have "i < Suc n \<and> pl_pool_addr p < i \<and> \<not> pool_item (at_items t0 ! i) \<and>
    ti_addr (at_items t0 ! i) = ti_addr (at_items t0 ! pl_pool_addr p) + ti_pool_offset (at_items t' ! i) \<and>
    ti_addr (at_items t0 ! pl_pool_addr p) \<le> ti_addr (at_items t0 ! i)"
  proof cases
    case 1
    then show ?thesis using D(4) [OF 1(1,2)] other [of i] by auto
  next
    case 2
    then show ?thesis using k a it n np D(1) by (simp add: t'_def)
  qed
  then show "i < Suc n" "pl_pool_addr p < i" "\<not> pool_item (at_items t0 ! i)"
    "ti_addr (at_items t0 ! i) = ti_addr (at_items t0 ! pl_pool_addr p) + ti_pool_offset (at_items t' ! i)"
    "ti_addr (at_items t0 ! pl_pool_addr p) \<le> ti_addr (at_items t0 ! i)" by blast+
qed

lemma pool_loop_inv:
  assumes "pool_inv t0 n t" and "last_inv t0 n lp a t" and "n \<le> length (at_items t0)"
    and pools: "\<And>i. i < length (at_items t0) \<Longrightarrow> pool_item (at_items t0 ! i) \<Longrightarrow> i \<in> pl_pool_addr ` set (at_pool_addrs t0)"
    and "ob \<longleftrightarrow> (\<exists>p \<in> set (at_pool_addrs t). pl_addresses p \<noteq> [])"
  shows "\<exists>ob' t'. pool_loop [n..<length (at_items t0)] (lp, a, ob) t = (ob', t') \<and> pool_inv t0 (length (at_items t0)) t' \<and>
    (ob' \<longleftrightarrow> (\<exists>p \<in> set (at_pool_addrs t'). pl_addresses p \<noteq> []))"
  using assms(1-3,5)
proof (induction "length (at_items t0) - n" arbitrary: n t lp a ob)
  case 0
  then have "n = length (at_items t0)" by simp
  then show ?case using 0 by simp
next
  case (Suc x)
  have n: "n < length (at_items t0)" using Suc.hyps(2) by simp
  then have up: "[n..<length (at_items t0)] = n # [Suc n..<length (at_items t0)]" by (rule upt_conv_Cons)
  have IHlen: "x = length (at_items t0) - Suc n" "Suc n \<le> length (at_items t0)" using Suc.hyps(2) by simp_all
  obtain off where it: "at_items t ! n = (at_items t0 ! n)\<lparr>ti_pool_offset := off\<rparr>"
    using Suc.prems(1) n unfolding pool_inv_def by blast
  have same: "pl_pool_addr ` set (at_pool_addrs t) = pl_pool_addr ` set (at_pool_addrs t0)"
    using Suc.prems(1) unfolding pool_inv_def by (metis set_map)
  note inv' = pool_inv_Suc [OF Suc.prems(1)]
  show ?case
  proof (cases "pool_item (at_items t0 ! n)")
    case True
    then obtain k where k: "find_pool (at_pool_addrs t) n = Some k" using pools [OF n] same find_pool_total by metis
    have "last_inv t0 (Suc n) (Some k) (ti_addr (at_items t0 ! n)) t" using find_pool_Some [OF k] by (simp add: last_inv_def)
    from Suc.hyps(1) [OF IHlen(1) inv' this IHlen(2) Suc.prems(4)] show ?thesis
      using True k it by (simp add: up Let_def pool_item_def)
  next
    case False
    note np0 = False
    have np: "\<not> (ti_is_pool (at_items t ! n) \<or> ti_is_mmap (at_items t ! n))" using False it by (simp add: pool_item_def)
    have last': "last_inv t0 (Suc n) lp a t" using Suc.prems(2) by (auto simp: last_inv_def split: option.splits)
    show ?thesis
    proof (cases "\<exists>k. lp = Some k \<and> a \<le> ti_addr (at_items t ! n)")
      case False
      then show ?thesis using Suc.hyps(1) [OF IHlen(1) inv' last' IHlen(2) Suc.prems(4)] np
        by (cases lp) (simp_all add: up Let_def)
    next
      case True
      then obtain k where k: "lp = Some k" "a \<le> ti_addr (at_items t0 ! n)" using it by auto
      have kk: "k < length (at_pool_addrs t)" "pl_pool_addr (at_pool_addrs t ! k) < n"
        "a = ti_addr (at_items t0 ! pl_pool_addr (at_pool_addrs t ! k))"
        using Suc.prems(2) k(1) by (auto simp: last_inv_def)
      let ?p = "at_pool_addrs t ! k"
      let ?t = "t\<lparr>at_items := (at_items t)[n := (at_items t ! n)\<lparr>ti_pool_offset := ti_addr (at_items t ! n) - a\<rparr>],
               at_pool_addrs := (at_pool_addrs t)[k := ?p\<lparr>pl_addresses := pl_addresses ?p @ [n]\<rparr>]\<rparr>"
      have "pool_inv t0 (Suc n) ?t" by (rule pool_inv_assign [OF Suc.prems(1) n np0 kk k(2)])
      moreover have "last_inv t0 (Suc n) lp a ?t" using k(1) kk by (simp add: last_inv_def)
      moreover have "True \<longleftrightarrow> (\<exists>p \<in> set (at_pool_addrs ?t). pl_addresses p \<noteq> [])"
        using kk(1) by (auto intro!: bexI [of _ "?p\<lparr>pl_addresses := pl_addresses ?p @ [n]\<rparr>"] simp: set_update_memI)
      ultimately obtain ob' t' where "pool_loop [Suc n..<length (at_items t0)] (lp, a, True) ?t = (ob', t')"
        "pool_inv t0 (length (at_items t0)) t'" "ob' \<longleftrightarrow> (\<exists>p \<in> set (at_pool_addrs t'). pl_addresses p \<noteq> [])"
        using Suc.hyps(1) [OF IHlen(1) _ _ IHlen(2)] by blast
      then show ?thesis using np True k(1) by (simp add: up Let_def)
    qed
  qed
qed

lemma pool_offsets:
  assumes "deserialize_trace varMap lines empty_trace = Done t" and "calculatePoolOffsets t = (ok, t')"
  shows "(\<forall>p \<in> set (at_pool_addrs t'). \<forall>i \<in> set (pl_addresses p).
      pl_pool_addr p < i \<and> i < length (at_items t') \<and> \<not> pool_item (at_items t' ! i) \<and>
      ti_addr (at_items t' ! i) = ti_addr (at_items t' ! pl_pool_addr p) + ti_pool_offset (at_items t' ! i) \<and>
      ti_addr (at_items t' ! pl_pool_addr p) \<le> ti_addr (at_items t' ! i)) \<and>
    length (at_items t') = length (at_items t) \<and>
    (\<forall>i < length (at_items t). \<exists>off. at_items t' ! i = (at_items t ! i)\<lparr>ti_pool_offset := off\<rparr>) \<and>
    (ok \<longleftrightarrow> (\<exists>p \<in> set (at_pool_addrs t'). pl_addresses p \<noteq> []))"
proof -
  have fresh: "fresh_trace t" by (rule fresh_deserialize [OF assms(1) fresh_empty])
  have empty: "pl_addresses p = []" if "p \<in> set (at_pool_addrs t)" for p
    using fresh that by (auto simp: fresh_trace_def)
  have keep: "\<exists>off. it = it\<lparr>ti_pool_offset := off\<rparr>" for it :: "'a trace_item"
    by (rule exI [of _ "ti_pool_offset it"]) simp
  show ?thesis
  proof (cases "at_pool_addrs t = []")
    case True
    then show ?thesis using assms(2) keep by (auto simp: calculatePoolOffsets_def)
  next
    case False
    have "pool_inv t 0 t" using empty keep by (auto simp: pool_inv_def)
    moreover have "last_inv t 0 None 0 t" by (simp add: last_inv_def)
    moreover have "i \<in> pl_pool_addr ` set (at_pool_addrs t)"
      if "i < length (at_items t)" "pool_item (at_items t ! i)" for i
      using fresh that by (auto simp: fresh_trace_def image_image)
    moreover have "False \<longleftrightarrow> (\<exists>p \<in> set (at_pool_addrs t). pl_addresses p \<noteq> [])" using empty by auto
    ultimately have inv: "pool_inv t (length (at_items t)) t'" "ok \<longleftrightarrow> (\<exists>p \<in> set (at_pool_addrs t'). pl_addresses p \<noteq> [])"
      using pool_loop_inv [of t 0 t None 0 False] assms(2) False by (auto simp: calculatePoolOffsets_def)
    have same: "ti_addr (at_items t' ! i) = ti_addr (at_items t ! i) \<and> pool_item (at_items t' ! i) = pool_item (at_items t ! i)"
      if "i < length (at_items t)" for i
    proof -
      obtain off where "at_items t' ! i = (at_items t ! i)\<lparr>ti_pool_offset := off\<rparr>" using inv(1) \<open>i < length (at_items t)\<close> unfolding pool_inv_def by blast
      then show ?thesis by (simp add: pool_item_def)
    qed
    have main: "pl_pool_addr p < i \<and> i < length (at_items t') \<and> \<not> pool_item (at_items t' ! i) \<and>
      ti_addr (at_items t' ! i) = ti_addr (at_items t' ! pl_pool_addr p) + ti_pool_offset (at_items t' ! i) \<and>
      ti_addr (at_items t' ! pl_pool_addr p) \<le> ti_addr (at_items t' ! i)"
      if pi: "p \<in> set (at_pool_addrs t')" "i \<in> set (pl_addresses p)" for p i
    proof -
      have *: "i < length (at_items t) \<and> pl_pool_addr p < i \<and> \<not> pool_item (at_items t ! i) \<and>
        ti_addr (at_items t ! i) = ti_addr (at_items t ! pl_pool_addr p) + ti_pool_offset (at_items t' ! i) \<and>
        ti_addr (at_items t ! pl_pool_addr p) \<le> ti_addr (at_items t ! i)"
        using inv(1) pi unfolding pool_inv_def by blast
      then have "pl_pool_addr p < length (at_items t)" "i < length (at_items t)" by linarith+
      note s = same [OF this(1)] same [OF this(2)]
      have "length (at_items t') = length (at_items t)" using inv(1) by (simp add: pool_inv_def)
      with * s show ?thesis by auto
    qed
    have rest: "length (at_items t') = length (at_items t)"
      "\<forall>i < length (at_items t). \<exists>off. at_items t' ! i = (at_items t ! i)\<lparr>ti_pool_offset := off\<rparr>"
      using inv(1) unfolding pool_inv_def by blast+
    show ?thesis using main rest inv(2) by blast
  qed
qed

lemma pool_loop_caches:
  "at_guid_instr_map (snd (pool_loop is st t)) = at_guid_instr_map t \<and> at_failed_guids (snd (pool_loop is st t)) = at_failed_guids t"
  by (induction "is" st t rule: pool_loop.induct) (auto simp: Let_def split: option.splits)

lemma pool_offsets_caches:
  "at_guid_instr_map (snd (calculatePoolOffsets t)) = at_guid_instr_map t" "at_failed_guids (snd (calculatePoolOffsets t)) = at_failed_guids t"
  by (simp_all add: calculatePoolOffsets_def pool_loop_caches)

section \<open>Lemmas on the instruction cache\<close>

definition resolve :: "(string \<Rightarrow> int \<Rightarrow> string \<Rightarrow> 'i option) \<Rightarrow> guid_entry \<Rightarrow> 'i option" where
  "resolve matchInstr e = matchInstr (ge_source_file e) (ge_line e) (ge_instruction e)"

text \<open>Resolving every item afresh.\<close>

definition resolved :: "(string \<Rightarrow> int \<Rightarrow> string \<Rightarrow> 'i option) \<Rightarrow> 'i trace_item \<Rightarrow> 'i trace_item" where
  "resolved matchInstr it = (case Option.bind (ti_var it) (resolve matchInstr) of
     None \<Rightarrow> it | Some ins \<Rightarrow> it\<lparr>ti_instr := Some ins\<rparr>)"

definition cache_ok :: "(string \<Rightarrow> int \<Rightarrow> string \<Rightarrow> 'i option) \<Rightarrow> guid_map \<Rightarrow> 'i addr_trace \<Rightarrow> bool" where
  "cache_ok mi gm t \<longleftrightarrow>
     (\<forall>g ins. map_of (at_guid_instr_map t) g = Some ins \<longrightarrow> (\<exists>e. guid_find gm g = Some e \<and> resolve mi e = Some ins)) \<and>
     (\<forall>g. map_of (at_failed_guids t) g \<noteq> None \<longrightarrow> (\<exists>e. guid_find gm g = Some e \<and> resolve mi e = None))"

lemma addressToInstruction_resolved:
  assumes c: "cache_ok mi gm t" and i: "i < length (at_items t)"
    and var: "ti_var (at_items t ! i) = guid_find gm (ti_guid (at_items t ! i))"
  shows "at_items (snd (addressToInstruction mi i t)) = (at_items t)[i := resolved mi (at_items t ! i)]"
    and "cache_ok mi gm (snd (addressToInstruction mi i t))"
proof -
  let ?it = "at_items t ! i"
  have "at_items (snd (addressToInstruction mi i t)) = (at_items t)[i := resolved mi ?it] \<and>
      cache_ok mi gm (snd (addressToInstruction mi i t))"
  proof (cases "ti_var ?it")
    case None
    then show ?thesis using c by (simp add: addressToInstruction_def resolved_def)
  next
    case (Some e)
    then have e: "guid_find gm (ti_guid ?it) = Some e" using var by simp
    show ?thesis
    proof (cases "map_of (at_guid_instr_map t) (ti_guid ?it)")
      case (Some ins)
      then have "resolve mi e = Some ins" using c e unfolding cache_ok_def by fastforce
      then show ?thesis using Some \<open>ti_var ?it = Some e\<close> c
        by (simp add: addressToInstruction_def resolved_def cache_ok_def)
    next
      case none: None
      show ?thesis
      proof (cases "map_of (at_failed_guids t) (ti_guid ?it)")
        case (Some s)
        then have "resolve mi e = None" using c e unfolding cache_ok_def by fastforce
        then show ?thesis using Some none \<open>ti_var ?it = Some e\<close> c by (simp add: addressToInstruction_def resolved_def)
      next
        case None
        then show ?thesis using none \<open>ti_var ?it = Some e\<close> c e
          by (cases "resolve mi e") (auto simp: addressToInstruction_def resolved_def cache_ok_def resolve_def Let_def)
      qed
    qed
  qed
  then show "at_items (snd (addressToInstruction mi i t)) = (at_items t)[i := resolved mi (at_items t ! i)]"
    "cache_ok mi gm (snd (addressToInstruction mi i t))" by blast+
qed

lemma fold_resolved:
  assumes "cache_ok mi gm t" and "\<forall>it \<in> set (at_items t). ti_var it = guid_find gm (ti_guid it)" and "n \<le> length (at_items t)"
  shows "at_items (fold (\<lambda>i t. snd (addressToInstruction mi i t)) [0..<n] t) =
      map (resolved mi) (take n (at_items t)) @ drop n (at_items t) \<and>
    cache_ok mi gm (fold (\<lambda>i t. snd (addressToInstruction mi i t)) [0..<n] t)"
  using assms(3)
proof (induction n)
  case (Suc n)
  let ?t = "fold (\<lambda>i t. snd (addressToInstruction mi i t)) [0..<n] t"
  have IH: "at_items ?t = map (resolved mi) (take n (at_items t)) @ drop n (at_items t)" "cache_ok mi gm ?t"
    using Suc by simp_all
  have nth: "at_items ?t ! n = at_items t ! n" "n < length (at_items ?t)" using IH(1) Suc.prems by (simp_all add: nth_append)
  then have "ti_var (at_items ?t ! n) = guid_find gm (ti_guid (at_items ?t ! n))" using assms(2) Suc.prems by simp
  note step = addressToInstruction_resolved [OF IH(2) nth(2) this]
  have "(map (resolved mi) (take n (at_items t)) @ drop n (at_items t))[n := resolved mi (at_items t ! n)] =
      map (resolved mi) (take (Suc n) (at_items t)) @ drop (Suc n) (at_items t)"
    using Suc.prems by (simp add: list_update_append Cons_nth_drop_Suc [symmetric] take_Suc_conv_app_nth)
  then show ?case using step IH(1) nth(1) by simp
qed (use assms(1) in simp)

definition vars_ok :: "guid_map \<Rightarrow> 'i addr_trace \<Rightarrow> bool" where
  "vars_ok gm t \<longleftrightarrow> (\<forall>it \<in> set (at_items t). ti_var it = guid_find gm (ti_guid it)) \<and>
     at_guid_instr_map t = [] \<and> at_failed_guids t = []"

lemma parse_item_var: "parse_item (Some gm) s = Done it \<Longrightarrow> ti_var it = guid_find gm (ti_guid it)"
  by (auto simp: parse_item_def Let_def split: if_splits option.splits)

lemma vars_ok_deserialize: "deserialize_trace (Some gm) ls t = Done t' \<Longrightarrow> vars_ok gm t \<Longrightarrow> vars_ok gm t'"
  by (induction "Some gm" ls t rule: deserialize_trace.induct)
     (auto split: outcome.splits simp: vars_ok_def trace_add_def dest: parse_item_var)

lemma parse_track:
  assumes "a \<noteq> 0" and "guid < 2 ^ 32"
  shows "\<exists>item. parse_item varMap (track_addr a guid) = Done item \<and> ti_addr item = a \<and> ti_guid item = int guid \<and>
    ti_var item = Option.bind varMap (\<lambda>gm. guid_find gm (int guid)) \<and> ti_pool_offset item = 0"
proof -
  have "hex_body (print_ptr a) = print_base 16 (unat a)" using assms(1) by (simp add: print_ptr_def hex_body_def)
  moreover have "unat a < 2 ^ 64" using unsigned_less [of a] by simp
  then have "str2fmt 64 16 (print_base 16 (unat a)) = Some (int (unat a))" using str2fmt_print [of 16 "unat a" 64] by simp
  moreover have "str2fmt 64 10 (print_base 10 guid) = Some (int guid)" using str2fmt_print [of 10 guid 64] assms(2) by simp
  moreover have "word_of_int (int (unat a)) = a" by simp
  ultimately show ?thesis unfolding parse_item_def split_track
    by (cases varMap) (simp_all add: TraceEntryFields_def Let_def)
qed

lemma addressToInstruction_pools: "at_pool_addrs (snd (addressToInstruction mi i t)) = at_pool_addrs t"
  by (simp add: addressToInstruction_def Let_def split: option.split)

lemma addressesToInstructions_pools: "at_pool_addrs (snd (addressesToInstructions b mi t)) = at_pool_addrs t"
proof -
  have "at_pool_addrs (fold (\<lambda>i t. snd (addressToInstruction mi i t)) is t) = at_pool_addrs t" for "is"
    by (induction "is" arbitrary: t) (simp_all add: addressToInstruction_pools)
  then show ?thesis by (simp add: addressesToInstructions_def)
qed

lemma parse_item_instr: "parse_item vm s = Done item \<Longrightarrow> ti_instr item = None"
  by (auto simp: parse_item_def Let_def split: if_splits option.splits)

lemma trace_instr_none:
  "deserialize_trace vm ls t = Done t' \<Longrightarrow> list_all (\<lambda>it. ti_instr it = None) (at_items t) \<Longrightarrow> list_all (\<lambda>it. ti_instr it = None) (at_items t')"
  by (induction vm ls t rule: deserialize_trace.induct)
     (simp_all add: trace_add_def parse_item_instr split: outcome.splits)

section \<open>Properties\<close>

text \<open>
  The trace format round trip. A line that the runtime prints for a non-null address and a GUID is
  parsed into an item with this address and this GUID, linked to the entry of the GUID map.
\<close>

theorem trace_line_roundtrip:
  assumes "a \<noteq> 0" and "guid < 2 ^ 32"
  shows "\<exists>item. parse_item varMap (track_addr a guid) = Done item \<and> ti_addr item = a \<and> ti_guid item = int guid \<and>
    ti_var item = Option.bind varMap (\<lambda>gm. guid_find gm (int guid)) \<and> ti_pool_offset item = 0"
  using parse_track [OF assms] .

theorem trace_line_roundtrip_witness:
  "\<exists>item. parse_item None (track_addr 0x7fba19400000 207) = Done item \<and> ti_addr item = 0x7fba19400000 \<and> ti_guid item = 207"
  using trace_line_roundtrip [of "0x7fba19400000" 207 None] by auto

text \<open>
  A null address breaks the reader: the runtime prints \<open>(nil)\<close> for it, and parsing the line throws
  an exception that no caller handles, instead of skipping the line.
\<close>

theorem null_address_throws: "parse_item varMap (track_addr 0 guid) = Throws"
proof -
  have "str2fmt 64 16 (hex_body (print_ptr 0)) = None"
    by (simp add: print_ptr_def hex_body_def str2fmt_def is_space_def skip_prefix_def in_base_def hex_val_def Let_def)
  then show ?thesis unfolding parse_item_def split_track by (simp add: TraceEntryFields_def Let_def)
qed

text \<open>
  The GUID map survives being written to and read from its file: for a map ordered by GUID whose numbers fit
  their types, whose paths and function names contain no \<open>#\<close> and whose instructions do not contain the
  separator, deserialising the serialised map yields the map itself.
\<close>

theorem guid_map_roundtrip:
  assumes "\<forall>e \<in> set gm. entry_printable e" and "sorted_wrt (<) (map ge_guid gm)"
  shows "deserialize_map ignoreBadLine (serialize gm) [] = Done gm"
  using deserialize_serialize [OF assms(1), of "[]"] assms(2) by simp

definition sample_guid_map :: guid_map where
  "sample_guid_map =
     [\<lparr>ge_guid = 200, ge_source_path = ''/test/pmem'', ge_source_file = ''hello.c'', ge_function = ''main'', ge_line = 76,
       ge_instruction = ''call %struct.pmemobjpool* @pmemobj_create(i8* %25)''\<rparr>,
      \<lparr>ge_guid = 201, ge_source_path = ''/test/pmem'', ge_source_file = ''hello.c'', ge_function = ''main'', ge_line = 80,
       ge_instruction = ''%32 = load i64, i64* %7, !dbg !66''\<rparr>]"

theorem guid_map_roundtrip_witness:
  "deserialize_map False (serialize sample_guid_map) [] = Done sample_guid_map"
  by (rule guid_map_roundtrip)
     (simp_all add: sample_guid_map_def entry_printable_def FieldSeparator_def)

text \<open>
  Pool assignment. For a trace read from a file, \<open>calculatePoolOffsets\<close> never fails to find a pool;
  every item it assigns to a pool comes after the pool's own item, is no pool item itself, and the
  pool's address plus the item's offset is the item's address; the other fields of the items are
  untouched, and the result says whether any item was assigned.
\<close>

theorem pool_offsets_correct:
  assumes "deserialize_trace varMap lines empty_trace = Done t" and "calculatePoolOffsets t = (ok, t')"
  shows "(\<forall>p \<in> set (at_pool_addrs t'). \<forall>i \<in> set (pl_addresses p).
      pl_pool_addr p < i \<and> i < length (at_items t') \<and> \<not> pool_item (at_items t' ! i) \<and>
      ti_addr (at_items t' ! i) = ti_addr (at_items t' ! pl_pool_addr p) + ti_pool_offset (at_items t' ! i) \<and>
      ti_addr (at_items t' ! pl_pool_addr p) \<le> ti_addr (at_items t' ! i)) \<and>
    length (at_items t') = length (at_items t) \<and>
    (\<forall>i < length (at_items t). \<exists>off. at_items t' ! i = (at_items t ! i)\<lparr>ti_pool_offset := off\<rparr>) \<and>
    (ok \<longleftrightarrow> (\<exists>p \<in> set (at_pool_addrs t'). pl_addresses p \<noteq> []))"
  by (rule pool_offsets [OF assms])

definition sample_trace_lines :: "string list" where
  "sample_trace_lines = [''0x100,200'', ''0x140,201'', ''0xf0,201'']"

definition sample_trace :: "nat addr_trace" where
  "sample_trace = (case deserialize_trace (Some sample_guid_map) sample_trace_lines empty_trace of Done t \<Rightarrow> t | _ \<Rightarrow> empty_trace)"

lemma sample_trace_read: "deserialize_trace (Some sample_guid_map) sample_trace_lines empty_trace = Done sample_trace"
  by code_simp

theorem pool_offsets_correct_witness:
  "list_all (\<lambda>p. list_all (\<lambda>i. ti_addr (at_items (snd (calculatePoolOffsets sample_trace)) ! i) =
     ti_addr (at_items (snd (calculatePoolOffsets sample_trace)) ! pl_pool_addr p) +
       ti_pool_offset (at_items (snd (calculatePoolOffsets sample_trace)) ! i)) (pl_addresses p))
     (at_pool_addrs (snd (calculatePoolOffsets sample_trace))) \<and>
   map pl_addresses (at_pool_addrs (snd (calculatePoolOffsets sample_trace))) = [[1]]"
proof
  show "list_all (\<lambda>p. list_all (\<lambda>i. ti_addr (at_items (snd (calculatePoolOffsets sample_trace)) ! i) =
     ti_addr (at_items (snd (calculatePoolOffsets sample_trace)) ! pl_pool_addr p) +
       ti_pool_offset (at_items (snd (calculatePoolOffsets sample_trace)) ! i)) (pl_addresses p))
     (at_pool_addrs (snd (calculatePoolOffsets sample_trace)))"
    unfolding list_all_iff using pool_offsets_correct [OF sample_trace_read surjective_pairing] by blast
qed code_simp

text \<open>
  The caches of \<open>addressToInstruction\<close> are invisible. For a trace read against a GUID map, resolving all items
  with the positive and negative caches yields the items that asking the matcher for each
  item on its own would yield.
\<close>

theorem cached_resolution:
  assumes "deserialize_trace (Some gm) lines empty_trace = Done t"
  shows "fst (addressesToInstructions True mi t) \<and>
    at_items (snd (addressesToInstructions True mi t)) = map (resolved mi) (at_items t)"
proof -
  have v: "vars_ok gm t" by (rule vars_ok_deserialize [OF assms]) (simp add: vars_ok_def empty_trace_def)
  then have "cache_ok mi gm t" by (simp add: vars_ok_def cache_ok_def)
  from fold_resolved [OF this _ le_refl] v show ?thesis by (simp add: vars_ok_def addressesToInstructions_def)
qed

theorem cached_resolution_witness:
  "map ti_instr (at_items (snd (addressesToInstructions True (\<lambda>f l s. if l = 76 then Some (1::nat) else None) sample_trace))) =
     [Some 1, None, None]"
proof -
  have "map ti_instr (map (resolved (\<lambda>f l s. if l = 76 then Some (1::nat) else None)) (at_items sample_trace)) = [Some 1, None, None]"
    by code_simp
  then show ?thesis using cached_resolution [OF sample_trace_read] by simp
qed

end
