(* ===== verification/Preparation.thy ===== *)
theory Preparation
  imports Reactor FaultLocation SliceFault AddrTrace
begin

text \<open>
  \<open>Reactor::prepare\<close> (\<open>reactor/lib/core.cpp\<close>): it parses the command line, chooses the checkpoint file, reads the bitcode file and the GUID map and, in
  standalone mode, reads the address trace, assigns its addresses to pools and resolves them to instructions. The file system and
  LLVM's reader of bitcode files are parameters. An outermost \<^term>\<open>None\<close> is undefined behaviour. The lemmas show what
  a prepared reactor can rely on, in which mode.
\<close>

section \<open>State\<close>

text \<open>\<open>access\<close>, the lines that \<open>std::ifstream\<close> and \<open>getline\<close> deliver, and \<open>parseModule\<close>, which returns null after an error.\<close>

record host =
  ho_exists :: "string \<Rightarrow> bool"
  ho_lines :: "string \<Rightarrow> string list option"
  ho_parse_module :: "string \<Rightarrow> func list option"

text \<open>
  The fields of \<open>ReactorState\<close> that \<open>prepare\<close> sets. The type \<^typ>\<open>'v\<close> stands for the pointers to instructions in the address trace and in the
  dependence graph, \<^typ>\<open>'f\<close> for those to functions.
\<close>

record ('v, 'f) reactor_state =
  rs_server :: bool
  rs_ready :: bool
  rs_options :: reactor_options
  rs_module :: "func list"
  rs_var_map :: guid_map
  rs_trace :: "'v addr_trace"
  rs_slicer :: "'f dg_slicer"

text \<open>The program ends when the preparation fails, so the state is part of the result only when it succeeds.\<close>

datatype ('v, 'f) preparation = Prep_exits int | Prep_throws | Prep_fails | Prep_ready "('v, 'f) reactor_state"

section \<open>Operations\<close>

text \<open>A new slicer (\<open>DgSlicer::DgSlicer\<close>), before the dependence graph is computed.\<close>

definition created_slicer :: "slice_direction \<Rightarrow> 'f dg_slicer" where
  "created_slicer d = \<lparr>ds_direction = d, ds_last_slice_id = 0, ds_dependency_computed = False, ds_func_dgs = None, ds_marks = no_marks,
     ds_statistics = \<lparr>nodesTotal = 0, nodesRemoved = 0, blocksTotal = 0, blocksRemoved = 0, funcsTotal = 0, funcsRemoved = 0\<rparr>\<rparr>"

text \<open>Resolving the items of the trace with the matcher; \<open>value_of\<close> is the pointer to an instruction.\<close>

definition match_entry :: "func list \<Rightarrow> guid_entry \<Rightarrow> (instruction option \<times> bool) option" where
  "match_entry M var = matchInstr M \<lparr>fl_file = ge_source_file var, fl_line = nat (ge_line var)\<rparr> (ge_instruction var) True True False"

definition trace_match :: "func list \<Rightarrow> (instruction \<Rightarrow> 'v) \<Rightarrow> string \<Rightarrow> int \<Rightarrow> string \<Rightarrow> 'v option" where
  "trace_match M value_of file line instr =
     (case matchInstr M \<lparr>fl_file = file, fl_line = nat line\<rparr> instr True True False of
        Some (Some i, _) \<Rightarrow> Some (value_of i) | _ \<Rightarrow> None)"

definition resolve_trace :: "func list \<Rightarrow> (instruction \<Rightarrow> 'v) \<Rightarrow> 'v addr_trace \<Rightarrow> (bool \<times> 'v addr_trace) option" where
  "resolve_trace M value_of t =
     (if list_all (\<lambda>it. case ti_var it of None \<Rightarrow> True | Some var \<Rightarrow> match_entry M var \<noteq> None) (at_items t)
      then Some (addressesToInstructions True (trace_match M value_of) t) else None)"

text \<open>Steps 2.a and 2.b, the standalone mode only. A null file name is passed on to \<open>std::ifstream\<close>.\<close>

definition prepare_standalone ::
    "host \<Rightarrow> (instruction \<Rightarrow> 'v) \<Rightarrow> func list \<Rightarrow> guid_map \<Rightarrow> reactor_options \<Rightarrow> 'v addr_trace outcome option" where
  "prepare_standalone host value_of M var_map options = do {
     address_file \<leftarrow> opt_address_file options;
     case ho_lines host address_file of None \<Rightarrow> Some Failed
     | Some lines \<Rightarrow> (case deserialize_trace (Some var_map) lines empty_trace of Failed \<Rightarrow> Some Failed | Throws \<Rightarrow> Some Throws
        | Done t0 \<Rightarrow>
          if at_pool_addrs t0 = [] then Some Failed
          else let (obtained, t1) = calculatePoolOffsets t0
            in if \<not> obtained then Some Failed
               else do {
                 (translated, t2) \<leftarrow> resolve_trace M value_of t1;
                 Some (if \<not> translated then Failed else Done t2)
               })
   }"

text \<open>The file that goes with the library; \<open>get_checkpoint_file\<close> returns null for an unknown one.\<close>

definition with_checkpoint_file :: "reactor_options \<Rightarrow> reactor_options option" where
  "with_checkpoint_file options = (case opt_pmem_library options of None \<Rightarrow> Some options
    | Some lib \<Rightarrow> (case get_checkpoint_file lib of None \<Rightarrow> None
       | Some checkpoint_file \<Rightarrow> Some (options\<lparr>opt_checkpoint_file := Some checkpoint_file\<rparr>)))"

text \<open>Steps 0 to 2 and the creation of the slicer. The module is dereferenced without a test.\<close>

definition prepare_module ::
    "host \<Rightarrow> (instruction \<Rightarrow> 'v) \<Rightarrow> bool \<Rightarrow> reactor_options \<Rightarrow> string \<Rightarrow> ('v, 'f) preparation option" where
  "prepare_module host value_of server options hook_guid_file = do {
     M \<leftarrow> ho_parse_module host (opt_bc_file options);
     case ho_lines host hook_guid_file of None \<Rightarrow> Some Prep_fails
     | Some guid_lines \<Rightarrow> (case deserialize_map False guid_lines [] of Failed \<Rightarrow> Some Prep_fails | Throws \<Rightarrow> Some Prep_throws
        | Done var_map \<Rightarrow> do {
            result \<leftarrow> (if server then Some (Done empty_trace) else prepare_standalone host value_of M var_map options);
            Some (case result of Failed \<Rightarrow> Prep_fails | Throws \<Rightarrow> Prep_throws
              | Done t \<Rightarrow> Prep_ready \<lparr>rs_server = server, rs_ready = True, rs_options = options, rs_module = M, rs_var_map = var_map,
                  rs_trace = t, rs_slicer = created_slicer Backward\<rparr>)
          })
   }"

definition prepare ::
    "host \<Rightarrow> (instruction \<Rightarrow> 'v) \<Rightarrow> bool \<Rightarrow> getopt_result list \<Rightarrow> ('v, 'f) preparation option" where
  "prepare host value_of server args = (case parse_options (ho_exists host) args of
      Help_exit \<Rightarrow> Some (Prep_exits 0)
    | Rejected \<Rightarrow> Some Prep_fails
    | Accepted options \<Rightarrow>
      if \<not> server \<and> opt_fault_instr options = [] then Some Prep_fails
      else if \<not> server \<and> opt_fault_loc options = [] then Some Prep_fails
      else (case with_checkpoint_file options of None \<Rightarrow> Some Prep_fails
        | Some options' \<Rightarrow> (case opt_hook_guid_file options' of None \<Rightarrow> Some Prep_fails
           | Some hook_guid_file \<Rightarrow> prepare_module host value_of server options' hook_guid_file)))"

section \<open>Lemmas\<close>

text \<open>
  The trace as a standalone reaction needs it: every address assigned to a pool is the address of the pool's item plus the offset, some pool has an address, and
  every item is linked to its entry of the GUID map and resolved to what the matcher finds for that entry.
\<close>

definition trace_prepared :: "(string \<Rightarrow> int \<Rightarrow> string \<Rightarrow> 'v option) \<Rightarrow> guid_map \<Rightarrow> 'v addr_trace \<Rightarrow> bool" where
  "trace_prepared mi gm t \<longleftrightarrow>
     (\<forall>p \<in> set (at_pool_addrs t). \<forall>i \<in> set (pl_addresses p). i < length (at_items t) \<and> \<not> pool_item (at_items t ! i) \<and>
        ti_addr (at_items t ! i) = ti_addr (at_items t ! pl_pool_addr p) + ti_pool_offset (at_items t ! i)) \<and>
     (\<exists>p \<in> set (at_pool_addrs t). pl_addresses p \<noteq> []) \<and>
     (\<forall>it \<in> set (at_items t). ti_var it = guid_find gm (ti_guid it) \<and> ti_instr it = Option.bind (ti_var it) (resolve mi))"

lemma prepare_standalone_trace:
  assumes "prepare_standalone host value_of M gm o1 = Some (Done t)"
  shows "trace_prepared (trace_match M value_of) gm t"
proof -
  from assms obtain lines t0 t1 where t0: "deserialize_trace (Some gm) lines empty_trace = Done t0"
    and t1: "calculatePoolOffsets t0 = (True, t1)" and t: "t = snd (addressesToInstructions True (trace_match M value_of) t1)"
    unfolding prepare_standalone_def
    by (auto simp: resolve_trace_def split: bind_splits option.splits outcome.splits prod.splits if_splits)
  let ?mi = "trace_match M value_of"
  note pools = pool_offsets [OF t0 t1]
  have v: "vars_ok gm t0" by (rule vars_ok_deserialize [OF t0]) (simp add: vars_ok_def empty_trace_def)
  have none: "ti_instr it = None" if "it \<in> set (at_items t0)" for it
    using trace_instr_none [OF t0] that by (simp add: empty_trace_def list_all_iff)
  have caches: "cache_ok ?mi gm t1" using v pool_offsets_caches [of t0] t1 by (simp add: vars_ok_def cache_ok_def)
  have old: "\<exists>it0 \<in> set (at_items t0). \<exists>off. it = it0\<lparr>ti_pool_offset := off\<rparr>" if "it \<in> set (at_items t1)" for it
    using that pools by (metis in_set_conv_nth)
  have vars: "\<forall>it \<in> set (at_items t1). ti_var it = guid_find gm (ti_guid it)"
    using old v unfolding vars_ok_def by fastforce
  have items: "at_items t = map (resolved ?mi) (at_items t1)"
    using fold_resolved [OF caches vars le_refl] t by (simp add: addressesToInstructions_def)
  have same: "at_pool_addrs t = at_pool_addrs t1" using t by (simp add: addressesToInstructions_pools)
  have res: "ti_addr (resolved ?mi it) = ti_addr it" "ti_pool_offset (resolved ?mi it) = ti_pool_offset it" "ti_var (resolved ?mi it) = ti_var it"
    "ti_guid (resolved ?mi it) = ti_guid it" "pool_item (resolved ?mi it) = pool_item it" for it :: "'a trace_item"
    by (simp_all add: resolved_def pool_item_def split: option.split)
  have "ti_instr (resolved ?mi it) = Option.bind (ti_var it) (resolve ?mi)" if "it \<in> set (at_items t1)" for it
    using old [OF that] none by (auto simp: resolved_def split: option.split)
  then have "\<forall>it \<in> set (at_items t). ti_var it = guid_find gm (ti_guid it) \<and> ti_instr it = Option.bind (ti_var it) (resolve ?mi)"
    using vars unfolding items by (auto simp: res)
  moreover have "i < length (at_items t) \<and> \<not> pool_item (at_items t ! i) \<and>
      ti_addr (at_items t ! i) = ti_addr (at_items t ! pl_pool_addr p) + ti_pool_offset (at_items t ! i)"
    if "p \<in> set (at_pool_addrs t)" "i \<in> set (pl_addresses p)" for p i
  proof -
    have "pl_pool_addr p < i" "i < length (at_items t1)" "\<not> pool_item (at_items t1 ! i)"
      "ti_addr (at_items t1 ! i) = ti_addr (at_items t1 ! pl_pool_addr p) + ti_pool_offset (at_items t1 ! i)"
      using pools that same by auto
    then show ?thesis by (simp add: items res)
  qed
  moreover have "\<exists>p \<in> set (at_pool_addrs t). pl_addresses p \<noteq> []" using pools same by simp
  ultimately show ?thesis unfolding trace_prepared_def by blast
qed

lemma prepare_cases:
  assumes "prepare host value_of server args = Some (Prep_ready s)"
  obtains o1 guid_file where "parse_options (ho_exists host) args = Accepted o1"
    and "\<not> server \<longrightarrow> opt_fault_instr o1 \<noteq> [] \<and> opt_fault_loc o1 \<noteq> []"
    and "with_checkpoint_file o1 = Some (rs_options s)"
    and "prepare_module host value_of server (rs_options s) guid_file = Some (Prep_ready s)"
proof -
  have opts: "rs_options s = o2" if "prepare_module host value_of server o2 g = Some (Prep_ready s)" for o2 g
    using that unfolding prepare_module_def by (auto split: bind_splits option.splits outcome.splits)
  obtain o1 where o1: "parse_options (ho_exists host) args = Accepted o1"
    using assms unfolding prepare_def by (cases "parse_options (ho_exists host) args") simp_all
  have given: "\<not> server \<longrightarrow> opt_fault_instr o1 \<noteq> [] \<and> opt_fault_loc o1 \<noteq> []"
    using assms unfolding prepare_def by (simp add: o1 split: if_split_asm) blast
  obtain o2 guid_file where o2: "with_checkpoint_file o1 = Some o2" "prepare_module host value_of server o2 guid_file = Some (Prep_ready s)"
    using assms given unfolding prepare_def by (simp add: o1 split: if_split_asm option.split_asm)
  show thesis by (rule that [OF o1 given]) (use o2 opts [OF o2(2)] in \<open>simp_all\<close>)
qed

lemma prepare_module_ready:
  assumes "prepare_module host value_of server o2 guid_file = Some (Prep_ready s)"
  shows "rs_ready s" and "rs_server s = server" and "rs_slicer s = created_slicer Backward"
    and "ho_parse_module host (opt_bc_file o2) = Some (rs_module s)"
    and "if server then rs_trace s = empty_trace else trace_prepared (trace_match (rs_module s) value_of) (rs_var_map s) (rs_trace s)"
  using assms unfolding prepare_module_def
  by (auto split: bind_splits option.splits outcome.splits if_splits intro: prepare_standalone_trace)

section \<open>Properties\<close>


text \<open>A program whose pool is created at 256 (GUID 200), with loads from 320 and 336 on line 76 (GUID 201).\<close>

definition sample_host :: host where
  "sample_host = \<lparr>ho_exists = (\<lambda>_. True),
     ho_lines = (\<lambda>f. if f = ''guid.map''
       then Some [''200##/src##hello.c##main##76##call %struct.pmemobjpool* @pmemobj_create(i8* %25)'',
         ''201##/src##hello.c##main##76##%4 = load i64, i64* %3, !dbg !9'']
       else if f = ''trace'' then Some [''0x100,200'', ''0x140,201'', ''0x150,201''] else None),
     ho_parse_module = (\<lambda>f. if f = ''a.bc'' then Some sample_module else None)\<rparr>"

definition standalone_args :: "getopt_result list" where
  "standalone_args = sample_args @ [Opt (CHR ''a'') ''trace'', Opt (CHR ''i'') ''%4 = load i64, i64* %3, !dbg !9'', Opt (CHR ''c'') ''hello.c:76'']"

definition standalone_state :: "(nat, nat) reactor_state" where
  "standalone_state = (case prepare sample_host in_id False standalone_args of Some (Prep_ready s) \<Rightarrow> s
     | _ \<Rightarrow> \<lparr>rs_server = True, rs_ready = False, rs_options = zero_options, rs_module = [], rs_var_map = [], rs_trace = empty_trace,
         rs_slicer = created_slicer Backward\<rparr>)"

lemma standalone_prepared: "prepare sample_host in_id False standalone_args = Some (Prep_ready standalone_state)"
proof -
  have "(case prepare sample_host in_id False standalone_args of Some (Prep_ready (s :: (nat, nat) reactor_state)) \<Rightarrow> True | _ \<Rightarrow> False)"
    by code_simp
  then show ?thesis unfolding standalone_state_def by (auto split: option.splits preparation.splits)
qed


end
