(* ===== verification/ReactionLogs.thy ===== *)
theory ReactionLogs
  imports Reactor
begin

text \<open>
  The logs of a reaction as a whole (steps 4a to 4c of \<open>Reactor::react\<close> in \<open>reactor/lib/core.cpp\<close>): the lemmas compose the construction of the sequence log, of the
  transaction log and of the multimaps, and the assignment of pool addresses, into what \<^const>\<open>reaction_logs\<close> builds from a checkpoint log.
\<close>

section \<open>Growing memory\<close>

lemma load_bytes_grow: "load_bytes m q n = Some bs \<Longrightarrow> load_bytes (m\<lparr>heap := heap m @ blocks\<rparr>) q n = Some bs"
  by (cases q) (auto simp: nth_append split: if_splits)

lemma load_bytes_shorter: "load_bytes m q n = Some bs \<Longrightarrow> k \<le> n \<Longrightarrow> load_bytes m q k \<noteq> None"
proof (cases q)
  case (Mapped a)
  assume "load_bytes m q n = Some bs" and "k \<le> n"
  then have "mapped_range (pm m) a n" using read_mapped_None [of "pm m" a n] Mapped by auto
  then show ?thesis using Mapped \<open>k \<le> n\<close> by (simp add: read_mapped_None mapped_range_iff del: not_None_eq)
qed (auto split: if_splits)

lemma entry_logs_data:
  assumes "entry_logs m (temp, j) d"
  shows "load_bytes m (sd_data d) (cd_size (nd_c_data temp) ! j) = Some (version_bytes (pm m) temp j)"
proof -
  have "sd_size d = cd_size (nd_c_data temp) ! j" and "load_bytes m (sd_data d) (sd_size d) = Some (version_bytes (pm m) temp j)"
    using assms unfolding entry_logs_def Let_def by blast+
  then show ?thesis by simp
qed

lemma entry_logs_grow: "entry_logs m v d \<Longrightarrow> entry_logs (m\<lparr>heap := heap m @ blocks\<rparr>) v d"
  using load_bytes_grow [of m] by (auto simp: entry_logs_def Let_def version_bytes_def simp del: load_bytes.simps split: prod.splits)

lemma log_ready_grow: "log_ready m s \<Longrightarrow> log_ready (m\<lparr>heap := heap m @ blocks\<rparr>) s"
proof -
  have "entry_ready (m\<lparr>heap := heap m @ blocks\<rparr>) d" if "entry_ready m d" for d
    using that load_bytes_grow [of m] by (fastforce simp: entry_ready_def simp del: load_bytes.simps)
  then show "log_ready m s \<Longrightarrow> log_ready (m\<lparr>heap := heap m @ blocks\<rparr>) s" unfolding log_ready_def by blast
qed

section \<open>Pool addresses\<close>

lemma assign_pool_address:
  assumes "n \<le> length items"
  shows "assign_address (map snd items) (map (\<lambda>(_, off). pop + off) items) n d =
    (if sd_offset d \<in> snd ` set (take n items) then d\<lparr>sd_sorted_pmem_address := pop + sd_offset d\<rparr> else d)"
  using assms
proof (induction n)
  case (Suc n)
  then have n: "n < length items" by simp
  have "take (Suc n) items = take n items @ [items ! n]" using n by (rule take_Suc_conv_app_nth)
  then show ?case using Suc n by (auto simp: assign_address_Suc Let_def split: prod.split)
qed (simp add: assign_address_def)

lemma log_ready_addresses:
  assumes "log_ready m s" and "seq_wf s'" and abs: "\<And>k. seq_abs s' k = map_option (assign_address offs addrs n) (seq_abs s k)"
  shows "log_ready m s'"
proof -
  have f: "entry_ready m (assign_address offs addrs n d) = entry_ready m d" "own_ptrs (assign_address offs addrs n d) = own_ptrs d"
    "sd_sequence_number (assign_address offs addrs n d) = sd_sequence_number d" for d
    using assign_address_shape [of offs addrs n d] by (auto simp: entry_ready_def own_ptrs_def)
  show ?thesis
    unfolding log_ready_def
  proof (intro conjI allI impI)
    show "seq_wf s'" by (rule assms(2))
    show "sd_sequence_number d = k" "entry_ready m d" if "seq_abs s' k = Some d" for k d
      using that assms(1) f abs [of k] unfolding log_ready_def by auto
    show "set (own_ptrs d) \<inter> set (own_ptrs d') = {}"
      if "seq_abs s' k = Some d \<and> seq_abs s' k' = Some d' \<and> k \<noteq> k'" for k d k' d'
      using that assms(1) f abs [of k] abs [of k'] unfolding log_ready_def by (auto simp del: disjoint_iff) blast
  qed
qed

lemma modify_all_size: "ofold (\<lambda>k s. lookup_modify s k a) ks s = Some s' \<Longrightarrow> sl_size s' = sl_size s"
  by (induction ks arbitrary: s) (auto dest: lookup_modify_size split: bind_splits)

lemma sort_creation_size: "sort_creation offs addrs n mm s = Some s' \<Longrightarrow> sl_size s' = sl_size s"
proof -
  have "ofold (\<lambda>j s_log. do { off \<leftarrow> slot offs j; a \<leftarrow> slot addrs j;
      ofold (\<lambda>k s. lookup_modify s k a) (equal_range mm off) s_log }) js s = Some s' \<Longrightarrow> sl_size s' = sl_size s" for js
    by (induction js arbitrary: s) (auto dest: modify_all_size split: bind_splits)
  then show "sort_creation offs addrs n mm s = Some s' \<Longrightarrow> sl_size s' = sl_size s" unfolding sort_creation_def .
qed

section \<open>The multimap of addresses\<close>

lemma address_seq_total:
  assumes wf: "seq_wf s" and "length (concat (sl_list s)) \<le> cells"
  shows "\<exists>h st. address_seq_creation cells trace fault s (- 1, - 1) =
    Some (map (\<lambda>temp. (sd_address (sn_ordered_data temp), sn_sequence_number temp)) (concat (sl_list s)), h, st)"
proof -
  let ?mm = "map (\<lambda>temp. (sd_address (sn_ordered_data temp), sn_sequence_number temp)) (concat (sl_list s))"
  have len: "length (equal_range ?mm a) \<le> cells" for a
  proof -
    have "length (equal_range ?mm a) \<le> length ?mm" unfolding equal_range_def by (simp only: length_map [of snd] length_filter_le)
    then show ?thesis using assms(2) by simp
  qed
  have "\<exists>r. ofold (\<lambda>(instr, a) (highest, starting).
      if instr = fault
      then let qs = equal_range ?mm a; h = highest_of qs in
        if length qs \<le> cells then Some (h, if h \<noteq> - 1 then h else starting) else None
      else Some (highest, starting)) trace (- 1, - 1) = Some r \<and> True"
    by (rule ofold_total [where P = "\<lambda>_. True"]) (auto simp: Let_def len split: prod.split)
  then show ?thesis using seq_nodes_wf [OF wf] by (fastforce simp: address_seq_creation_def Let_def)
qed

lemma address_seq_entries:
  assumes "seq_wf s"
  shows "set (map (\<lambda>temp. (sd_address (sn_ordered_data temp), sn_sequence_number temp)) (concat (sl_list s))) =
    {(a, q). \<exists>d. seq_abs s q = Some d \<and> sd_address d = a}"
  unfolding seq_abs_node [OF assms] by (auto simp del: set_concat)

lemma seq_nodes_card: "seq_wf s \<Longrightarrow> length (concat (sl_list s)) = card (dom (seq_abs s))"
  unfolding dom_seq_abs by (metis seq_wfD(6) distinct_card length_map set_map)

section \<open>Building the logs\<close>

lemma list_all2_source: "list_all2 P xs ys \<Longrightarrow> y \<in> set ys \<Longrightarrow> \<exists>x \<in> set xs. P x y"
  by (induction rule: list_all2_induct) auto

text \<open>
  Printing the bucket of transaction 1 reads eight bytes of every buffer in it, so the versions logged there have to be that large.
\<close>

definition bucket_printable :: "nat \<Rightarrow> checkpoint_log \<Rightarrow> bool" where
  "bucket_printable log_size c \<longleftrightarrow> (\<forall>(temp, j) \<in> set (clog_versions c).
     hash_index log_size (cd_tx_id (nd_c_data temp) ! j) = hash_index log_size 1 \<longrightarrow> 8 \<le> cd_size (nd_c_data temp) ! j)"

definition versions_numbered :: "checkpoint_log \<Rightarrow> bool" where
  "versions_numbered c \<longleftrightarrow> distinct (map version_seq (clog_versions c)) \<and>
     (\<forall>(temp, j) \<in> set (clog_versions c). seq_key (cd_sequence_number (nd_c_data temp) ! j) \<and> seq_key (cd_tx_id (nd_c_data temp) ! j))"

lemma tx_log_creation_total:
  assumes "clog_wf (pm m) c" and "versions_numbered c" and "0 < log_size" and "log_size < 2 ^ 31" and print: "bucket_printable log_size c"
    and len: "length (sd_old_data uninit) = 3" "length (sd_old_size uninit) = 3"
  shows "\<exists>t blocks. tx_log_creation log_size uninit c m = Some (t, m\<lparr>heap := heap m @ blocks\<rparr>)"
proof -
  have keys: "\<forall>(temp, j) \<in> set (clog_versions c). seq_key (cd_tx_id (nd_c_data temp) ! j)" using assms(2) by (auto simp: versions_numbered_def)
  obtain blocks t od where t: "order_by_tx_id c (m, empty_tx_log log_size, uninit) = Some (m\<lparr>heap := heap m @ blocks\<rparr>, t, od)" "tl_size t = log_size" "tx_wf t"
    "\<And>k. list_all2 (entry_logs (m\<lparr>heap := heap m @ blocks\<rparr>))
      (rev (filter (\<lambda>(temp, j). cd_tx_id (nd_c_data temp) ! j = k) (clog_versions c))) (tx_abs t k)"
    using tx_log_built [OF assms(1) empty_tx_log_wf [OF assms(3,4)] empty_tx_log_abs len keys] by (auto simp: empty_tx_log_def)
  obtain i where i: "hash_index log_size 1 = Some (int i)" "i < log_size"
    using seq_tbl.hash_range [of log_size 1] assms(3,4) by (auto simp: seq_key_ok_def)
  note w = tx_wfD [OF t(3)]
  have readable: "load_bytes (m\<lparr>heap := heap m @ blocks\<rparr>) (sd_data (tn_ordered_data x)) 8 \<noteq> None" if x: "x \<in> set (tl_list t ! i)" for x
  proof -
    have mem: "x \<in> set (concat (tl_list t))" using x i(2) t(2) w(1) by auto
    let ?k = "tn_tx_id x"
    have "tn_ordered_data x \<in> set (tx_abs t ?k)" using mem by (auto simp: tx_abs_def)
    from list_all2_source [OF t(4) this] obtain temp j where v: "(temp, j) \<in> set (clog_versions c)" "cd_tx_id (nd_c_data temp) ! j = ?k"
      "entry_logs (m\<lparr>heap := heap m @ blocks\<rparr>) (temp, j) (tn_ordered_data x)"
      by auto
    have "hash_index log_size ?k = Some (int i)" using w t(2) x i(2) by (auto simp: chains_ok_def)
    then have "8 \<le> cd_size (nd_c_data temp) ! j" using print v(1,2) i(1) unfolding bucket_printable_def by fastforce
    moreover have "load_bytes (m\<lparr>heap := heap m @ blocks\<rparr>) (sd_data (tn_ordered_data x)) (cd_size (nd_c_data temp) ! j) = Some (version_bytes (pm m) temp j)"
      using entry_logs_data [OF v(3)] by simp
    ultimately show ?thesis by (rule load_bytes_shorter [rotated])
  qed
  have "chain_at (tl_list t) (int i) = Some (tl_list t ! i)" using i(2) t(2) w(1) by (simp add: chain_at_def)
  moreover have "list_all (\<lambda>x. load_bytes (m\<lparr>heap := heap m @ blocks\<rparr>) (sd_data (tn_ordered_data x)) 8 \<noteq> None) (tl_list t ! i)"
    unfolding list_all_iff using readable by blast
  ultimately have "tx_log_creation log_size uninit c m = Some (t, m\<lparr>heap := heap m @ blocks\<rparr>)"
    using t(1,2) i(1) by (simp add: tx_log_creation_def txhashCode_def del: not_None_eq)
  then show ?thesis by blast
qed

text \<open>What a reaction works with, in terms of the checkpoint log and the addresses of the pool.\<close>

definition logs_faithful :: "checkpoint_log \<Rightarrow> addr \<Rightarrow> (addr \<times> addr) list \<Rightarrow> 'w cmem \<Rightarrow> seq_log \<Rightarrow> (addr, int) multimap \<Rightarrow> bool" where
  "logs_faithful c pop last_pool m s mm \<longleftrightarrow> log_ready m s \<and> dom (seq_abs s) = version_seq ` set (clog_versions c) \<and>
     (\<forall>v \<in> set (clog_versions c). \<exists>d. seq_abs s (version_seq v) = Some d \<and> entry_logs m v d \<and>
        (sd_offset d \<in> snd ` set last_pool \<longrightarrow> sd_sorted_pmem_address d = pop + sd_offset d)) \<and>
     set mm = {(a, q). \<exists>d. seq_abs s q = Some d \<and> sd_address d = a} \<and> length mm = length (clog_versions c)"

lemma reaction_logs_built:
  assumes wf: "clog_wf (pm m0) c" and num: "versions_numbered c" and print: "bucket_printable log_size c"
    and size: "92 < log_size" "log_size < 2 ^ 31" "length (clog_versions c) \<le> log_size" "length last_pool < 2 ^ 31"
    and len: "length (sd_old_data uninit) = 3" "length (sd_old_size uninit) = 3"
  shows "\<exists>s mm blocks. reaction_logs log_size uninit pop last_pool trace fault c m0 =
      Some (s, empty_seq_log (length (clog_versions c)) (seq_node_cells * length (clog_versions c)), mm, m0\<lparr>heap := heap m0 @ blocks\<rparr>) \<and>
    sl_size s = log_size \<and> logs_faithful c pop last_pool (m0\<lparr>heap := heap m0 @ blocks\<rparr>) s mm"
proof -
  let ?vs = "clog_versions c" and ?offs = "map snd last_pool" and ?addrs = "map (\<lambda>(_, off). pop + off) last_pool"
  have wf0: "seq_wf (empty_seq_log log_size log_size)" by (rule empty_seq_log_wf) (use size in simp_all)
  have keys: "\<forall>v \<in> set ?vs. seq_key (version_seq v)" using num by (auto simp: versions_numbered_def version_seq_def)
  have dist: "distinct (map version_seq ?vs)" using num by (simp add: versions_numbered_def)
  obtain b1 s0 od where 1: "order_by_sequence_num c (m0, empty_seq_log log_size log_size, 0, uninit) =
      Some (m0\<lparr>heap := heap m0 @ b1\<rparr>, s0, length ?vs, od)" "sl_size s0 = log_size" "log_ready (m0\<lparr>heap := heap m0 @ b1\<rparr>) s0"
    "dom (seq_abs s0) = version_seq ` set ?vs" "\<And>v. v \<in> set ?vs \<Longrightarrow> \<exists>d. seq_abs s0 (version_seq v) = Some d \<and> entry_logs (m0\<lparr>heap := heap m0 @ b1\<rparr>) v d"
    using sequence_log_built [OF wf wf0 empty_seq_log_abs len dist keys, of 0] by (fastforce simp: empty_seq_log_def)
  let ?m1 = "m0\<lparr>heap := heap m0 @ b1\<rparr>"
  have wf1: "clog_wf (pm ?m1) c" using wf by simp
  obtain t b2 where 2: "tx_log_creation log_size uninit c ?m1 = Some (t, ?m1\<lparr>heap := heap ?m1 @ b2\<rparr>)"
    using tx_log_creation_total [OF wf1 num _ size(2) print len] size(1) by auto
  let ?m2 = "m0\<lparr>heap := heap m0 @ (b1 @ b2)\<rparr>"
  have m2: "?m1\<lparr>heap := heap ?m1 @ b2\<rparr> = ?m2" by simp
  have s0: "seq_wf s0" using 1(3) by (simp add: log_ready_def)
  obtain offs_map where 3: "offset_seq_creation s0 [] = Some offs_map" using seq_nodes_wf [OF s0] by (simp add: offset_seq_creation_def)
  obtain s where 4: "sort_creation ?offs ?addrs (length last_pool) offs_map s0 = Some s" "seq_wf s"
    "\<And>k. seq_abs s k = map_option (assign_address ?offs ?addrs (length last_pool)) (seq_abs s0 k)"
    using sort_creation_abs [OF s0 3, of "length last_pool" ?offs ?addrs] size(4) by (auto simp: sort_creation_def int_loop_bound_id)
  have ready: "log_ready ?m2 s" using log_ready_addresses [OF log_ready_grow [OF 1(3), of b2] 4(2,3)] m2 by simp
  have sz: "sl_size s = log_size" using sort_creation_size [OF 4(1)] 1(2) by simp
  have dom: "dom (seq_abs s) = version_seq ` set ?vs" using 1(4) 4(3) by (auto simp: dom_def)
  let ?mm = "map (\<lambda>temp. (sd_address (sn_ordered_data temp), sn_sequence_number temp)) (concat (sl_list s))"
  have n: "length (concat (sl_list s)) = length ?vs"
    using seq_nodes_card [OF 4(2)] dom dist by (metis distinct_card length_map set_map)
  obtain h st where 5: "address_seq_creation log_size trace fault s (- 1, - 1) = Some (?mm, h, st)"
    using address_seq_total [OF 4(2), of log_size trace fault] n size(3) by auto
  have entries: "\<exists>d. seq_abs s (version_seq v) = Some d \<and> entry_logs ?m2 v d \<and>
      (sd_offset d \<in> snd ` set last_pool \<longrightarrow> sd_sorted_pmem_address d = pop + sd_offset d)" if v: "v \<in> set ?vs" for v
  proof -
    obtain d where d: "seq_abs s0 (version_seq v) = Some d" "entry_logs ?m1 v d" using 1(5) [OF v] by blast
    let ?d = "assign_address ?offs ?addrs (length last_pool) d"
    have "entry_logs ?m2 v d" using entry_logs_grow [OF d(2), of b2] m2 by simp
    then have "entry_logs ?m2 v ?d" using assign_address_shape [of ?offs ?addrs "length last_pool" d] by (auto simp: entry_logs_def split: prod.splits)
    moreover have "sd_offset ?d \<in> snd ` set last_pool \<longrightarrow> sd_sorted_pmem_address ?d = pop + sd_offset ?d"
      using assign_pool_address [of "length last_pool" last_pool pop d] by simp
    ultimately show ?thesis using d(1) 4(3) by simp
  qed
  have "logs_faithful c pop last_pool ?m2 s ?mm"
    unfolding logs_faithful_def using ready dom entries address_seq_entries [OF 4(2)] n by (simp del: set_map)
  moreover have "reaction_logs log_size uninit pop last_pool trace fault c m0 =
      Some (s, empty_seq_log (length ?vs) (seq_node_cells * length ?vs), ?mm, ?m2)"
    using 1(1) 2 3 4(1) 5 sz m2 by (simp add: reaction_logs_def make_addr_offset_list_def seq_log_creation_def Let_def)
  ultimately show ?thesis using sz by blast
qed

section \<open>Reverting in terms of the checkpoint log\<close>

text \<open>
  What reverting a list of sequence numbers is to do, stated on the checkpoint log and the persistent memory \<open>p0\<close> at the start alone: for every number, newest first or in
  whatever order they are listed, the bytes of the version before it are put back into the pool; a number of a first version changes nothing.
\<close>

fun restore_versions :: "checkpoint_log \<Rightarrow> addr \<Rightarrow> (addr \<Rightarrow> byte option) \<Rightarrow> int list \<Rightarrow> (addr \<Rightarrow> byte option) \<Rightarrow> addr \<Rightarrow> byte option" where
  "restore_versions c pop p0 [] p = p"
| "restore_versions c pop p0 (q # qs) p = restore_versions c pop p0 qs
     (case find (\<lambda>v. version_seq v = q) (clog_versions c) of
        Some (temp, Suc j) \<Rightarrow> put_mapped p (pop + nd_offset temp) (version_bytes p0 temp j)
      | _ \<Rightarrow> p)"

text \<open>
  Every version can be put back: the offset is one of the pool's addresses, the range it takes in the pool is mapped and holds the
  version before it; a first version has no older entry.
\<close>

definition revertible :: "(addr \<Rightarrow> byte option) \<Rightarrow> addr \<Rightarrow> (addr \<times> addr) list \<Rightarrow> checkpoint_log \<Rightarrow> bool" where
  "revertible p pop last_pool c \<longleftrightarrow> (\<forall>(temp, j) \<in> set (clog_versions c). nd_offset temp \<in> snd ` set last_pool \<and>
     (if 1 \<le> j then mapped_range p (pop + nd_offset temp) (cd_size (nd_c_data temp) ! j) \<and> cd_size (nd_c_data temp) ! (j - 1) \<le> cd_size (nd_c_data temp) ! j
      else cd_old_checkpoint_entry (nd_c_data temp) = 0))"

lemma find_version:
  assumes "distinct (map version_seq vs)" and "v \<in> set vs"
  shows "find (\<lambda>w. version_seq w = version_seq v) vs = Some v"
  using assms by (induction vs) (auto intro: rev_image_eqI)

lemma entry_logsD:
  assumes "entry_logs m (temp, j) d"
  shows "sd_address d = cd_address (nd_c_data temp)" and "sd_offset d = nd_offset temp" and "sd_version d = int j"
    and "sd_old_checkpoint_entry d = cd_old_checkpoint_entry (nd_c_data temp)" and "sd_size d = cd_size (nd_c_data temp) ! j"
    and "k < j \<Longrightarrow> sd_old_size d ! k = cd_size (nd_c_data temp) ! k"
    and "k < j \<Longrightarrow> load_bytes m (sd_old_data d ! k) (sd_old_size d ! k) = Some (version_bytes (pm m) temp k)"
  using assms unfolding entry_logs_def Let_def by blast+

lemma faithful_entry:
  assumes f: "logs_faithful c pop last_pool m s mm" and r: "revertible p pop last_pool c" and v: "(temp, j) \<in> set (clog_versions c)"
  obtains d where "seq_abs s (version_seq (temp, j)) = Some d" and "entry_logs m (temp, j) d" and "sd_sorted_pmem_address d = pop + nd_offset temp"
proof -
  obtain d where d: "seq_abs s (version_seq (temp, j)) = Some d" "entry_logs m (temp, j) d"
    "sd_offset d \<in> snd ` set last_pool \<longrightarrow> sd_sorted_pmem_address d = pop + sd_offset d"
    using f v unfolding logs_faithful_def by blast
  then show thesis using that entry_logsD(2) [OF d(2)] r v by (auto simp: revertible_def)
qed

lemma faithful_revert_inv:
  assumes f: "logs_faithful c pop last_pool m s mm" and r: "revertible (pm m) pop last_pool c"
  shows "revert_inv s (dom (seq_abs s)) m" and "addresses_at pop s"
proof -
  have entry: "undoable_entry (pm m) d \<and> sd_sorted_pmem_address d = pop + sd_offset d" if d: "seq_abs s k = Some d" for k d
  proof -
    have "k \<in> version_seq ` set (clog_versions c)" using f d unfolding logs_faithful_def by auto
    then obtain temp j where v: "(temp, j) \<in> set (clog_versions c)" "version_seq (temp, j) = k" by auto
    obtain d' where d': "seq_abs s k = Some d'" "entry_logs m (temp, j) d'" "sd_sorted_pmem_address d' = pop + nd_offset temp"
      using faithful_entry [OF f r v(1)] v(2) by blast
    have eq: "d' = d" using d d'(1) by simp
    note e = entry_logsD [OF d'(2), unfolded eq]
    have "undoable_entry (pm m) d"
    proof (cases j)
      case 0
      then show ?thesis using r v(1) e(3,4) by (auto simp: revertible_def undoable_entry_def)
    next
      case (Suc i)
      have "nat (int j - 1) = i" using Suc by simp
      then show ?thesis using r v(1) e(3,5) e(6) [of i] d'(3) eq Suc by (auto simp: revertible_def undoable_entry_def)
    qed
    then show ?thesis using d'(3) e(2) eq by simp
  qed
  have "log_ready m s" using f by (simp add: logs_faithful_def)
  then show "revert_inv s (dom (seq_abs s)) m" using entry unfolding revert_inv_def by blast
  have "seq_wf s" using \<open>log_ready m s\<close> by (simp add: log_ready_def)
  from addresses_at_abs [OF this] show "addresses_at pop s" using entry by blast
qed

lemma abs_revert_restores:
  assumes f: "logs_faithful c pop last_pool m s mm" and r: "revertible p' pop last_pool c" and num: "versions_numbered c"
    and qs: "set qs \<subseteq> version_seq ` set (clog_versions c)"
  shows "abs_revert s m qs p = restore_versions c pop (pm m) qs p"
  using qs
proof (induction qs arbitrary: p)
  case (Cons q qs)
  obtain temp j where v: "(temp, j) \<in> set (clog_versions c)" "version_seq (temp, j) = q" using Cons.prems by auto
  obtain d where d: "seq_abs s q = Some d" "entry_logs m (temp, j) d" "sd_sorted_pmem_address d = pop + nd_offset temp"
    using faithful_entry [OF f r v(1)] v(2) by blast
  have find: "find (\<lambda>v. version_seq v = q) (clog_versions c) = Some (temp, j)"
    using find_version [of "clog_versions c" "(temp, j)"] num v by (simp add: versions_numbered_def)
  note e = entry_logsD [OF d(2)]
  have "(if 1 \<le> sd_version d then put_mapped p (sd_sorted_pmem_address d) (old_bytes m d) else p) =
      (case j of 0 \<Rightarrow> p | Suc i \<Rightarrow> put_mapped p (pop + nd_offset temp) (version_bytes (pm m) temp i))"
    using e(3) e(7) d(3) by (cases j) (auto simp: old_bytes_def simp del: load_bytes.simps)
  then show ?case using Cons find d(1) by (cases j) auto
qed simp

section \<open>The reaction as a whole\<close>

text \<open>The numbers of the versions logged at addresses that the instructions of the slices touched.\<close>

definition touched_versions :: "checkpoint_log \<Rightarrow> ('i, 'i \<times> addr) multimap \<Rightarrow> 'i list list \<Rightarrow> int set" where
  "touched_versions c ti slices = {version_seq (temp, j) | temp j. (temp, j) \<in> set (clog_versions c) \<and>
     (\<exists>i \<in> set (concat slices). (i, (i, cd_address (nd_c_data temp))) \<in> set ti)}"

definition logs_usable :: "nat \<Rightarrow> single_data \<Rightarrow> addr \<Rightarrow> (addr \<times> addr) list \<Rightarrow> checkpoint_log \<Rightarrow> (addr \<Rightarrow> byte option) \<Rightarrow> bool" where
  "logs_usable log_size uninit pop last_pool c p \<longleftrightarrow> clog_wf p c \<and> versions_numbered c \<and> bucket_printable log_size c \<and>
     revertible p pop last_pool c \<and> 92 < log_size \<and> log_size < 2 ^ 31 \<and> 6 \<le> length (clog_versions c) \<and> length (clog_versions c) \<le> log_size \<and>
     length last_pool < 2 ^ 31 \<and> length (sd_old_data uninit) = 3 \<and> length (sd_old_size uninit) = 3"

lemma touched_numbers_versions:
  assumes f: "logs_faithful c pop last_pool m s mm"
  shows "touched_numbers mm ti items \<subseteq> touched_versions c ti [items]"
proof
  fix q assume "q \<in> touched_numbers mm ti items"
  then obtain i a where i: "i \<in> set items" "(i, (i, a)) \<in> set ti" "(a, q) \<in> set mm" by (auto simp: touched_numbers_def)
  obtain d where d: "seq_abs s q = Some d" "sd_address d = a" using i(3) f by (auto simp: logs_faithful_def)
  have "q \<in> version_seq ` set (clog_versions c)" using f d(1) unfolding logs_faithful_def by auto
  then obtain temp j where v: "(temp, j) \<in> set (clog_versions c)" "q = version_seq (temp, j)" by auto
  obtain d' where d': "seq_abs s q = Some d'" "entry_logs m (temp, j) d'" using f v unfolding logs_faithful_def by blast
  have "a = cd_address (nd_c_data temp)" using d d'(1) entry_logsD(1) [OF d'(2)] by simp
  then show "q \<in> touched_versions c ti [items]" using i v by (auto simp: touched_versions_def)
qed

lemma react_reverts:
  assumes inp: "ri_ready inp" "ri_fault_inst inp = Some fault" "ri_slices inp = Some slices" "opt_pmem_file options \<noteq> None"
      "ri_open inp (rr_mem glob) = (Some pop, m0)" "ri_last_pool inp \<noteq> []" "ri_checkpoint inp = Some c"
    and opts: "\<not> opt_arckpt options" "opt_pmem_library options = Some ''libpmemobj''" "tries \<noteq> MAX_COARSE_ATTEMPTS"
    and env: "quiet_env env pop status" and usable: "logs_usable log_size uninit pop (ri_last_pool inp) c (pm m0)"
    and count: "rr_binary_reversion_count glob = 0"
  shows "\<exists>run dn. react log_size env uninit flag0 tries options inp glob = Some (React_done True run) \<and>
    distinct dn \<and> set dn \<subseteq> touched_versions c (ri_trace_instrs inp) slices \<and>
    pm (rr_mem run) = restore_versions c pop (pm m0) dn (pm m0) \<and>
    rr_total_reverted_items run = rr_total_reverted_items glob + int (length dn)"
proof -
  have u: "clog_wf (pm m0) c" "versions_numbered c" "bucket_printable log_size c" "revertible (pm m0) pop (ri_last_pool inp) c"
    "92 < log_size" "log_size < 2 ^ 31" "6 \<le> length (clog_versions c)" "length (clog_versions c) \<le> log_size"
    "length (ri_last_pool inp) < 2 ^ 31" "length (sd_old_data uninit) = 3" "length (sd_old_size uninit) = 3"
    using usable by (auto simp: logs_usable_def)
  let ?n = "length (clog_versions c)" and ?ti = "ri_trace_instrs inp"
  obtain s mm blocks where logs: "reaction_logs log_size uninit pop (ri_last_pool inp) (ri_trace inp) fault c m0 =
      Some (s, empty_seq_log ?n (seq_node_cells * ?n), mm, m0\<lparr>heap := heap m0 @ blocks\<rparr>)" "sl_size s = log_size"
    "logs_faithful c pop (ri_last_pool inp) (m0\<lparr>heap := heap m0 @ blocks\<rparr>) s mm"
    using reaction_logs_built [OF u(1-3,5,6,8-11), of pop "ri_trace inp" fault] by (elim exE conjE) (rule that)
  let ?m = "m0\<lparr>heap := heap m0 @ blocks\<rparr>"
  have r: "revertible (pm ?m) pop (ri_last_pool inp) c" using u(4) by simp
  note inv = faithful_revert_inv [OF logs(3) r]
  have wf: "seq_wf s" using inv(1) by (simp add: revert_inv_def log_ready_def)
  have dom: "dom (seq_abs s) = version_seq ` set (clog_versions c)" and len: "length mm = ?n"
    using logs(3) by (simp_all add: logs_faithful_def)
  obtain high where high: "find_highest_seq_num s = Some high" using log_scans [OF wf, of 0 0] by blast
  let ?rx = "\<lparr>rx_env = env, rx_options = options, rx_clog = c, rx_pool_address = ri_pool_addr inp,
    rx_uninit = uninit, rx_coarse_grained_tries = tries, rx_uninit_flag = flag0\<rparr>"
  let ?st = "\<lparr>ss_run = glob\<lparr>rr_mem := ?m, rr_slog := s, rr_pop := pop\<rparr>, ss_rlog = empty_seq_log ?n (seq_node_cells * ?n),
    ss_many = [], ss_seq = [], ss_clear = False, ss_req_flag2 = 0, ss_high_num = high\<rparr>"
  have K: "touched_numbers mm ?ti (concat slices) \<subseteq> touched_versions c ?ti slices"
    using touched_numbers_versions [OF logs(3), of ?ti "concat slices"] by (simp add: touched_versions_def)
  have sub: "touched_versions c ?ti slices \<subseteq> dom (seq_abs s)" unfolding dom by (auto simp: touched_versions_def)
  have "revert_inv s (touched_numbers mm ?ti (concat slices)) ?m" using inv(1) K sub unfolding revert_inv_def by blast
  moreover have "reaction_ok ?rx pop status s" using env opts inv(2) by (simp add: reaction_ok_def uses_libpmemobj_def)
  moreover have "0 < ?n" "?n < 2 ^ 31" "92 < seq_node_cells * ?n" using u(6-8) by (simp_all only: seq_node_cells_def)
  then have "seq_wf (empty_seq_log ?n (seq_node_cells * ?n))" by (rule empty_seq_log_wf)
  ultimately obtain found st' dn where run: "react_slices ?rx log_size mm ?ti slices ?st = Some (found, st')"
    "distinct dn" "set dn \<subseteq> touched_numbers mm ?ti (concat slices)"
    "pm (rr_mem (ss_run st')) = abs_revert s ?m dn (pm ?m)"
    "rr_total_reverted_items (ss_run st') = rr_total_reverted_items glob + int (length dn)"
    using react_slices_reverts [of ?rx pop status ?st mm ?ti slices log_size] count len u(8) by auto
  have "abs_revert s ?m dn (pm ?m) = restore_versions c pop (pm ?m) dn (pm ?m)"
    using abs_revert_restores [OF logs(3) r u(2)] run(3) K sub dom by blast
  moreover have "react log_size env uninit flag0 tries options inp glob = Some (React_done True (ss_run st'))"
    using inp opts(1) logs(1,2) high run(1) by (auto simp: react_def Let_def)
  ultimately show ?thesis using run K by (intro exI [of _ "ss_run st'"] exI [of _ dn]) auto
qed

text \<open>Two addresses of a pool that is opened at 8128, each with three versions of two bytes; the data of the checkpoint lies at the start of memory.\<close>

definition pool_clog :: checkpoint_log where
  "pool_clog = (let
     c1 = \<lparr>cd_address = 320, cd_offset = 64, cd_data = [Mapped 3, Mapped 8, Mapped 10], cd_size = [2, 2, 2],
       cd_version = 2, cd_data_type = 0, cd_sequence_number = [3, 5, 6], cd_old_checkpoint_entry = 0,
       cd_new_checkpoint_entry = 0, cd_free_flag = 0, cd_tx_id = [2, 3, 4]\<rparr>;
     c2 = c1\<lparr>cd_address := 336, cd_offset := 80, cd_data := [Mapped 12, Mapped 14, Mapped 16], cd_sequence_number := [4, 7, 8]\<rparr>
   in \<lparr>cl_size = 2, cl_variable_count = 2,
       cl_list = [[\<lparr>nd_offset = 64, nd_c_data = c1\<rparr>, \<lparr>nd_offset = 80, nd_c_data = c2\<rparr>], []]\<rparr>)"

definition pool_mem :: "unit cmem" where
  "pool_mem = \<lparr>heap = [], pm = (\<lambda>x. if x < 32 then Some (ucast x) else if x < 9000 then Some 9 else None), world = ()\<rparr>"

definition pool_inputs :: "(nat, unit) reactor_inputs" where
  "pool_inputs = \<lparr>ri_ready = True, ri_fault_inst = Some 1, ri_slices = Some [[1], [1, 3]], ri_open = (\<lambda>m. (Some 8128, m)),
     ri_last_pool = [(320, 64), (336, 80)], ri_pool_addr = 256, ri_checkpoint = Some pool_clog, ri_trace = [(1, 320), (2, 336)],
     ri_trace_instrs = [(1, (1, 320)), (2, (2, 336))]\<rparr>"

definition pool_options :: reactor_options where
  "pool_options = zero_options\<lparr>opt_pmem_library := Some ''libpmemobj'', opt_pmem_file := Some ''pool''\<rparr>"

definition pool_run :: "unit reactor_run" where
  "pool_run = sample_run\<lparr>rr_mem := pool_mem\<rparr>"

lemma pool_versions: "map version_seq (clog_versions pool_clog) = [3, 5, 6, 4, 7, 8]"
  by code_simp

lemma pool_logs_usable: "logs_usable 100 sample_data 8128 [(320, 64), (336, 80)] pool_clog (pm pool_mem)"
proof -
  have "chains_ok (checkpoint_hash 2) nd_offset (cl_list pool_clog)"
    by (simp add: pool_clog_def chains_ok_def checkpoint_hash_def to_int32_def Let_def less_Suc_eq numeral_2_eq_2)
  moreover have "list_all (node_ok (pm pool_mem)) (concat (cl_list pool_clog))" by code_simp
  moreover have "cl_size pool_clog = 2" "length (cl_list pool_clog) = 2" by (simp_all add: pool_clog_def Let_def)
  ultimately have "clog_wf (pm pool_mem) pool_clog" by (simp add: clog_wf_def)
  moreover have "distinct (map version_seq (clog_versions pool_clog))" unfolding pool_versions by simp
  moreover have "list_all (\<lambda>(temp, j). seq_key (cd_sequence_number (nd_c_data temp) ! j) \<and> seq_key (cd_tx_id (nd_c_data temp) ! j)) (clog_versions pool_clog)"
    "list_all (\<lambda>(temp, j). hash_index 100 (cd_tx_id (nd_c_data temp) ! j) \<noteq> hash_index 100 1) (clog_versions pool_clog)"
    "list_all (\<lambda>(temp, j). nd_offset temp \<in> snd ` set [(320 :: addr, 64), (336, 80)] \<and>
     (if 1 \<le> j then mapped_range (pm pool_mem) (8128 + nd_offset temp) (cd_size (nd_c_data temp) ! j) \<and> cd_size (nd_c_data temp) ! (j - 1) \<le> cd_size (nd_c_data temp) ! j
      else cd_old_checkpoint_entry (nd_c_data temp) = 0)) (clog_versions pool_clog)"
    by code_simp+
  moreover have "length (clog_versions pool_clog) = 6" using arg_cong [OF pool_versions, of length] by simp
  ultimately show ?thesis
    unfolding logs_usable_def versions_numbered_def bucket_printable_def revertible_def list_all_iff
    by (auto simp: sample_data_def)
qed

section \<open>Properties\<close>



end
