(* ===== verification/TraceMonitor.thy ===== *)
theory TraceMonitor
  imports AddrTrace
begin

text \<open>
  The thread that follows the address trace file in server mode (\<open>Reactor::monitor_address_trace\<close> in \<open>reactor/lib/core.cpp\<close>). One round of its endless loop is
  a function of the position of the end of the file, taken first, and of the content, read afterwards. The lemmas show that following a file that
  grows gives the same trace as reading it at once, and where the two observations of the file, or a recreated file, break this.
\<close>

section \<open>Reading lines\<close>

text \<open>\<open>getline\<close> in a loop: each line, with whether the end of the file was hit before a newline.\<close>

function getlines :: "string \<Rightarrow> (string \<times> bool) list" where
  "getlines s = (if s = [] then []
     else case find_char (CHR 0x0A) s of None \<Rightarrow> [(s, True)]
       | Some i \<Rightarrow> (take i s, False) # getlines (drop (Suc i) s))"
  by pat_completeness auto
termination
  by (relation "measure length") auto

declare getlines.simps [simp del]

record 'i monitor_state =
  mo_start_pos :: nat
  mo_partial_line :: string
  mo_partial :: bool
  mo_trace :: "'i addr_trace"
  mo_ready :: bool

definition start_monitor :: "'i monitor_state" where
  "start_monitor = \<lparr>mo_start_pos = 0, mo_partial_line = [], mo_partial = False, mo_trace = empty_trace, mo_ready = False\<rparr>"

text \<open>\<^term>\<open>None\<close> is an exception of the number parser, which ends the thread.\<close>

definition monitor_line :: "guid_map option \<Rightarrow> string \<times> bool \<Rightarrow> 'i monitor_state \<Rightarrow> 'i monitor_state option" where
  "monitor_line varMap = (\<lambda>(line, eof) st.
     if eof \<and> line \<noteq> [] then Some (st\<lparr>mo_partial_line := mo_partial_line st @ line, mo_partial := True\<rparr>)
     else let text = (if mo_partial st then mo_partial_line st @ line else line);
         st1 = st\<lparr>mo_partial_line := (if mo_partial st then [] else mo_partial_line st), mo_partial := False\<rparr>
       in case parse_item varMap text of
           Done item \<Rightarrow> Some (st1\<lparr>mo_trace := trace_add (mo_trace st1) item\<rparr>)
         | Failed \<Rightarrow> Some st1
         | Throws \<Rightarrow> None)"

definition monitor_round :: "guid_map option \<Rightarrow> nat \<Rightarrow> string \<Rightarrow> 'i monitor_state \<Rightarrow> 'i monitor_state option" where
  "monitor_round varMap end_pos content st = (let
     st1 = (if end_pos < mo_start_pos st then st\<lparr>mo_start_pos := 0, mo_trace := trace_clear (mo_trace st), mo_ready := False\<rparr> else st)
   in if end_pos = mo_start_pos st1 then Some (if mo_start_pos st1 > 0 then st1\<lparr>mo_ready := True\<rparr> else st1)
     else do {
       st2 \<leftarrow> ofold (monitor_line varMap) (getlines (drop (mo_start_pos st1) content)) st1;
       Some (st2\<lparr>mo_start_pos := end_pos\<rparr>)
     })"

text \<open>A sequence of rounds, each with the position it saw and the content it read.\<close>

definition monitor_rounds :: "guid_map option \<Rightarrow> (nat \<times> string) list \<Rightarrow> 'i monitor_state \<Rightarrow> 'i monitor_state option" where
  "monitor_rounds varMap = ofold (\<lambda>(end_pos, content). monitor_round varMap end_pos content)"

section \<open>Lemmas\<close>

text \<open>The complete lines of a text and what follows the last newline.\<close>

function text_lines :: "string \<Rightarrow> string list \<times> string" where
  "text_lines s = (case find_char (CHR 0x0A) s of None \<Rightarrow> ([], s)
     | Some i \<Rightarrow> (let (ls, r) = text_lines (drop (Suc i) s) in (take i s # ls, r)))"
  by pat_completeness auto
termination
  by (relation "measure length") (auto dest: find_char_bound)

declare text_lines.simps [simp del]

lemma text_lines_plain: "CHR 0x0A \<notin> set s \<Longrightarrow> text_lines s = ([], s)"
  by (subst text_lines.simps) (simp add: find_char_None [THEN iffD2])

lemma find_newline: "CHR 0x0A \<notin> set a \<Longrightarrow> find_char (CHR 0x0A) (a @ CHR 0x0A # b) = Some (length a)"
  by (induction a) auto

lemma text_lines_line: "CHR 0x0A \<notin> set a \<Longrightarrow> text_lines (a @ CHR 0x0A # b) = (a # fst (text_lines b), snd (text_lines b))"
  by (subst text_lines.simps) (simp add: find_newline split: prod.split)

lemma text_rest: "CHR 0x0A \<notin> set (snd (text_lines s))"
proof (induction s rule: text_lines.induct)
  case (1 s)
  then show ?case by (subst text_lines.simps) (auto simp: find_char_None split: option.split prod.split)
qed

lemma newline_cases:
  obtains "CHR 0x0A \<notin> set s" | a b where "s = a @ CHR 0x0A # b" and "CHR 0x0A \<notin> set a"
  by (metis split_list_first)

lemma text_lines_append: "text_lines (s @ t) = (fst (text_lines s) @ fst (text_lines (snd (text_lines s) @ t)), snd (text_lines (snd (text_lines s) @ t)))"
proof (induction "length s" arbitrary: s rule: less_induct)
  case less
  show ?case
  proof (cases s rule: newline_cases)
    case 1
    then show ?thesis by (simp add: text_lines_plain)
  next
    case (2 a b)
    then have "length b < length s" by simp
    from less [OF this] show ?thesis using 2 by (simp add: text_lines_line)
  qed
qed

lemma deserialize_append:
  "deserialize_trace varMap (xs @ ys) t = (case deserialize_trace varMap xs t of Done t' \<Rightarrow> deserialize_trace varMap ys t' | e \<Rightarrow> e)"
  by (induction varMap xs t rule: deserialize_trace.induct) (auto split: outcome.splits)

text \<open>What the monitor holds after it has seen a text: its complete lines as a trace, the rest as a partial line.\<close>

definition follows :: "guid_map option \<Rightarrow> string \<Rightarrow> 'i monitor_state \<Rightarrow> bool" where
  "follows varMap s st \<longleftrightarrow> deserialize_trace varMap (fst (text_lines s)) empty_trace = Done (mo_trace st) \<and>
     mo_partial_line st = snd (text_lines s) \<and> mo_partial st = (snd (text_lines s) \<noteq> [])"

lemma monitor_lines_follow:
  assumes "follows varMap s (st :: 'i monitor_state)" and "deserialize_trace varMap (fst (text_lines (s @ d))) empty_trace = Done (t :: 'i addr_trace)"
  shows "\<exists>st'. ofold (monitor_line varMap) (getlines d) st = Some st' \<and> follows varMap (s @ d) st' \<and>
    mo_start_pos st' = mo_start_pos st \<and> mo_ready st' = mo_ready st"
  using assms
proof (induction "length d" arbitrary: d s st rule: less_induct)
  case less
  show ?case
  proof (cases d rule: newline_cases)
    case 1
    show ?thesis
    proof (cases "d = []")
      case True
      then show ?thesis using less.prems by (simp add: getlines.simps)
    next
      case False
      have plain: "CHR 0x0A \<notin> set (snd (text_lines s) @ d)" using 1 text_rest by simp
      have "getlines d = [(d, True)]" using 1 False by (subst getlines.simps) (simp add: find_char_None [THEN iffD2])
      then show ?thesis using less.prems(1) False 1
        by (simp add: monitor_line_def follows_def text_lines_append [of s d] text_lines_plain [OF plain])
    qed
  next
    case (2 a b)
    let ?r = "snd (text_lines s)"
    have g: "getlines d = (a, False) # getlines b" using 2 by (subst getlines.simps) (simp add: find_newline)
    have ra: "CHR 0x0A \<notin> set (?r @ a)" using 2(2) text_rest by simp
    have tl: "text_lines (s @ a @ [CHR 0x0A]) = (fst (text_lines s) @ [?r @ a], [])"
      using text_lines_line [OF ra, of "[]"] text_lines_append [of s "a @ [CHR 0x0A]"] by (simp add: text_lines_plain)
    have all: "text_lines (s @ d) = (fst (text_lines s) @ (?r @ a) # fst (text_lines b), snd (text_lines b))"
      using text_lines_line [OF ra, of b] text_lines_append [of s d] 2(1) by simp
    have D: "deserialize_trace varMap (fst (text_lines s)) empty_trace = Done (mo_trace st)" "mo_partial_line st = ?r" "mo_partial st = (?r \<noteq> [])"
      using less.prems(1) by (simp_all add: follows_def)
    have item: "parse_item varMap (?r @ a) \<noteq> (Throws :: 'i trace_item outcome)"
      using less.prems(2) D(1) by (auto simp: all deserialize_append split: outcome.splits)
    let ?st1 = "st\<lparr>mo_partial_line := [], mo_partial := False, mo_trace := (case parse_item varMap (?r @ a) of
        Done it \<Rightarrow> trace_add (mo_trace st) it | _ \<Rightarrow> mo_trace st)\<rparr>"
    have "monitor_line varMap (a, False) st = Some ?st1"
      using item D by (cases "?r = []") (auto simp: monitor_line_def Let_def split: outcome.splits)
    moreover have "follows varMap (s @ a @ [CHR 0x0A]) ?st1"
      using item D by (auto simp: follows_def tl deserialize_append split: outcome.splits)
    ultimately obtain st1 where st1: "monitor_line varMap (a, False) st = Some st1" "follows varMap (s @ a @ [CHR 0x0A]) st1"
      "mo_start_pos st1 = mo_start_pos st" "mo_ready st1 = mo_ready st" by simp
    have eq: "s @ d = (s @ a @ [CHR 0x0A]) @ b" using 2(1) by simp
    have "length b < length d" using 2(1) by simp
    from less.hyps [OF this st1(2)] less.prems(2) eq obtain st' where "ofold (monitor_line varMap) (getlines b) st1 = Some st'"
      "follows varMap (s @ d) st'" "mo_start_pos st' = mo_start_pos st1" "mo_ready st' = mo_ready st1" by auto
    then show ?thesis using st1 g by auto
  qed
qed

text \<open>A file that only grows has every earlier content as a prefix of its last one.\<close>

lemma grown_prefix:
  assumes "\<forall>k < length contents. k > 0 \<longrightarrow> (\<exists>d. contents ! k = contents ! (k - 1) @ d)" and "contents \<noteq> []" and "k < length contents"
  shows "\<exists>d. last contents = contents ! k @ d"
  using assms(3)
proof (induction "length contents - k" arbitrary: k)
  case (Suc j)
  show ?case
  proof (cases "Suc k < length contents")
    case True
    from Suc.hyps(1) [of "Suc k"] Suc.hyps(2) True obtain d where "last contents = contents ! Suc k @ d" by fastforce
    moreover obtain e where "contents ! Suc k = contents ! k @ e" using assms(1) True by fastforce
    ultimately show ?thesis by simp
  next
    case False
    then have "k = length contents - 1" using Suc.prems by simp
    then show ?thesis using assms(2) by (simp add: last_conv_nth)
  qed
qed simp

text \<open>One round brings the monitor from the old content of the file to the new one; a round that finds nothing new marks a read file as ready.\<close>

lemma monitor_round_follows:
  fixes st :: "'i monitor_state"
  assumes "follows varMap c st" and "mo_start_pos st = length c"
    and "deserialize_trace varMap (fst (text_lines (c @ d))) empty_trace = Done (t :: 'i addr_trace)"
  shows "\<exists>st'. monitor_round varMap (length (c @ d)) (c @ d) st = Some st' \<and> follows varMap (c @ d) st' \<and> mo_start_pos st' = length (c @ d) \<and>
    (d = [] \<and> c \<noteq> [] \<longrightarrow> mo_ready st')"
proof (cases "d = []")
  case True
  then show ?thesis using assms(1,2) by (auto simp: monitor_round_def follows_def Let_def)
next
  case False
  obtain st1 where st1: "ofold (monitor_line varMap) (getlines d) st = Some st1" "follows varMap (c @ d) st1"
    using monitor_lines_follow [OF assms(1,3)] by blast
  have "monitor_round varMap (length (c @ d)) (c @ d) st = Some (st1\<lparr>mo_start_pos := length (c @ d)\<rparr>)"
    using assms(2) st1(1) False by (simp add: monitor_round_def Let_def)
  then show ?thesis using st1(2) False by (simp add: follows_def)
qed

lemma monitor_rounds_follow:
  assumes "\<forall>k < length contents. k > 0 \<longrightarrow> (\<exists>d. contents ! k = contents ! (k - 1) @ d)"
    and "\<And>k. k < length contents \<Longrightarrow> \<exists>t. deserialize_trace varMap (fst (text_lines (contents ! k))) empty_trace = Done (t :: 'i addr_trace)"
    and "n \<le> length contents"
  shows "\<exists>st :: 'i monitor_state. monitor_rounds varMap (map (\<lambda>c. (length c, c)) (take n contents)) start_monitor = Some st \<and>
    follows varMap (if n = 0 then [] else contents ! (n - 1)) st \<and> mo_start_pos st = length (if n = 0 then [] else contents ! (n - 1)) \<and>
    (n \<ge> 2 \<and> contents ! (n - 1) = contents ! (n - 2) \<and> contents ! (n - 1) \<noteq> [] \<longrightarrow> mo_ready st)"
  using assms(3)
proof (induction n)
  case 0
  then show ?case by (simp add: monitor_rounds_def start_monitor_def follows_def text_lines_plain)
next
  case (Suc n)
  let ?c = "if n = 0 then [] else contents ! (n - 1)"
  obtain st :: "'i monitor_state" where st: "monitor_rounds varMap (map (\<lambda>c. (length c, c)) (take n contents)) start_monitor = Some st"
    "follows varMap ?c st" "mo_start_pos st = length ?c" using Suc.IH [OF Suc_leD [OF Suc.prems]] by blast
  have "\<exists>d. contents ! n = ?c @ d" using assms(1) Suc.prems by (cases "n = 0") auto
  then obtain d where d: "contents ! n = ?c @ d" by blast
  obtain t where t: "deserialize_trace varMap (fst (text_lines (?c @ d))) empty_trace = Done (t :: 'i addr_trace)"
    using assms(2) [of n] Suc.prems d by auto
  obtain st' where st': "monitor_round varMap (length (contents ! n)) (contents ! n) st = Some st'" "follows varMap (contents ! n) st'"
    "mo_start_pos st' = length (contents ! n)" "d = [] \<and> ?c \<noteq> [] \<longrightarrow> mo_ready st'"
    using monitor_round_follows [OF st(2,3) t] unfolding d by blast
  have "take (Suc n) contents = take n contents @ [contents ! n]" using Suc.prems by (simp add: take_Suc_conv_app_nth)
  then have "monitor_rounds varMap (map (\<lambda>c. (length c, c)) (take (Suc n) contents)) start_monitor = Some st'"
    using st(1) st'(1) by (simp add: monitor_rounds_def ofold_append)
  moreover have "Suc n \<ge> 2 \<and> contents ! n = contents ! (Suc n - 2) \<and> contents ! n \<noteq> [] \<longrightarrow> mo_ready st'"
    using st'(4) d by (cases n) auto
  ultimately show ?case using st'(2,3) by auto
qed

section \<open>Properties\<close>

text \<open>
  C18: following a growing file is reading it. If each round reads the file up to the end it saw, and the file only grows from round to round, the
  monitor holds the trace that reading the complete lines of the last content at once gives, and has kept the unfinished line;
  and the trace is announced as ready once a round saw a file that is not empty and has not grown.
\<close>

theorem monitor_equals_reading:
  assumes "\<forall>k < length contents. k > 0 \<longrightarrow> (\<exists>d. contents ! k = contents ! (k - 1) @ d)" and "contents \<noteq> []"
    and "deserialize_trace varMap (fst (text_lines (last contents))) empty_trace = Done (t :: 'i addr_trace)"
  shows "\<exists>st. monitor_rounds varMap (map (\<lambda>c. (length c, c)) contents) start_monitor = Some st \<and> mo_trace st = t \<and>
    mo_partial_line st = snd (text_lines (last contents)) \<and> mo_start_pos st = length (last contents) \<and>
    (length contents \<ge> 2 \<and> last contents = contents ! (length contents - 2) \<and> last contents \<noteq> [] \<longrightarrow> mo_ready st)"
proof -
  have d: "\<exists>t'. deserialize_trace varMap (fst (text_lines (contents ! k))) empty_trace = Done (t' :: 'i addr_trace)" if k: "k < length contents" for k
  proof -
    obtain e where e: "last contents = contents ! k @ e" using grown_prefix [OF assms(1,2) k] by blast
    show ?thesis using assms(3) unfolding e text_lines_append [of "contents ! k" e] by (auto simp: deserialize_append split: outcome.splits)
  qed
  have "last contents = contents ! (length contents - 1)" using assms(2) by (simp add: last_conv_nth)
  then show ?thesis using monitor_rounds_follow [OF assms(1) d le_refl] assms(2,3) by (auto simp: follows_def)
qed

definition growing_file :: "string list" where
  "growing_file = [''0x100,200'' @ [CHR 0x0A] @ ''0x1'', ''0x100,200'' @ [CHR 0x0A] @ ''0x140,201'' @ [CHR 0x0A],
     ''0x100,200'' @ [CHR 0x0A] @ ''0x140,201'' @ [CHR 0x0A]]"

lemma growing_file_lines:
  "text_lines (last growing_file) = ([''0x100,200'', ''0x140,201''], [])"
  "\<exists>t. deserialize_trace (Some sample_guid_map) [''0x100,200'', ''0x140,201''] empty_trace = Done (t :: nat addr_trace)"
proof -
  show "text_lines (last growing_file) = ([''0x100,200'', ''0x140,201''], [])" by code_simp
  have "(case deserialize_trace (Some sample_guid_map) [''0x100,200'', ''0x140,201''] (empty_trace :: nat addr_trace) of Done _ \<Rightarrow> True | _ \<Rightarrow> False)"
    by code_simp
  then show "\<exists>t. deserialize_trace (Some sample_guid_map) [''0x100,200'', ''0x140,201''] empty_trace = Done (t :: nat addr_trace)"
    by (simp split: outcome.splits)
qed

theorem monitor_equals_reading_witness:
  "\<exists>st :: nat monitor_state. monitor_rounds (Some sample_guid_map) (map (\<lambda>c. (length c, c)) growing_file) start_monitor = Some st \<and>
     mo_ready st \<and> mo_partial_line st = []"
proof -
  obtain t :: "nat addr_trace" where t: "deserialize_trace (Some sample_guid_map) (fst (text_lines (last growing_file))) empty_trace = Done t"
    using growing_file_lines by auto
  have g: "\<forall>k < length growing_file. k > 0 \<longrightarrow> (\<exists>d. growing_file ! k = growing_file ! (k - 1) @ d)"
  proof (intro allI impI)
    fix k assume "k < length growing_file" "k > 0"
    then have "k = 1 \<or> k = 2" by (auto simp: growing_file_def)
    moreover have "growing_file ! 1 = growing_file ! 0 @ ''40,201'' @ [CHR 0x0A]" "growing_file ! 2 = growing_file ! 1 @ []"
      by (simp_all add: growing_file_def)
    ultimately show "\<exists>d. growing_file ! k = growing_file ! (k - 1) @ d" by (metis One_nat_def diff_Suc_1 numeral_2_eq_2)
  qed
  have ne: "growing_file \<noteq> []" by (simp add: growing_file_def)
  have "length growing_file \<ge> 2 \<and> last growing_file = growing_file ! (length growing_file - 2) \<and> last growing_file \<noteq> []"
    by (simp add: growing_file_def)
  then show ?thesis using monitor_equals_reading [OF g ne t] growing_file_lines(1) by auto
qed

text \<open>
  The two observations of the file must agree. If a line is appended between taking the end position and reading, it is read in this round and
  again in the next, so that its item is in the trace twice.
\<close>

theorem growth_while_reading_duplicates:
  "map_option (\<lambda>st. map ti_guid (at_items (mo_trace st))) (monitor_rounds (Some sample_guid_map)
     [(10, ''0x100,200'' @ [CHR 0x0A] @ ''0x140,201'' @ [CHR 0x0A]), (20, ''0x100,200'' @ [CHR 0x0A] @ ''0x140,201'' @ [CHR 0x0A])]
     (start_monitor :: nat monitor_state)) = Some [200, 201, 201]"
  by code_simp

text \<open>
  A recreated file has its first line misread. When the file shrinks the monitor starts over but keeps the unfinished line of the old file, which is put
  before the first line of the new one: with \<open>0x1\<close> left over, the line for the address 0x140 is taken for the address 0x10.
\<close>

theorem recreated_file_misread:
  "map_option (\<lambda>st. map ti_addr (at_items (mo_trace st))) (monitor_rounds (Some sample_guid_map)
     [(13, ''0x100,200'' @ [CHR 0x0A] @ ''0x1''), (10, ''0x140,201'' @ [CHR 0x0A])] (start_monitor :: nat monitor_state)) = Some [0x10] \<and>
   map_option (\<lambda>st. map ti_addr (at_items (mo_trace st))) (monitor_rounds (Some sample_guid_map)
     [(10, ''0x140,201'' @ [CHR 0x0A])] (start_monitor :: nat monitor_state)) = Some [0x140]"
  by code_simp

end
