(* ===== verification/Coordination.thy ===== *)
theory Coordination
  imports TraceMonitor SliceFault
begin

text \<open>
  How the threads of the reactor's server share the work (\<open>Reactor::wait_address_trace_ready\<close> and the callers of
  \<open>Reactor::compute_dependencies\<close> in \<open>reactor/lib/core.cpp\<close>, started from \<open>reactor/tools/server.cpp\<close>). The mutex is held from the entry of a call to its return
  except while it waits on a condition variable, so each stretch between is one step of a transition system; a round of the
  monitor is a step too. The lemmas show that one caller at most prepares the trace, what callers that return true may rely on, that
  all callers can return when the preparation succeeds, and that none of the others ever returns after it has failed.
\<close>

section \<open>State\<close>

datatype caller = Calling | Waiting_processed | Waiting_ready | Returned bool

text \<open>\<open>co_trace_instrs\<close> is the multimap \<open>trace_instrs\<close>, as its insertions.\<close>

record ('t, 'i) coordination =
  co_callers :: "'t \<Rightarrow> caller"
  co_monitor :: "'i monitor_state"
  co_trace_processed :: bool
  co_processing_trace :: bool
  co_trace_instrs :: "('i option \<times> 'i trace_item) list"

section \<open>Steps\<close>

text \<open>The part of \<open>wait_address_trace_ready\<close> after the trace is ready; a failure leaves \<open>processing_trace\<close> set.\<close>

definition finish_trace :: "(string \<Rightarrow> int \<Rightarrow> string \<Rightarrow> 'i option) \<Rightarrow> ('t, 'i) coordination \<Rightarrow> bool \<times> ('t, 'i) coordination" where
  "finish_trace matchInstr s = (let t = mo_trace (co_monitor s) in
     if at_pool_addrs t = [] then (False, s)
     else let (obtained, t1) = calculatePoolOffsets t; s1 = s\<lparr>co_monitor := (co_monitor s)\<lparr>mo_trace := t1\<rparr>\<rparr>
       in if \<not> obtained then (False, s1)
          else let (translated, t2) = addressesToInstructions True matchInstr t1; s2 = s1\<lparr>co_monitor := (co_monitor s1)\<lparr>mo_trace := t2\<rparr>\<rparr>
            in if \<not> translated then (False, s2)
               else (True, s2\<lparr>co_trace_instrs := co_trace_instrs s2 @ map (\<lambda>it. (ti_instr it, it)) (at_items t2),
                 co_trace_processed := True, co_processing_trace := False\<rparr>))"

definition set_caller :: "'t \<Rightarrow> caller \<Rightarrow> ('t, 'i) coordination \<Rightarrow> ('t, 'i) coordination" where
  "set_caller t c s = s\<lparr>co_callers := (co_callers s)(t := c)\<rparr>"

definition prepare_trace :: "(string \<Rightarrow> int \<Rightarrow> string \<Rightarrow> 'i option) \<Rightarrow> 't \<Rightarrow> ('t, 'i) coordination \<Rightarrow> ('t, 'i) coordination" where
  "prepare_trace matchInstr t s = (let (ok, s') = finish_trace matchInstr s in set_caller t (Returned ok) s')"

definition enter_wait :: "(string \<Rightarrow> int \<Rightarrow> string \<Rightarrow> 'i option) \<Rightarrow> 't \<Rightarrow> ('t, 'i) coordination \<Rightarrow> ('t, 'i) coordination" where
  "enter_wait matchInstr t s =
     (if co_trace_processed s then set_caller t (Returned True) s
      else if co_processing_trace s then set_caller t Waiting_processed s
      else let s1 = s\<lparr>co_processing_trace := True\<rparr>
        in if \<not> mo_ready (co_monitor s1) then set_caller t Waiting_ready s1 else prepare_trace matchInstr t s1)"

inductive coord_step ::
    "(string \<Rightarrow> int \<Rightarrow> string \<Rightarrow> 'i option) \<Rightarrow> guid_map option \<Rightarrow> ('t, 'i) coordination \<Rightarrow> ('t, 'i) coordination \<Rightarrow> bool"
  for mi varMap where
  Enter: "co_callers s t = Calling \<Longrightarrow> coord_step mi varMap s (enter_wait mi t s)"
| Wake_processed: "co_callers s t = Waiting_processed \<Longrightarrow> co_trace_processed s \<Longrightarrow> coord_step mi varMap s (set_caller t (Returned True) s)"
| Wake_ready: "co_callers s t = Waiting_ready \<Longrightarrow> mo_ready (co_monitor s) \<Longrightarrow> coord_step mi varMap s (prepare_trace mi t s)"
| Monitor: "monitor_round varMap end_pos content (co_monitor s) = Some m \<Longrightarrow> coord_step mi varMap s (s\<lparr>co_monitor := m\<rparr>)"

inductive_cases coord_stepE: "coord_step mi varMap s s'"

abbreviation coord_steps :: "(string \<Rightarrow> int \<Rightarrow> string \<Rightarrow> 'i option) \<Rightarrow> guid_map option \<Rightarrow> ('t, 'i) coordination \<Rightarrow> ('t, 'i) coordination \<Rightarrow> bool" where
  "coord_steps mi varMap \<equiv> (coord_step mi varMap)\<^sup>*\<^sup>*"

definition start_coordination :: "('t, 'i) coordination" where
  "start_coordination = \<lparr>co_callers = (\<lambda>_. Calling), co_monitor = start_monitor, co_trace_processed = False, co_processing_trace = False,
     co_trace_instrs = []\<rparr>"

section \<open>The invariant\<close>

text \<open>The caller that has taken on the preparation and has not completed it.\<close>

definition in_charge :: "('t, 'i) coordination \<Rightarrow> 't \<Rightarrow> bool" where
  "in_charge s t \<longleftrightarrow> co_callers s t \<in> {Waiting_ready, Returned False}"

definition coord_inv :: "('t, 'i) coordination \<Rightarrow> bool" where
  "coord_inv s \<longleftrightarrow>
     (if co_trace_processed s then \<not> co_processing_trace s \<and> (\<forall>t. co_callers s t \<in> {Calling, Waiting_processed, Returned True})
      else if co_processing_trace s then co_trace_instrs s = [] \<and>
        (\<exists>t. in_charge s t \<and> (\<forall>u. u \<noteq> t \<longrightarrow> co_callers s u \<in> {Calling, Waiting_processed}))
      else co_trace_instrs s = [] \<and> (\<forall>t. co_callers s t = Calling)) \<and>
     (\<forall>(ins, it) \<in> set (co_trace_instrs s). ins = ti_instr it)"

lemma finish_trace_fails:
  assumes "finish_trace mi s = (False, s')"
  shows "co_callers s' = co_callers s \<and> co_trace_processed s' = co_trace_processed s \<and> co_processing_trace s' = co_processing_trace s \<and>
    co_trace_instrs s' = co_trace_instrs s"
  using assms unfolding finish_trace_def Let_def by (simp split: prod.splits if_splits) auto

lemma finish_trace_succeeds:
  assumes "finish_trace mi s = (True, s')"
  shows "co_callers s' = co_callers s \<and> co_trace_processed s' \<and> \<not> co_processing_trace s' \<and>
    co_trace_instrs s' = co_trace_instrs s @ map (\<lambda>it. (ti_instr it, it)) (at_items (mo_trace (co_monitor s')))"
  using assms unfolding finish_trace_def Let_def by (auto split: prod.splits if_splits)

lemma finish_trace_cases:
  obtains s' where "finish_trace mi s = (False, s')" and "co_callers s' = co_callers s" and "co_trace_processed s' = co_trace_processed s"
      and "co_processing_trace s' = co_processing_trace s" and "co_trace_instrs s' = co_trace_instrs s"
  | s' where "finish_trace mi s = (True, s')" and "co_callers s' = co_callers s" and "co_trace_processed s'" and "\<not> co_processing_trace s'"
      and "co_trace_instrs s' = co_trace_instrs s @ map (\<lambda>it. (ti_instr it, it)) (at_items (mo_trace (co_monitor s')))"
proof -
  obtain b s' where f: "finish_trace mi s = (b, s')" by fastforce
  show thesis
  proof (cases b)
    case True
    then have t: "finish_trace mi s = (True, s')" using f by simp
    from finish_trace_succeeds [OF t] t show thesis by (intro that(2) [of s']) simp_all
  next
    case False
    then have t: "finish_trace mi s = (False, s')" using f by simp
    from finish_trace_fails [OF t] t show thesis by (intro that(1) [of s']) simp_all
  qed
qed

lemma prepare_trace_inv:
  assumes p: "co_processing_trace s" "\<not> co_trace_processed s" and others: "\<And>u. u \<noteq> t \<Longrightarrow> co_callers s u \<in> {Calling, Waiting_processed}" and empty: "co_trace_instrs s = []"
  shows "coord_inv (prepare_trace mi t s)"
proof (cases rule: finish_trace_cases [of mi s])
  case (1 s')
  then have "prepare_trace mi t s = set_caller t (Returned False) s'" by (simp add: prepare_trace_def)
  moreover have "coord_inv (set_caller t (Returned False) s')"
    using 1 p others empty unfolding coord_inv_def by (auto simp: set_caller_def in_charge_def intro!: exI [of _ t])
  ultimately show ?thesis by simp
next
  case (2 s')
  then have "prepare_trace mi t s = set_caller t (Returned True) s'" by (simp add: prepare_trace_def)
  moreover have "coord_inv (set_caller t (Returned True) s')"
    using 2 p others empty unfolding coord_inv_def by (fastforce simp: set_caller_def)
  ultimately show ?thesis by simp
qed

lemma coord_step_inv:
  assumes "coord_step mi varMap s s'" and inv: "coord_inv s"
  shows "coord_inv s'"
  using assms(1)
proof cases
  case (Enter t)
  show ?thesis
  proof (cases "co_trace_processed s \<or> co_processing_trace s")
    case True
    then show ?thesis
    proof (cases "co_trace_processed s")
      case True
      then show ?thesis using inv Enter unfolding coord_inv_def by (auto simp: enter_wait_def set_caller_def)
    next
      case False
      with True have p: "co_processing_trace s" by simp
      obtain c where c: "in_charge s c" "\<forall>u. u \<noteq> c \<longrightarrow> co_callers s u \<in> {Calling, Waiting_processed}"
        using inv p False unfolding coord_inv_def by auto
      have "c \<noteq> t" using c(1) Enter(2) by (auto simp: in_charge_def)
      then have "in_charge s' c \<and> (\<forall>u. u \<noteq> c \<longrightarrow> co_callers s' u \<in> {Calling, Waiting_processed})"
        using c Enter False p by (auto simp: enter_wait_def set_caller_def in_charge_def)
      moreover have "\<not> co_trace_processed s'" "co_processing_trace s'" "co_trace_instrs s' = []"
        using inv Enter False p by (auto simp: enter_wait_def set_caller_def coord_inv_def)
      ultimately show ?thesis unfolding coord_inv_def by auto
    qed
  next
    case False
    then have idle: "co_callers s u = Calling" "co_trace_instrs s = []" for u using inv unfolding coord_inv_def by auto
    let ?s = "s\<lparr>co_processing_trace := True\<rparr>"
    show ?thesis
    proof (cases "mo_ready (co_monitor s)")
      case True
      have "coord_inv (prepare_trace mi t ?s)" by (rule prepare_trace_inv) (use False idle in simp_all)
      then show ?thesis using Enter False True by (simp add: enter_wait_def)
    next
      case notready: False
      have "in_charge s' t \<and> (\<forall>u. u \<noteq> t \<longrightarrow> co_callers s' u \<in> {Calling, Waiting_processed})"
        using notready False Enter idle by (auto simp: enter_wait_def set_caller_def in_charge_def)
      moreover have "\<not> co_trace_processed s'" "co_processing_trace s'" "co_trace_instrs s' = []"
        using notready False Enter idle(2) by (auto simp: enter_wait_def set_caller_def)
      ultimately show ?thesis unfolding coord_inv_def by auto
    qed
  qed
next
  case (Wake_processed t)
  then show ?thesis using inv unfolding coord_inv_def by (auto simp: set_caller_def)
next
  case (Wake_ready t)
  have np: "\<not> co_trace_processed s" using inv Wake_ready(2) unfolding coord_inv_def by (auto split: if_splits) (metis caller.distinct(3) caller.distinct(7) caller.distinct(11))+
  have p: "co_processing_trace s" using inv np Wake_ready(2) unfolding coord_inv_def by (auto split: if_splits)
  obtain c where c: "in_charge s c" "\<forall>u. u \<noteq> c \<longrightarrow> co_callers s u \<in> {Calling, Waiting_processed}" "co_trace_instrs s = []"
    using inv np p unfolding coord_inv_def by auto
  then have "c = t" using Wake_ready(2) by fastforce
  then show ?thesis using prepare_trace_inv [OF p np, of t] c Wake_ready(1) by auto
next
  case (Monitor end_pos content m)
  have "coord_inv (s\<lparr>co_monitor := m\<rparr>) = coord_inv s" by (simp add: coord_inv_def in_charge_def)
  then show ?thesis using inv Monitor by simp
qed

lemma coord_steps_inv: "coord_steps mi varMap s s' \<Longrightarrow> coord_inv s \<Longrightarrow> coord_inv s'"
  by (induction rule: rtranclp_induct) (auto intro: coord_step_inv)

lemma start_coordination_inv: "coord_inv start_coordination"
  by (simp add: coord_inv_def start_coordination_def)


lemma coord_inv_cases:
  assumes "coord_inv s"
  obtains (processed) "co_trace_processed s" and "\<And>t. co_callers s t = Calling \<or> co_callers s t = Waiting_processed \<or> co_callers s t = Returned True"
  | (processing) c where "\<not> co_trace_processed s" and "co_processing_trace s" and "co_callers s c = Waiting_ready \<or> co_callers s c = Returned False"
      and "\<And>u. u \<noteq> c \<Longrightarrow> co_callers s u = Calling \<or> co_callers s u = Waiting_processed" and "co_trace_instrs s = []"
  | (idle) "\<not> co_trace_processed s" and "\<not> co_processing_trace s" and "\<And>t. co_callers s t = Calling" and "co_trace_instrs s = []"
proof (cases "co_trace_processed s")
  case True
  then show thesis using assms processed unfolding coord_inv_def by auto
next
  case np: False
  show thesis
  proof (cases "co_processing_trace s")
    case True
    then obtain c where "in_charge s c" "\<forall>u. u \<noteq> c \<longrightarrow> co_callers s u \<in> {Calling, Waiting_processed}" "co_trace_instrs s = []"
      using assms np unfolding coord_inv_def by auto
    then show thesis by (intro processing [OF np True, of c]) (auto simp: in_charge_def)
  next
    case False
    then show thesis using assms np idle unfolding coord_inv_def by auto
  qed
qed

lemma failed_step:
  assumes "coord_step mi varMap s s'" and "coord_inv s" and failed: "co_callers s t = Returned False"
  shows "co_callers s' t = Returned False"
  using assms(1)
proof cases
  case (Enter u)
  then have "u \<noteq> t" using failed by auto
  moreover have "\<not> co_trace_processed s \<and> co_processing_trace s"
    using assms(2)
  proof (cases rule: coord_inv_cases)
    case processed
    from processed(2) [of t] show ?thesis using failed by simp
  next
    case idle
    from idle(3) [of t] show ?thesis using failed by simp
  qed simp
  ultimately show ?thesis using Enter failed by (simp add: enter_wait_def set_caller_def)
next
  case (Wake_processed u)
  then show ?thesis using failed by (auto simp: set_caller_def)
next
  case (Wake_ready u)
  then have "u \<noteq> t" using failed by auto
  then show ?thesis
    using Wake_ready(1) failed by (cases rule: finish_trace_cases [of mi s]) (auto simp: prepare_trace_def set_caller_def)
next
  case Monitor
  then show ?thesis using failed by simp
qed

lemma coord_steps_failed:
  assumes "coord_steps mi varMap s s'" and "coord_inv s" and "co_callers s t = Returned False"
  shows "coord_inv s' \<and> co_callers s' t = Returned False"
  using assms
proof (induction rule: rtranclp_induct)
  case (step y z)
  then have y: "coord_inv y" "co_callers y t = Returned False" by auto
  show ?case using coord_step_inv [OF step.hyps(2) y(1)] failed_step [OF step.hyps(2) y] by simp
qed simp

lemma processed_caller_returns:
  assumes "coord_inv r" and p: "co_trace_processed r"
  shows "\<exists>s'. coord_steps mi varMap r s' \<and> co_callers s' u = Returned True"
proof -
  let ?r = "set_caller u (Returned True) r"
  have done': "co_callers ?r u = Returned True" by (simp add: set_caller_def)
  from assms(1) show ?thesis
  proof (cases rule: coord_inv_cases)
    case processed
    from processed(2) [of u] consider (calling) "co_callers r u = Calling" | (waiting) "co_callers r u = Waiting_processed"
      | (returned) "co_callers r u = Returned True" by fast
    then show ?thesis
    proof cases
      case calling
      from coord_step.Enter [OF calling, of mi varMap] have "coord_step mi varMap r ?r" using p by (simp add: enter_wait_def)
      then show ?thesis using done' by (intro exI [of _ ?r] conjI r_into_rtranclp)
    next
      case waiting
      from coord_step.Wake_processed [OF waiting p] show ?thesis using done' by (intro exI [of _ ?r] conjI r_into_rtranclp)
    next
      case returned
      then show ?thesis by (intro exI [of _ r] conjI rtranclp.rtrancl_refl)
    qed
  qed (simp_all add: p)
qed

lemma prepare_trace_processes: "fst (finish_trace mi r) \<Longrightarrow> co_trace_processed (prepare_trace mi t r)"
  by (cases rule: finish_trace_cases [of mi r]) (simp_all add: prepare_trace_def set_caller_def)

lemma finish_trace_ok_processing [simp]: "fst (finish_trace mi (s\<lparr>co_processing_trace := p\<rparr>)) = fst (finish_trace mi s)"
  by (simp add: finish_trace_def Let_def split: prod.splits)

section \<open>Properties\<close>

text \<open>
  C13: the trace is prepared by one caller. In every state the server can reach, at most one caller waits for the trace or has failed on it; a
  caller that has returned true may rely on the trace being prepared, which gives every inserted item under the instruction
  it was resolved to; and nothing is inserted before.
\<close>

theorem one_caller_prepares:
  assumes "coord_steps mi varMap start_coordination s"
  shows "(in_charge s t \<and> in_charge s u \<longrightarrow> t = u) \<and> (co_callers s t = Returned True \<longrightarrow> co_trace_processed s) \<and>
    (\<not> co_trace_processed s \<longrightarrow> co_trace_instrs s = []) \<and> (\<forall>(ins, it) \<in> set (co_trace_instrs s). ins = ti_instr it)"
proof -
  have inv: "coord_inv s" by (rule coord_steps_inv [OF assms start_coordination_inv])
  then have items: "\<forall>(ins, it) \<in> set (co_trace_instrs s). ins = ti_instr it" unfolding coord_inv_def by blast
  from inv show ?thesis
  proof (cases rule: coord_inv_cases)
    case processed
    have "\<not> in_charge s t" using processed(2) [of t] by (auto simp: in_charge_def)
    then show ?thesis using items processed(1) by blast
  next
    case (processing c)
    have other: "v = c" if "in_charge s v" for v using processing(4) [of v] that by (cases "v = c") (auto simp: in_charge_def)
    have "co_callers s t \<noteq> Returned True" using processing(3) processing(4) [of t] by (cases "t = c") auto
    then show ?thesis using items processing(5) other by blast
  next
    case idle
    have "\<not> in_charge s t" using idle(3) [of t] by (auto simp: in_charge_def)
    then show ?thesis using items idle(3) [of t] idle(4) by simp
  qed
qed

text \<open>
  C14: a failed preparation blocks the server. Once a caller has returned false, no other caller ever returns, whatever the monitor reads afterwards:
  they wait for a preparation that nobody takes up again.
\<close>

theorem failed_preparation_blocks:
  assumes "coord_steps mi varMap start_coordination s" and "co_callers s t = Returned False" and "coord_steps mi varMap s s'" and "u \<noteq> t"
  shows "co_callers s' u \<in> {Calling, Waiting_processed} \<and> \<not> co_trace_processed s'"
proof -
  have "coord_inv s" by (rule coord_steps_inv [OF assms(1) start_coordination_inv])
  from coord_steps_failed [OF assms(3) this assms(2)] have inv: "coord_inv s'" and t: "co_callers s' t = Returned False" by auto
  from inv show ?thesis
  proof (cases rule: coord_inv_cases)
    case processed
    from processed(2) [of t] show ?thesis using t by simp
  next
    case (processing c)
    have "c = t" using processing(4) [of t] t by auto
    then show ?thesis using processing(1) processing(4) [OF assms(4) [folded \<open>c = t\<close>]] by auto
  next
    case idle
    from idle(3) [of t] show ?thesis using t by simp
  qed
qed

text \<open>
  C15: otherwise every caller can return: in a reachable state in which no caller has failed, the trace is ready and preparing it
  succeeds, steps of the callers alone lead any caller to return true.
\<close>

theorem callers_can_return:
  assumes "coord_steps mi varMap start_coordination s" and "\<And>t. co_callers s t \<noteq> Returned False"
    and "mo_ready (co_monitor s)" and ok: "fst (finish_trace mi s)"
  shows "\<exists>s'. coord_steps mi varMap s s' \<and> co_callers s' u = Returned True"
proof -
  have inv: "coord_inv s" by (rule coord_steps_inv [OF assms(1) start_coordination_inv])
  have via: ?thesis if r: "coord_step mi varMap s r" "co_trace_processed r" for r
  proof -
    from processed_caller_returns [OF coord_step_inv [OF r(1) inv] r(2), of mi varMap u]
    obtain s' where "coord_steps mi varMap r s'" "co_callers s' u = Returned True" by blast
    then show ?thesis using r(1) by (intro exI [of _ s'] conjI) (rule converse_rtranclp_into_rtranclp)
  qed
  from inv show ?thesis
  proof (cases rule: coord_inv_cases)
    case processed
    show ?thesis by (rule processed_caller_returns [OF inv processed(1)])
  next
    case (processing c)
    then have c: "co_callers s c = Waiting_ready" using assms(2) [of c] by blast
    show ?thesis by (rule via [OF coord_step.Wake_ready [OF c assms(3)] prepare_trace_processes [OF ok]])
  next
    case idle
    let ?r = "prepare_trace mi u (s\<lparr>co_processing_trace := True\<rparr>)"
    have "coord_step mi varMap s ?r"
      using coord_step.Enter [OF idle(3) [of u], of mi varMap] idle(1,2) assms(3) by (simp add: enter_wait_def)
    moreover have "co_trace_processed ?r" using ok by (simp add: prepare_trace_processes)
    ultimately show ?thesis by (rule via)
  qed
qed

text \<open>A server whose monitor has read a file, and read it again unchanged.\<close>

definition reads_file :: "string \<Rightarrow> (nat, nat) coordination" where
  "reads_file content = start_coordination\<lparr>co_monitor := the (monitor_rounds (Some sample_guid_map) [(length content, content), (length content, content)] start_monitor)\<rparr>"

lemma reads_file_reachable:
  assumes "monitor_rounds (Some sample_guid_map) [(length content, content), (length content, content)] (start_monitor :: nat monitor_state) \<noteq> None"
  shows "coord_steps mi (Some sample_guid_map) start_coordination (reads_file content)"
proof -
  obtain m2 where m2: "monitor_rounds (Some sample_guid_map) [(length content, content), (length content, content)] (start_monitor :: nat monitor_state) = Some m2"
    using assms by blast
  then obtain m1 where m1: "monitor_round (Some sample_guid_map) (length content) content start_monitor = Some m1"
    "monitor_round (Some sample_guid_map) (length content) content m1 = Some m2"
    by (auto simp: monitor_rounds_def split: Option.bind_splits)
  let ?s0 = "start_coordination :: (nat, nat) coordination" and ?s1 = "start_coordination\<lparr>co_monitor := m1\<rparr> :: (nat, nat) coordination"
  have 1: "coord_step mi (Some sample_guid_map) ?s0 ?s1"
    by (rule coord_step.Monitor [where end_pos = "length content" and content = content]) (simp add: start_coordination_def m1)
  have 2: "coord_step mi (Some sample_guid_map) ?s1 (?s1\<lparr>co_monitor := m2\<rparr>)"
    by (rule coord_step.Monitor [where end_pos = "length content" and content = content]) (simp add: m1)
  have "?s1\<lparr>co_monitor := m2\<rparr> = reads_file content" by (simp add: reads_file_def m2)
  then show ?thesis using 1 2 by (metis rtranclp.rtrancl_refl rtranclp.rtrancl_into_rtrancl)
qed

definition pool_file :: string where
  "pool_file = ''0x100,200'' @ [CHR 0x0A] @ ''0x140,201'' @ [CHR 0x0A]"

definition file_without_pool :: string where
  "file_without_pool = ''0x140,201'' @ [CHR 0x0A]"

definition line_76 :: "string \<Rightarrow> int \<Rightarrow> string \<Rightarrow> nat option" where
  "line_76 f l s = (if l = 76 then Some 1 else None)"

lemma files_read:
  "coord_steps line_76 (Some sample_guid_map) start_coordination (reads_file pool_file)"
  "coord_steps line_76 (Some sample_guid_map) start_coordination (reads_file file_without_pool)"
proof -
  have "(case monitor_rounds (Some sample_guid_map) [(length pool_file, pool_file), (length pool_file, pool_file)] (start_monitor :: nat monitor_state)
    of None \<Rightarrow> False | _ \<Rightarrow> True)" by code_simp
  then show "coord_steps line_76 (Some sample_guid_map) start_coordination (reads_file pool_file)"
    by (intro reads_file_reachable) (auto split: option.splits)
  have "(case monitor_rounds (Some sample_guid_map) [(length file_without_pool, file_without_pool), (length file_without_pool, file_without_pool)]
    (start_monitor :: nat monitor_state) of None \<Rightarrow> False | _ \<Rightarrow> True)" by code_simp
  then show "coord_steps line_76 (Some sample_guid_map) start_coordination (reads_file file_without_pool)"
    by (intro reads_file_reachable) (auto split: option.splits)
qed

lemma files_ready:
  "mo_ready (co_monitor (reads_file pool_file))" "mo_ready (co_monitor (reads_file file_without_pool))"
  "fst (finish_trace line_76 (reads_file pool_file))" "\<not> fst (finish_trace line_76 (reads_file file_without_pool))"
  by code_simp+

lemma files_callers [simp]:
  "co_callers (reads_file content) t = Calling" "\<not> co_trace_processed (reads_file content)" "\<not> co_processing_trace (reads_file content)"
  by (simp_all add: reads_file_def start_coordination_def)

lemma enter_reachable:
  assumes "coord_steps mi varMap start_coordination s" and "co_callers s t = Calling"
  shows "coord_steps mi varMap start_coordination (enter_wait mi t s)"
  using assms by (meson coord_step.Enter rtranclp.rtrancl_into_rtrancl)

text \<open>Two callers arrive before the trace is there.\<close>

theorem one_caller_prepares_witness:
  "let s = enter_wait line_76 3 (enter_wait line_76 2 (start_coordination :: (nat, nat) coordination))
   in in_charge s 2 \<and> \<not> in_charge s 3 \<and> co_callers s 3 = Waiting_processed \<and> co_trace_instrs s = []"
proof -
  let ?s1 = "enter_wait line_76 2 (start_coordination :: (nat, nat) coordination)" and ?v = "Some sample_guid_map"
  have 1: "coord_steps line_76 ?v start_coordination ?s1" by (rule enter_reachable) (simp_all add: start_coordination_def)
  have s1: "?s1 = set_caller 2 Waiting_ready (start_coordination\<lparr>co_processing_trace := True\<rparr>)"
    by (simp add: enter_wait_def start_coordination_def start_monitor_def)
  have 2: "coord_steps line_76 ?v start_coordination (enter_wait line_76 3 ?s1)"
    by (rule enter_reachable [OF 1], unfold s1) (simp add: set_caller_def start_coordination_def)
  have flags: "\<not> co_trace_processed ?s1" "co_processing_trace ?s1" "co_callers ?s1 2 = Waiting_ready"
    unfolding s1 by (simp_all add: set_caller_def start_coordination_def)
  then have s2: "enter_wait line_76 3 ?s1 = set_caller 3 Waiting_processed ?s1" by (simp add: enter_wait_def)
  have c: "in_charge (enter_wait line_76 3 ?s1) 2" "co_callers (enter_wait line_76 3 ?s1) 3 = Waiting_processed" "\<not> co_trace_processed (enter_wait line_76 3 ?s1)"
    unfolding s2 using flags by (simp_all add: set_caller_def in_charge_def)
  show ?thesis unfolding Let_def using one_caller_prepares [OF 2, of 2 3] c by auto
qed

text \<open>A file without a pool address: the first caller fails, the second one waits.\<close>

theorem failed_preparation_blocks_witness:
  "let s = enter_wait line_76 3 (enter_wait line_76 2 (reads_file file_without_pool))
   in co_callers s 2 = Returned False \<and> co_callers s 3 \<in> {Calling, Waiting_processed} \<and> \<not> co_trace_processed s"
proof -
  let ?s0 = "reads_file file_without_pool" and ?s1 = "enter_wait line_76 2 (reads_file file_without_pool)"
  let ?s2 = "enter_wait line_76 3 ?s1" and ?v = "Some sample_guid_map"
  have 1: "coord_steps line_76 ?v start_coordination ?s1" by (rule enter_reachable [OF files_read(2)]) simp
  have s1: "?s1 = prepare_trace line_76 2 (?s0\<lparr>co_processing_trace := True\<rparr>)" using files_ready(2) by (simp add: enter_wait_def)
  have f: "\<not> fst (finish_trace line_76 (?s0\<lparr>co_processing_trace := True\<rparr>))" using files_ready(4) by simp
  obtain s' where s': "finish_trace line_76 (?s0\<lparr>co_processing_trace := True\<rparr>) = (False, s')" using f by (metis prod.collapse)
  have failed: "co_callers ?s1 2 = Returned False" and calling: "co_callers ?s1 3 = Calling"
    using finish_trace_fails [OF s'] s' by (simp_all add: s1 prepare_trace_def set_caller_def)
  have step: "coord_step line_76 ?v ?s1 ?s2" by (rule coord_step.Enter [OF calling])
  have steps: "coord_steps line_76 ?v ?s1 ?s2" using step by (rule r_into_rtranclp)
  have inv: "coord_inv ?s1" by (rule coord_steps_inv [OF 1 start_coordination_inv])
  show ?thesis
    unfolding Let_def
    using failed_preparation_blocks [OF 1 failed steps, of 3] failed_step [OF step inv failed] by simp
qed

text \<open>A file with a pool address: caller 7 can return.\<close>

theorem callers_can_return_witness:
  "\<exists>s'. coord_steps line_76 (Some sample_guid_map) (reads_file pool_file) s' \<and> co_callers s' 7 = Returned True"
  by (rule callers_can_return [OF files_read(1) _ files_ready(1,3)]) simp

section \<open>Computing the dependences once\<close>

text \<open>The calls of \<open>compute_dependencies\<close> that the threads make, in the order in which they take the lock.\<close>

fun dependency_calls :: "('f graph_options \<Rightarrow> ('f \<times> nat) list option) list \<Rightarrow> 'f slicing_state \<Rightarrow> (bool list \<times> 'f slicing_state) option" where
  "dependency_calls [] ss = Some ([], ss)"
| "dependency_calls (construct # cs) ss = do {
     (ok, ss1) \<leftarrow> compute_dependencies construct ss;
     (oks, ss2) \<leftarrow> dependency_calls cs ss1;
     Some (ok # oks, ss2)
   }"

lemma dependency_calls_computed: "sl_dependency_computed ss \<Longrightarrow> dependency_calls cs ss = Some (replicate (length cs) True, ss)"
  by (induction cs) (simp_all add: compute_dependencies_def)

text \<open>
  The dependences are computed once, and a failure is reported once. None of the calls waits; the first one computes, and returns whether it succeeded;
  every later one returns true and leaves the slicer as it is, so that after a failed first call the others go on without dependences.
\<close>

theorem dependencies_computed_once:
  assumes "\<not> sl_dependency_computed ss" and "\<not> sl_computing_dependency ss"
  shows "\<exists>ss'. dependency_calls (construct # cs) ss =
      Some (fst (computeDependencies (construct (createDgOptions (createDgFlags (sl_options ss)) None)) (sl_slicer ss)) # replicate (length cs) True, ss') \<and>
    sl_slicer ss' = snd (computeDependencies (construct (createDgOptions (createDgFlags (sl_options ss)) None)) (sl_slicer ss)) \<and>
    sl_dependency_computed ss' \<and> \<not> sl_computing_dependency ss'"
  using assms by (simp add: compute_dependencies_def Let_def dependency_calls_computed split: prod.split)

definition fresh_state :: "nat slicing_state" where
  "fresh_state = \<lparr>sl_options = sl_options start_state, sl_dependency_computed = False, sl_computing_dependency = False,
     sl_slicer = \<lparr>ds_direction = Backward, ds_last_slice_id = 0, ds_dependency_computed = False, ds_func_dgs = None, ds_marks = no_marks,
       ds_statistics = \<lparr>nodesTotal = 0, nodesRemoved = 0, blocksTotal = 0, blocksRemoved = 0, funcsTotal = 0, funcsRemoved = 0\<rparr>\<rparr>,
     sl_located = []\<rparr>"

text \<open>With a module without a main function, whose dependence graph cannot be constructed, the first of three calls fails and the others succeed.\<close>

theorem dependencies_computed_once_witness:
  "map_option fst (dependency_calls [\<lambda>_. None, \<lambda>_. Some [(1, 10)], \<lambda>_. None] (fresh_state)) = Some [False, True, True]"
proof -
  have n: "\<not> sl_dependency_computed (fresh_state)" "\<not> sl_computing_dependency (fresh_state)"
    by (simp_all add: fresh_state_def)
  show ?thesis
    using dependencies_computed_once [OF n, of "\<lambda>_. None" "[\<lambda>_. Some [(1, 10)], \<lambda>_. None]"]
    by (auto simp: computeDependencies_def fresh_state_def numeral_2_eq_2 simp del: dependency_calls.simps)
qed

end
