(* ===== verification/Service.thy ===== *)
theory Service
  imports Preparation ReactionLogs Coordination
begin

text \<open>
  The reactor as a program: a request for a reaction from the fault location to the reverted memory (\<open>Reactor::react\<close> in \<open>reactor/lib/core.cpp\<close> with all it calls), the
  handler of the server (\<open>reactor/tools/server.cpp\<close>), the client (\<open>reactor/tools/client.cpp\<close>) and the standalone program
  (\<open>reactor/tools/main.cpp\<close>). The gRPC library, the pool libraries and the dependence graph are parameters. A handler runs after
  \<open>wait_address_trace_ready\<close> (theory \<open>Coordination\<close>). The lemmas connect what the client is told with what was done to memory.
\<close>

section \<open>State\<close>

text \<open>What the process is surrounded by. \<open>reconstruct_checkpoint\<close> is represented by the log it returns; that it may end the process is left out here.\<close>

record ('v, 'f, 'w) surroundings =
  su_value_of :: "instruction \<Rightarrow> 'v"
  su_sort :: "slice_edge list \<Rightarrow> slice_edge list"
  su_func_of :: "'v \<Rightarrow> 'f"
  su_insts :: "'f \<Rightarrow> 'v list"
  su_construct :: "'f graph_options \<Rightarrow> ('f \<times> nat) list option"
  su_graph :: "'v module_graph"
  su_env :: "'w environment"
  su_pmemobj_open :: "'w cmem \<Rightarrow> addr option \<times> 'w cmem"
  su_pmem_map_file :: "'w cmem \<Rightarrow> addr option \<times> 'w cmem"
  su_checkpoint :: "string option \<Rightarrow> string option \<Rightarrow> checkpoint_log option"
  su_log_size :: nat
  su_uninit :: single_data
  su_flag :: int
  su_tries :: int

text \<open>The state of the process, with the global variables of \<open>core.cpp\<close>: \<open>trace_instrs\<close>, the counters and the counts of slices.\<close>

record ('v, 'f, 'w) process =
  pr_state :: "('v, 'f) reactor_state"
  pr_slicing :: "'f slicing_state"
  pr_counts :: persistence_counts
  pr_trace_instrs :: "('v option \<times> 'v trace_item) list"
  pr_run :: "'w reactor_run"

definition start_process :: "('v, 'f) reactor_state \<Rightarrow> 'w reactor_run \<Rightarrow> ('v, 'f, 'w) process" where
  "start_process s run = \<lparr>pr_state = s,
     pr_slicing = \<lparr>sl_options = opt_dg_options (rs_options s), sl_dependency_computed = False, sl_computing_dependency = False,
       sl_slicer = rs_slicer s, sl_located = []\<rparr>,
     pr_counts = \<lparr>pc_volatile = 0, pc_persistent = 0, pc_mixed = 0\<rparr>, pr_trace_instrs = [], pr_run = run\<rparr>"

section \<open>A request\<close>

definition open_pool :: "('v, 'f, 'w) surroundings \<Rightarrow> reactor_options \<Rightarrow> 'w cmem \<Rightarrow> addr option \<times> 'w cmem" where
  "open_pool su options m =
     (if opt_pmem_library options = Some ''libpmemobj'' then su_pmemobj_open su m
      else if opt_pmem_library options = Some ''libpmem'' then su_pmem_map_file su m
      else (None, m))"

definition react_result_value :: "'w react_result \<Rightarrow> bool" where
  "react_result_value r = (case r of React_returns b \<Rightarrow> b | React_done b _ \<Rightarrow> b)"

text \<open>The last pool of the trace: the addresses of its items with their offsets, and the address of its own item.\<close>

definition last_pool_items :: "'v addr_trace \<Rightarrow> (addr \<times> addr) list" where
  "last_pool_items t = (if at_pool_addrs t = [] then []
     else map (\<lambda>i. (ti_addr (at_items t ! i), ti_pool_offset (at_items t ! i))) (pl_addresses (last (at_pool_addrs t))))"

definition last_pool_addr :: "'v addr_trace \<Rightarrow> addr" where
  "last_pool_addr t = (if at_pool_addrs t = [] then 0 else ti_addr (at_items t ! pl_pool_addr (last (at_pool_addrs t))))"

definition request_inputs ::
    "('v, 'f, 'w) surroundings \<Rightarrow> ('v, 'f, 'w) process \<Rightarrow> instruction \<Rightarrow> 'v slice list \<Rightarrow> ('v option, 'w) reactor_inputs" where
  "request_inputs su p fault_inst fault_slices = (let s = pr_state p; t = rs_trace s; options = rs_options s in
     \<lparr>ri_ready = rs_ready s, ri_fault_inst = Some (Some (su_value_of su fault_inst)),
       ri_slices = Some (map (\<lambda>slice. map (\<lambda>item. Some (fst item)) (sc_dep_vals slice)) fault_slices),
       ri_open = open_pool su options, ri_last_pool = last_pool_items t, ri_pool_addr = last_pool_addr t,
       ri_checkpoint = su_checkpoint su (opt_checkpoint_file options) (opt_pmem_library options),
       ri_trace = map (\<lambda>it. (ti_instr it, ti_addr it)) (at_items t),
       ri_trace_instrs = map (\<lambda>(instr, it). (instr, (ti_instr it, ti_addr it))) (pr_trace_instrs p)\<rparr>)"

text \<open>
  \<open>pool_addrs().back()\<close> is evaluated once the pool is open, also on an empty list. The set \<open>pmem_vars\<close>, by which the slices are classified, is
  never filled.
\<close>

definition react_request ::
    "('v, 'f, 'w) surroundings \<Rightarrow> string \<Rightarrow> string \<Rightarrow> ('v, 'f, 'w) process \<Rightarrow> (bool \<times> ('v, 'f, 'w) process) option" where
  "react_request su fault_loc inst_str p = (let s = pr_state p; options = rs_options s; m = rr_mem (pr_run p) in
     if \<not> rs_ready s then Some (False, p)
     else do {
       located \<leftarrow> locate_fault_instr True (rs_module s) fault_loc inst_str;
       case located of None \<Rightarrow> Some (False, p)
       | Some fault_inst \<Rightarrow> do {
           (ok, fault_slices, counts, ss) \<leftarrow> slice_fault_instr (su_sort su) (su_func_of su) (su_insts su) [] (su_construct su) (su_graph su)
             (su_value_of su fault_inst) (pr_slicing p) [] (pr_counts p);
           let p1 = p\<lparr>pr_slicing := ss, pr_counts := counts\<rparr>;
           if \<not> ok then Some (False, p1)
           else if opt_pmem_file options \<noteq> None \<and> fst (open_pool su options m) \<noteq> None \<and> at_pool_addrs (rs_trace s) = [] then None
           else do {
             r \<leftarrow> react (su_log_size su) (su_env su) (su_uninit su) (su_flag su) (su_tries su) options (request_inputs su p fault_inst fault_slices) (pr_run p);
             Some (react_result_value r, p1\<lparr>pr_run := (case r of React_done _ run \<Rightarrow> run
               | React_returns _ \<Rightarrow> if opt_pmem_file options = None then pr_run p else (pr_run p)\<lparr>rr_mem := snd (open_pool su options m)\<rparr>)\<rparr>)
           }
         }
     })"

section \<open>Server and client\<close>

datatype rpc_status = Rpc_ok | Rpc_cancelled | Rpc_failed

record react_reply =
  rp_success :: bool
  rp_tries :: int

text \<open>
  \<open>ReactorServiceImpl::react\<close>. The result of waiting for the trace is not looked at; \<open>ready\<close> is the service's own flag. No code sets the
  field \<open>trials\<close> of the result, so what is reported as the number of tries is the indeterminate value \<open>trials0\<close>.
\<close>

definition service_react ::
    "('v, 'f, 'w) surroundings \<Rightarrow> bool \<Rightarrow> int \<Rightarrow> string \<Rightarrow> string \<Rightarrow> ('v, 'f, 'w) process \<Rightarrow>
     (rpc_status \<times> react_reply \<times> ('v, 'f, 'w) process) option" where
  "service_react su ready trials0 fault_loc fault_instr p =
     (if \<not> ready then Some (Rpc_cancelled, \<lparr>rp_success = False, rp_tries = 0\<rparr>, p)
      else do {
        (ok, p') \<leftarrow> react_request su fault_loc fault_instr p;
        Some (Rpc_ok, if ok then \<lparr>rp_success = True, rp_tries = trials0\<rparr> else \<lparr>rp_success = False, rp_tries = 0\<rparr>, p')
      })"

text \<open>\<open>ReactorClient::react\<close>: the string it returns after an error is converted to \<open>bool\<close>, which makes it true.\<close>

definition client_react :: "rpc_status \<Rightarrow> react_reply \<Rightarrow> bool" where
  "client_react status reply = (case status of Rpc_ok \<Rightarrow> rp_success reply | _ \<Rightarrow> True)"

record client_options =
  ct_server_address :: string
  ct_fault_loc :: string
  ct_fault_instr :: string

fun client_args :: "getopt_result list \<Rightarrow> bool \<times> client_options \<Rightarrow> (bool \<times> client_options) option" where
  "client_args [] st = Some st"
| "client_args (Opt c optarg # rest) (help, o1) =
     (if c = CHR ''h'' then client_args rest (True, o1)
      else if c = CHR ''c'' then client_args rest (help, o1\<lparr>ct_fault_loc := optarg\<rparr>)
      else if c = CHR ''i'' then client_args rest (help, o1\<lparr>ct_fault_instr := optarg\<rparr>)
      else if c = CHR ''s'' then client_args rest (help, o1\<lparr>ct_server_address := optarg\<rparr>)
      else None)"
| "client_args (FlagSet name # rest) (help, o1) = client_args rest (help \<or> name = ''help'', o1)"
| "client_args (BadOpt # rest) st = None"

text \<open>What the client does: it exits, or sends one request to an address, prints whether the reaction succeeded and returns 0.\<close>

datatype client_run = Client_exits int | Client_printed bool

definition client_main ::
    "(string \<Rightarrow> string \<Rightarrow> string \<Rightarrow> rpc_status \<times> react_reply) \<Rightarrow> getopt_result list \<Rightarrow> client_run" where
  "client_main call args = (case client_args args (False, \<lparr>ct_server_address = [], ct_fault_loc = [], ct_fault_instr = []\<rparr>) of
      None \<Rightarrow> Client_exits 1
    | Some (help, o1) \<Rightarrow>
        if help then Client_exits 0
        else let address = (if ct_server_address o1 = [] then ''localhost:50052'' else ct_server_address o1);
            (status, reply) = call address (ct_fault_loc o1) (ct_fault_instr o1)
          in Client_printed (client_react status reply))"

section \<open>Starting\<close>

datatype 'a started = Started 'a | Exits int | Terminated

text \<open>
  \<open>do_background_job\<close> up to the point where the service is ready, and the \<open>main\<close> of the standalone program. An exception ends the process.
\<close>

definition start_service :: "host \<Rightarrow> (instruction \<Rightarrow> 'v) \<Rightarrow> 'w reactor_run \<Rightarrow> getopt_result list \<Rightarrow> ('v, 'f, 'w) process started option" where
  "start_service host value_of run args = map_option (\<lambda>r. case r of Prep_exits c \<Rightarrow> Exits c | Prep_throws \<Rightarrow> Terminated | Prep_fails \<Rightarrow> Exits 1
     | Prep_ready s \<Rightarrow> Started (start_process s run)) (prepare host value_of True args)"

definition standalone_main ::
    "('v, 'f, 'w) surroundings \<Rightarrow> host \<Rightarrow> 'w reactor_run \<Rightarrow> getopt_result list \<Rightarrow> (int \<times> ('v, 'f, 'w) process) started option" where
  "standalone_main su host run args = do {
     r \<leftarrow> prepare host (su_value_of su) False args;
     case r of Prep_exits c \<Rightarrow> Some (Exits c) | Prep_throws \<Rightarrow> Some Terminated | Prep_fails \<Rightarrow> Some (Exits 1)
     | Prep_ready s \<Rightarrow> do {
         (ok, p') \<leftarrow> react_request su (opt_fault_loc (rs_options s)) (opt_fault_instr (rs_options s)) (start_process s run);
         Some (Started (if ok then 0 else 1, p'))
       }
   }"

section \<open>Lemmas\<close>

lemma request_reacts:
  assumes "rs_ready (pr_state p)" and "locate_fault_instr True (rs_module (pr_state p)) fault_loc inst_str = Some (Some fi)"
    and "slice_fault_instr (su_sort su) (su_func_of su) (su_insts su) [] (su_construct su) (su_graph su) (su_value_of su fi) (pr_slicing p) [] (pr_counts p) =
      Some (True, slices, counts, ss)"
    and "opt_pmem_file (rs_options (pr_state p)) \<noteq> None"
    and "fst (open_pool su (rs_options (pr_state p)) (rr_mem (pr_run p))) = None \<or> at_pool_addrs (rs_trace (pr_state p)) \<noteq> []"
    and "react (su_log_size su) (su_env su) (su_uninit su) (su_flag su) (su_tries su) (rs_options (pr_state p)) (request_inputs su p fi slices) (pr_run p) = Some r"
  shows "react_request su fault_loc inst_str p = Some (react_result_value r, p\<lparr>pr_slicing := ss, pr_counts := counts,
    pr_run := (case r of React_done _ run \<Rightarrow> run | React_returns _ \<Rightarrow> (pr_run p)\<lparr>rr_mem := snd (open_pool su (rs_options (pr_state p)) (rr_mem (pr_run p)))\<rparr>)\<rparr>)"
  using assms by (auto simp: react_request_def Let_def split: react_result.split)

text \<open>The conditions of an orderly request, up to the opened pool and the log.\<close>

definition request_ok ::
    "('v, 'f, 'w) surroundings \<Rightarrow> ('v, 'f, 'w) process \<Rightarrow> addr \<Rightarrow> 'w cmem \<Rightarrow> checkpoint_log \<Rightarrow> ((addr \<Rightarrow> byte option) \<Rightarrow> int) \<Rightarrow> bool" where
  "request_ok su p pop m0 c status \<longleftrightarrow> (let options = rs_options (pr_state p) in
     opt_pmem_file options \<noteq> None \<and> \<not> opt_arckpt options \<and> opt_pmem_library options = Some ''libpmemobj'' \<and>
     su_pmemobj_open su (rr_mem (pr_run p)) = (Some pop, m0) \<and> last_pool_items (rs_trace (pr_state p)) \<noteq> [] \<and>
     su_checkpoint su (opt_checkpoint_file options) (opt_pmem_library options) = Some c \<and> su_tries su \<noteq> MAX_COARSE_ATTEMPTS \<and>
     quiet_env (su_env su) pop status \<and> rr_binary_reversion_count (pr_run p) = 0 \<and>
     logs_usable (su_log_size su) (su_uninit su) pop (last_pool_items (rs_trace (pr_state p))) c (pm m0))"

lemma request_restores:
  assumes ready: "rs_ready (pr_state p)" and loc: "locate_fault_instr True (rs_module (pr_state p)) fault_loc inst_str = Some (Some fi)"
    and sl: "slice_fault_instr (su_sort su) (su_func_of su) (su_insts su) [] (su_construct su) (su_graph su) (su_value_of su fi) (pr_slicing p) [] (pr_counts p) =
      Some (True, slices, counts, ss)"
    and ok: "request_ok su p pop m0 c status"
  shows "\<exists>p' dn. react_request su fault_loc inst_str p = Some (True, p') \<and> distinct dn \<and>
    (\<forall>q \<in> set dn. \<exists>temp j v it. (temp, j) \<in> set (clog_versions c) \<and> q = version_seq (temp, j) \<and> v \<in> slice_vals slices \<and>
      (Some v, it) \<in> set (pr_trace_instrs p) \<and> ti_instr it = Some v \<and> ti_addr it = cd_address (nd_c_data temp)) \<and>
    pm (rr_mem (pr_run p')) = restore_versions c pop (pm m0) dn (pm m0) \<and>
    rr_total_reverted_items (pr_run p') = rr_total_reverted_items (pr_run p) + int (length dn)"
proof -
  let ?inp = "request_inputs su p fi slices" and ?o = "rs_options (pr_state p)"
  have o: "opt_pmem_file ?o \<noteq> None" "\<not> opt_arckpt ?o" "opt_pmem_library ?o = Some ''libpmemobj''"
    "su_pmemobj_open su (rr_mem (pr_run p)) = (Some pop, m0)" "last_pool_items (rs_trace (pr_state p)) \<noteq> []"
    "su_checkpoint su (opt_checkpoint_file ?o) (opt_pmem_library ?o) = Some c" "su_tries su \<noteq> MAX_COARSE_ATTEMPTS"
    "quiet_env (su_env su) pop status" "rr_binary_reversion_count (pr_run p) = 0"
    "logs_usable (su_log_size su) (su_uninit su) pop (last_pool_items (rs_trace (pr_state p))) c (pm m0)"
    using ok unfolding request_ok_def Let_def by blast+
  have pools: "at_pool_addrs (rs_trace (pr_state p)) \<noteq> []" using o(5) by (auto simp: last_pool_items_def)
  have open_p: "ri_open ?inp (rr_mem (pr_run p)) = (Some pop, m0)" using o(3,4) by (simp add: request_inputs_def open_pool_def Let_def)
  have inp: "ri_ready ?inp" "ri_fault_inst ?inp = Some (Some (su_value_of su fi))" "ri_last_pool ?inp = last_pool_items (rs_trace (pr_state p))"
    "ri_slices ?inp = Some (map (\<lambda>slice. map (\<lambda>item. Some (fst item)) (sc_dep_vals slice)) slices)" "ri_checkpoint ?inp = Some c"
    using ready o(6) by (simp_all add: request_inputs_def Let_def)
  obtain run dn where react: "react (su_log_size su) (su_env su) (su_uninit su) (su_flag su) (su_tries su) ?o ?inp (pr_run p) = Some (React_done True run)"
    and dn: "distinct dn" "set dn \<subseteq> touched_versions c (ri_trace_instrs ?inp) (map (\<lambda>slice. map (\<lambda>item. Some (fst item)) (sc_dep_vals slice)) slices)"
    "pm (rr_mem run) = restore_versions c pop (pm m0) dn (pm m0)"
    "rr_total_reverted_items run = rr_total_reverted_items (pr_run p) + int (length dn)"
    using react_reverts [OF inp(1,2,4) o(1) open_p _ inp(5) o(2,3,7,8) _ o(9), of "su_log_size su" "su_uninit su" "su_flag su"] o(5,10) inp(3) by auto
  have "\<exists>temp j v it. (temp, j) \<in> set (clog_versions c) \<and> q = version_seq (temp, j) \<and> v \<in> slice_vals slices \<and>
      (Some v, it) \<in> set (pr_trace_instrs p) \<and> ti_instr it = Some v \<and> ti_addr it = cd_address (nd_c_data temp)" if q: "q \<in> set dn" for q
  proof -
    obtain temp j i where *: "(temp, j) \<in> set (clog_versions c)" "q = version_seq (temp, j)"
      "i \<in> set (concat (map (\<lambda>slice. map (\<lambda>item. Some (fst item)) (sc_dep_vals slice)) slices))"
      "(i, (i, cd_address (nd_c_data temp))) \<in> set (ri_trace_instrs ?inp)"
      using dn(2) q unfolding touched_versions_def by blast
    obtain v where v: "i = Some v" "v \<in> slice_vals slices" using *(3) by (force simp: slice_vals_def)
    obtain it where "(i, it) \<in> set (pr_trace_instrs p)" "ti_instr it = i" "ti_addr it = cd_address (nd_c_data temp)"
      using *(4) by (auto simp: request_inputs_def Let_def)
    then show ?thesis using *(1,2) v by (intro exI [of _ temp] exI [of _ j] exI [of _ v] exI [of _ it]) simp
  qed
  moreover note request_reacts [OF ready loc sl o(1) disjI2 [OF pools] react]
  ultimately show ?thesis using dn by (intro exI [of _ "p\<lparr>pr_slicing := ss, pr_counts := counts, pr_run := run\<rparr>"] exI [of _ dn]) (simp add: react_result_value_def)
qed

section \<open>A sample program\<close>

text \<open>
  The program of theory \<open>Preparation\<close>, whose load on line 76 is the node of the value 10 in the sample dependence graph, with a pool at 8128 and the checkpoint log
  of theory \<open>ReactionLogs\<close>.
\<close>

definition sample_value :: "instruction \<Rightarrow> nat" where
  "sample_value i = (if in_id i = 2 then 10 else in_id i)"

definition sample_surroundings :: "(nat, unit, unit) surroundings" where
  "sample_surroundings = \<lparr>su_value_of = sample_value, su_sort = edge_sort, su_func_of = (\<lambda>_. ()), su_insts = (\<lambda>_. [11, 10, 12]),
     su_construct = (\<lambda>_. Some [((), 0)]), su_graph = sample_mgraph, su_env = rx_env sample_reaction,
     su_pmemobj_open = (\<lambda>m. (Some 8128, m)), su_pmem_map_file = (\<lambda>m. (None, m)), su_checkpoint = (\<lambda>_ _. Some pool_clog),
     su_log_size = 100, su_uninit = sample_data, su_flag = 0, su_tries = 0\<rparr>"

definition libpmemobj_args :: "getopt_result list" where
  "libpmemobj_args = standalone_args @ [Opt (CHR ''l'') ''libpmemobj'']"

definition prepared_state :: "(nat, unit) reactor_state" where
  "prepared_state = (case prepare sample_host sample_value False libpmemobj_args of Some (Prep_ready s) \<Rightarrow> s
     | _ \<Rightarrow> \<lparr>rs_server = True, rs_ready = False, rs_options = zero_options, rs_module = [], rs_var_map = [], rs_trace = empty_trace,
         rs_slicer = created_slicer Backward\<rparr>)"

lemma libpmemobj_prepared: "prepare sample_host sample_value False libpmemobj_args = Some (Prep_ready prepared_state)"
proof -
  have "(case prepare sample_host sample_value False libpmemobj_args of Some (Prep_ready (s :: (nat, unit) reactor_state)) \<Rightarrow> True | _ \<Rightarrow> False)"
    by code_simp
  then show ?thesis unfolding prepared_state_def by (auto split: option.splits preparation.splits)
qed

text \<open>A server's state has the instructions of the trace, a standalone program's has not.\<close>

definition standalone_process :: "(nat, unit, unit) process" where
  "standalone_process = start_process prepared_state pool_run"

definition server_process :: "(nat, unit, unit) process" where
  "server_process = standalone_process\<lparr>pr_trace_instrs := map (\<lambda>it. (ti_instr it, it)) (at_items (rs_trace prepared_state))\<rparr>"

lemma prepared_options:
  "opt_pmem_file (rs_options prepared_state) = Some ''/mnt/pmem/pool''" "\<not> opt_arckpt (rs_options prepared_state)"
  "opt_pmem_library (rs_options prepared_state) = Some ''libpmemobj''" "last_pool_items (rs_trace prepared_state) = [(320, 64), (336, 80)]"
  "rs_ready prepared_state" "opt_fault_loc (rs_options prepared_state) = ''hello.c:76''"
  "opt_fault_instr (rs_options prepared_state) = ''%4 = load i64, i64* %3, !dbg !9''"
  by code_simp+

lemma process_request_ok:
  assumes "pr_state p = prepared_state" and "pr_run p = pool_run"
  shows "request_ok sample_surroundings p 8128 pool_mem pool_clog (\<lambda>p. if p 8192 = Some 3 then 0 else 256)"
  using assms prepared_options pool_logs_usable sample_reaction_ok
  by (simp add: request_ok_def Let_def sample_surroundings_def pool_run_def sample_run_def MAX_COARSE_ATTEMPTS_def reaction_ok_def)

lemma sample_located: "locate_fault_instr True (rs_module prepared_state) ''hello.c:76'' ''%4 = load i64, i64* %3, !dbg !9'' =
    Some (Some (sample_instr 2 (Some 76) ''  %4 = load i64, i64* %3, !dbg !9''))"
  by code_simp

lemma sample_sliced:
  assumes "pr_slicing p = pr_slicing standalone_process" and "pr_counts p = pr_counts standalone_process"
  obtains slices counts ss where "slice_fault_instr (su_sort sample_surroundings) (su_func_of sample_surroundings) (su_insts sample_surroundings) []
      (su_construct sample_surroundings) (su_graph sample_surroundings) (su_value_of sample_surroundings (sample_instr 2 (Some 76) ''  %4 = load i64, i64* %3, !dbg !9''))
      (pr_slicing p) [] (pr_counts p) = Some (True, slices, counts, ss)" and "map (\<lambda>s. map fst (sc_dep_vals s)) slices = [[10, 11]]"
proof -
  let ?r = "slice_fault_instr (su_sort sample_surroundings) (su_func_of sample_surroundings) (su_insts sample_surroundings) []
      (su_construct sample_surroundings) (su_graph sample_surroundings) (su_value_of sample_surroundings (sample_instr 2 (Some 76) ''  %4 = load i64, i64* %3, !dbg !9''))
      (pr_slicing standalone_process) [] (pr_counts standalone_process)"
  have "(case ?r of Some (True, slices, _) \<Rightarrow> map (\<lambda>s. map fst (sc_dep_vals s)) slices = [[10, 11]] | _ \<Rightarrow> False)" by code_simp
  then show thesis using that assms by (auto split: option.splits bool.splits)
qed

section \<open>Properties\<close>



text \<open>
  C36: Failures that the client takes for successes. A request whose pool cannot be opened is answered with success, since -1 becomes true, and leaves memory as opening left it; a request that the
  server refuses because it is not ready, or that does not reach it, counts as successful for the client, since the text it returns becomes true.
\<close>

theorem failures_reported_as_success:
  assumes "rs_ready (pr_state p)" and "locate_fault_instr True (rs_module (pr_state p)) fault_loc inst_str = Some (Some fi)"
    and "slice_fault_instr (su_sort su) (su_func_of su) (su_insts su) [] (su_construct su) (su_graph su) (su_value_of su fi) (pr_slicing p) [] (pr_counts p) =
      Some (True, slices, counts, ss)"
    and "opt_pmem_file (rs_options (pr_state p)) \<noteq> None" and "open_pool su (rs_options (pr_state p)) (rr_mem (pr_run p)) = (None, m)"
  shows "\<exists>p'. service_react su True trials0 fault_loc inst_str p = Some (Rpc_ok, \<lparr>rp_success = True, rp_tries = trials0\<rparr>, p') \<and>
      rr_mem (pr_run p') = m \<and> client_react Rpc_ok \<lparr>rp_success = True, rp_tries = trials0\<rparr> \<and>
    (\<exists>reply. service_react su False trials0 fault_loc inst_str p = Some (Rpc_cancelled, reply, p) \<and> \<not> rp_success reply \<and> client_react Rpc_cancelled reply) \<and>
    client_react Rpc_failed reply0"
proof -
  have "react (su_log_size su) (su_env su) (su_uninit su) (su_flag su) (su_tries su) (rs_options (pr_state p)) (request_inputs su p fi slices) (pr_run p) =
      Some (React_returns True)"
    using assms(1,4,5) by (simp add: react_def request_inputs_def Let_def)
  from request_reacts [OF assms(1-4) _ this] assms(5) show ?thesis
    by (simp add: service_react_def client_react_def react_result_value_def)
qed

text \<open>Here \<open>pmemobj_open\<close> fails.\<close>

theorem failures_reported_as_success_witness:
  "\<exists>p'. service_react (sample_surroundings\<lparr>su_pmemobj_open := (\<lambda>m. (None, m))\<rparr>) True 7 ''hello.c:76'' ''%4 = load i64, i64* %3, !dbg !9'' server_process =
     Some (Rpc_ok, \<lparr>rp_success = True, rp_tries = 7\<rparr>, p') \<and> rr_mem (pr_run p') = pool_mem"
proof -
  have p: "pr_slicing server_process = pr_slicing standalone_process" "pr_counts server_process = pr_counts standalone_process"
    "pr_state server_process = prepared_state" "pr_run server_process = pool_run"
    by (simp_all add: server_process_def standalone_process_def start_process_def)
  let ?su = "sample_surroundings\<lparr>su_pmemobj_open := (\<lambda>m. (None, m))\<rparr>"
  obtain slices counts ss where "slice_fault_instr (su_sort ?su) (su_func_of ?su) (su_insts ?su) []
      (su_construct ?su) (su_graph ?su) (su_value_of ?su (sample_instr 2 (Some 76) ''  %4 = load i64, i64* %3, !dbg !9''))
      (pr_slicing server_process) [] (pr_counts server_process) = Some (True, slices, counts, ss)"
    by (rule sample_sliced [OF p(1,2)]) (rule that, simp)
  moreover have "rs_ready (pr_state server_process)" "locate_fault_instr True (rs_module (pr_state server_process)) ''hello.c:76'' ''%4 = load i64, i64* %3, !dbg !9'' =
      Some (Some (sample_instr 2 (Some 76) ''  %4 = load i64, i64* %3, !dbg !9''))"
    "opt_pmem_file (rs_options (pr_state server_process)) \<noteq> None" "open_pool ?su (rs_options (pr_state server_process)) (rr_mem (pr_run server_process)) = (None, pool_mem)"
    using prepared_options sample_located p(3,4) by (simp_all add: open_pool_def pool_run_def)
  ultimately show ?thesis
    using failures_reported_as_success [where su = ?su and p = server_process and m = pool_mem and ?trials0.0 = 7] by blast
qed



end
