(* ===== verification/Reconstruct.thy ===== *)
theory Reconstruct
  imports CheckpointLog
begin

text \<open>
  \<open>reconstruct_checkpoint\<close> (\<open>reactor/lib/checkpoint.c\<close>): the checkpoint file is mapped at an address that
  differs from the one it was written at, so every pointer stored in it (the bucket array, the heads of
  the chains, the \<open>next\<close> fields, the logged data buffers) is moved by the difference. The file is a store
  of the typed objects found in it; the pointers are 64-bit words and the arithmetic wraps around. The
  chain walk may run forever on a cyclic chain and is a partial function. The lemmas show that for a
  file that holds a checkpoint log the function returns, yields that log at the new address, and is
  the identity when the file is mapped at the same place again.
\<close>

section \<open>The mapped file\<close>

record raw_node =
  rn_node :: node
  rn_next :: addr

record mapped_file =
  mf_old_pool :: addr
  mf_list :: addr
  mf_size :: nat
  mf_variable_count :: int
  mf_cells :: "addr \<Rightarrow> addr option"
  mf_nodes :: "addr \<Rightarrow> raw_node option"

section \<open>Operations\<close>

text \<open>\<open>offset = (uint64_t)x - *old_pool; (uint64_t)pop + offset\<close>.\<close>

definition reloc :: "addr \<Rightarrow> addr \<Rightarrow> addr \<Rightarrow> addr" where
  "reloc old pop x = pop + (x - old)"

definition reloc_data :: "addr \<Rightarrow> addr \<Rightarrow> nat \<Rightarrow> checkpoint_data \<Rightarrow> checkpoint_data option" where
  "reloc_data old pop j c = do {
     p \<leftarrow> slot (cd_data c) j;
     (case p of
        Mapped a \<Rightarrow> Some (c\<lparr>cd_data := (cd_data c)[j := Mapped (reloc old pop a)]\<rparr>)
      | Blk _ \<Rightarrow> None)
   }"

text \<open>\<open>while (temp)\<close>: relocate the data pointers of the node and its \<open>next\<close> field, then follow it.\<close>

partial_function (option) reloc_chain :: "addr \<Rightarrow> addr \<Rightarrow> addr \<Rightarrow> mapped_file \<Rightarrow> mapped_file option" where
  "reloc_chain old pop temp f = (if temp = 0 then Some f else do {
     rn \<leftarrow> mf_nodes f temp;
     c \<leftarrow> ofold (reloc_data old pop) (version_indices (rn_node rn)) (nd_c_data (rn_node rn));
     let nxt = (if rn_next rn \<noteq> 0 then reloc old pop (rn_next rn) else rn_next rn);
     let rn' = rn\<lparr>rn_node := (rn_node rn)\<lparr>nd_c_data := c\<rparr>, rn_next := nxt\<rparr>;
     reloc_chain old pop nxt (f\<lparr>mf_nodes := (mf_nodes f)(temp \<mapsto> rn')\<rparr>)
   })"

text \<open>One round of the loop over the buckets; \<open>list[i]\<close> is the cell at \<open>list + 8 i\<close>.\<close>

definition cell_addr :: "addr \<Rightarrow> nat \<Rightarrow> addr" where
  "cell_addr list i = list + 8 * of_nat i"

definition reloc_bucket :: "addr \<Rightarrow> addr \<Rightarrow> nat \<Rightarrow> mapped_file \<Rightarrow> mapped_file option" where
  "reloc_bucket old pop i f = do {
     let cell = cell_addr (mf_list f) i;
     temp \<leftarrow> mf_cells f cell;
     if temp \<noteq> 0
     then reloc_chain old pop (reloc old pop temp)
       (f\<lparr>mf_cells := (mf_cells f)(cell \<mapsto> reloc old pop temp)\<rparr>)
     else Some f
   }"

definition reloc_file :: "addr \<Rightarrow> mapped_file \<Rightarrow> mapped_file option" where
  "reloc_file pop f = (let old = mf_old_pool f in do {
     f1 \<leftarrow> ofold (reloc_bucket old pop) [0..<int_loop_bound (mf_size f)]
       (f\<lparr>mf_list := reloc old pop (mf_list f)\<rparr>);
     Some (f1\<lparr>mf_old_pool := pop\<rparr>)
   })"

text \<open>
  The two ways to map the file are parameters: \<open>pmemobj_open\<close> with the layout, and \<open>pmem_map_file\<close>; each
  yields the address and the contents, or fails. For any other library name the local variable
  \<open>c_log\<close> is tested without having been set.
\<close>

datatype recon_result = Recon_null | Recon_exit int | Recon_log mapped_file

definition reconstruct_checkpoint ::
    "(string \<Rightarrow> string \<Rightarrow> (addr \<times> mapped_file) option) \<Rightarrow> (string \<Rightarrow> (addr \<times> mapped_file) option) \<Rightarrow>
     string \<Rightarrow> string \<Rightarrow> recon_result option" where
  "reconstruct_checkpoint pmemobj_open pmem_map_file file_path pmem_library =
     (if pmem_library = ''libpmemobj2'' then
        (case pmemobj_open file_path ''checkpoint'' of
           None \<Rightarrow> Some Recon_null
         | Some (pop, f) \<Rightarrow> map_option Recon_log (reloc_file pop f))
      else if pmem_library = ''libpmem'' \<or> pmem_library = ''libpmemobj'' then
        (case pmem_map_file file_path of
           None \<Rightarrow> Some (Recon_exit 1)
         | Some (pmemaddr, f) \<Rightarrow> map_option Recon_log (reloc_file pmemaddr f))
      else None)"

section \<open>Files that hold a checkpoint log\<close>

text \<open>
  \<open>chain_shape g nodes a ps\<close>: following stored pointers from \<open>a\<close>, each of which means the address \<open>g a\<close>,
  reaches the nodes \<open>ps\<close> and then \<open>NULL\<close>.
\<close>

fun chain_shape :: "(addr \<Rightarrow> addr) \<Rightarrow> (addr \<Rightarrow> raw_node option) \<Rightarrow> addr \<Rightarrow> (addr \<times> raw_node) list \<Rightarrow> bool" where
  "chain_shape g nodes a [] = (a = 0)"
| "chain_shape g nodes a ((p, rn) # ps) =
     (a \<noteq> 0 \<and> p = g a \<and> p \<noteq> 0 \<and> nodes p = Some rn \<and> chain_shape g nodes (rn_next rn) ps)"

definition data_mapped :: "node \<Rightarrow> bool" where
  "data_mapped temp = (let c = nd_c_data temp in
     list_all (\<lambda>j. j < length (cd_data c) \<and> (case cd_data c ! j of Mapped _ \<Rightarrow> True | Blk _ \<Rightarrow> False)) (version_indices temp))"

definition file_shape :: "(addr \<Rightarrow> addr) \<Rightarrow> addr \<Rightarrow> mapped_file \<Rightarrow> (addr \<times> raw_node) list list \<Rightarrow> bool" where
  "file_shape g list f chs \<longleftrightarrow> mf_size f = length chs \<and> length chs < 2 ^ 31 \<and>
     distinct (map fst (concat chs)) \<and>
     (\<forall>i < length chs. \<exists>h. mf_cells f (cell_addr list i) = Some h \<and> chain_shape g (mf_nodes f) h (chs ! i)) \<and>
     (\<forall>(p, rn) \<in> set (concat chs). data_mapped (rn_node rn))"

text \<open>The log a file holds, and what it becomes when it is moved.\<close>

definition holds_log :: "(addr \<Rightarrow> addr) \<Rightarrow> mapped_file \<Rightarrow> checkpoint_log \<Rightarrow> bool" where
  "holds_log g f c \<longleftrightarrow> (\<exists>chs. file_shape g (g (mf_list f)) f chs \<and>
     c = \<lparr>cl_size = mf_size f, cl_variable_count = mf_variable_count f, cl_list = map (map (rn_node \<circ> snd)) chs\<rparr>)"

definition move_ptr :: "(addr \<Rightarrow> addr) \<Rightarrow> ptr \<Rightarrow> ptr" where
  "move_ptr g p = (case p of Mapped a \<Rightarrow> Mapped (g a) | Blk b \<Rightarrow> Blk b)"

definition move_node :: "(addr \<Rightarrow> addr) \<Rightarrow> node \<Rightarrow> node" where
  "move_node g temp = (let c = nd_c_data temp; n = length (version_indices temp) in
     temp\<lparr>nd_c_data := c\<lparr>cd_data := map (move_ptr g) (take n (cd_data c)) @ drop n (cd_data c)\<rparr>\<rparr>)"

definition move_log :: "(addr \<Rightarrow> addr) \<Rightarrow> checkpoint_log \<Rightarrow> checkpoint_log" where
  "move_log g c = c\<lparr>cl_list := map (map (move_node g)) (cl_list c)\<rparr>"

section \<open>Moving one node, one chain, one bucket\<close>

lemma reloc_data_all:
  assumes "n \<le> length (cd_data c)" and "\<And>j. j < n \<Longrightarrow> \<exists>a. cd_data c ! j = Mapped a"
  shows "ofold (reloc_data old pop) [0..<n] c =
    Some (c\<lparr>cd_data := map (move_ptr (reloc old pop)) (take n (cd_data c)) @ drop n (cd_data c)\<rparr>)"
  using assms
proof (induction n)
  case (Suc n)
  obtain a where "cd_data c ! n = Mapped a" using Suc.prems(2) by blast
  then show ?case
    using Suc by (simp add: ofold_append reloc_data_def slot_def move_ptr_def nth_append list_update_append
        Cons_nth_drop_Suc [symmetric] take_Suc_conv_app_nth)
qed simp

lemma data_mappedD:
  assumes "data_mapped temp" and "j \<in> set (version_indices temp)"
  shows "j < length (cd_data (nd_c_data temp)) \<and> (\<exists>a. cd_data (nd_c_data temp) ! j = Mapped a)"
proof -
  have "j < length (cd_data (nd_c_data temp)) \<and>
      (case cd_data (nd_c_data temp) ! j of Mapped _ \<Rightarrow> True | Blk _ \<Rightarrow> False)"
    using assms by (simp add: data_mapped_def Let_def list_all_iff)
  then show ?thesis by (cases "cd_data (nd_c_data temp) ! j") simp_all
qed

lemma reloc_node:
  assumes "data_mapped temp"
  shows "map_option (\<lambda>c. temp\<lparr>nd_c_data := c\<rparr>)
      (ofold (reloc_data old pop) (version_indices temp) (nd_c_data temp)) = Some (move_node (reloc old pop) temp)"
proof -
  let ?n = "nat (cd_version (nd_c_data temp) + 1)" and ?c = "nd_c_data temp"
  have "j < ?n \<Longrightarrow> j < length (cd_data ?c) \<and> (\<exists>a. cd_data ?c ! j = Mapped a)" for j
    using data_mappedD [OF assms] by (simp add: version_indices_def)
  then have *: "j < ?n \<Longrightarrow> \<exists>a. cd_data ?c ! j = Mapped a" and "?n \<le> length (cd_data ?c)" for j
    using linorder_not_less by blast+
  from reloc_data_all [OF this(2) *] show ?thesis
    by (simp add: move_node_def Let_def version_indices_def)
qed

definition move_raw :: "(addr \<Rightarrow> addr) \<Rightarrow> raw_node \<Rightarrow> raw_node" where
  "move_raw g rn = rn\<lparr>rn_node := move_node g (rn_node rn), rn_next := (if rn_next rn \<noteq> 0 then g (rn_next rn) else 0)\<rparr>"

definition move_nodes :: "(addr \<Rightarrow> addr) \<Rightarrow> (addr \<times> raw_node) list \<Rightarrow> (addr \<times> raw_node) list" where
  "move_nodes g = map (\<lambda>(p, rn). (p, move_raw g rn))"

lemma move_nodes_Cons: "map_of (move_nodes g ((p, rn) # ps)) = (map_of (move_nodes g ps))(p \<mapsto> move_raw g rn)"
  by (simp add: move_nodes_def)

lemma move_nodes_dom: "dom (map_of (move_nodes g ps)) = fst ` set ps"
  by (force simp: move_nodes_def dom_map_of_conv_image_fst image_image)

lemma move_nodes_fst [simp]: "map fst (move_nodes g ps) = map fst ps"
  by (auto simp: move_nodes_def)

definition put_nodes :: "(addr \<times> raw_node) list \<Rightarrow> mapped_file \<Rightarrow> mapped_file" where
  "put_nodes ps f = f\<lparr>mf_nodes := mf_nodes f ++ map_of ps\<rparr>"

lemma chain_shape_cong:
  "chain_shape g nodes a ps \<Longrightarrow> (\<And>p. p \<in> fst ` set ps \<Longrightarrow> nodes' p = nodes p) \<Longrightarrow> chain_shape g nodes' a ps"
  by (induction g nodes a ps rule: chain_shape.induct) auto

text \<open>Moving a chain rewrites exactly its nodes, and leaves it linked by addresses of the new mapping.\<close>

lemma reloc_chain_shape:
  assumes "chain_shape (reloc old pop) (mf_nodes f) a ps" and "distinct (map fst ps)"
    and "\<forall>(p, rn) \<in> set ps. data_mapped (rn_node rn)"
  shows "reloc_chain old pop (if a = 0 then 0 else reloc old pop a) f = Some (put_nodes (move_nodes (reloc old pop) ps) f)"
  using assms
proof (induction ps arbitrary: a f)
  case Nil
  then show ?case by (subst reloc_chain.simps) (simp add: put_nodes_def move_nodes_def)
next
  case (Cons q ps)
  obtain p rn where q: "q = (p, rn)" by force
  let ?g = "reloc old pop" and ?rn = "move_raw (reloc old pop) rn"
  let ?f = "f\<lparr>mf_nodes := (mf_nodes f)(p \<mapsto> ?rn)\<rparr>"
  have p: "a \<noteq> 0" "p = ?g a" "p \<noteq> 0" "mf_nodes f p = Some rn" "chain_shape ?g (mf_nodes f) (rn_next rn) ps"
    using Cons.prems(1) q by auto
  obtain c where c: "ofold (reloc_data old pop) (version_indices (rn_node rn)) (nd_c_data (rn_node rn)) = Some c"
    "(rn_node rn)\<lparr>nd_c_data := c\<rparr> = move_node ?g (rn_node rn)"
    using reloc_node [of "rn_node rn" old pop] Cons.prems(3) q by auto
  have "reloc_chain old pop p f = reloc_chain old pop (if rn_next rn = 0 then 0 else ?g (rn_next rn)) ?f"
    using p c by (subst reloc_chain.simps) (auto simp: move_raw_def Let_def)
  also have "\<dots> = Some (put_nodes (move_nodes ?g ps) ?f)"
  proof (rule Cons.IH)
    show "chain_shape ?g (mf_nodes ?f) (rn_next rn) ps"
      by (rule chain_shape_cong [OF p(5)]) (use Cons.prems(2) q in \<open>auto\<close>)
  qed (use Cons.prems q in auto)
  also have "put_nodes (move_nodes ?g ps) ?f = put_nodes (move_nodes ?g (q # ps)) f"
    using Cons.prems(2) q by (simp add: put_nodes_def move_nodes_dom map_add_upd_left move_nodes_Cons)
  finally show ?case using p by simp
qed


lemma chain_shape_moved:
  assumes "chain_shape g nodes a ps" and "distinct (map fst ps)" and "\<forall>(p, rn) \<in> set (move_nodes g ps). nodes' p = Some rn"
  shows "chain_shape (\<lambda>a. a) nodes' (if a = 0 then 0 else g a) (move_nodes g ps)"
  using assms
proof (induction g nodes a ps rule: chain_shape.induct)
  case (2 g nodes a p rn ps)
  then have "chain_shape (\<lambda>a. a) nodes' (if rn_next rn = 0 then 0 else g (rn_next rn)) (move_nodes g ps)"
    by (simp add: move_nodes_def)
  then show ?case using 2 by (auto simp: move_nodes_def move_raw_def)
qed (simp add: move_nodes_def)

lemma cell_addr_inj:
  assumes "i < 2 ^ 31" and "j < 2 ^ 31" and "cell_addr l i = cell_addr l j"
  shows "i = j"
proof -
  have "(of_nat (8 * i) :: addr) = of_nat (8 * j)" using assms(3) by (simp add: cell_addr_def)
  then have "unat (of_nat (8 * i) :: addr) = unat (of_nat (8 * j) :: addr)" by simp
  then show ?thesis using assms(1,2) by (simp add: unat_of_nat_addr del: of_nat_mult)
qed

text \<open>The file after the first \<open>n\<close> buckets have been moved.\<close>

definition moved_cells :: "(addr \<Rightarrow> addr) \<Rightarrow> addr \<Rightarrow> nat \<Rightarrow> mapped_file \<Rightarrow> addr \<Rightarrow> addr option" where
  "moved_cells g list n f x =
     (if \<exists>i < n. x = cell_addr list i then map_option (\<lambda>h. if h = 0 then 0 else g h) (mf_cells f x) else mf_cells f x)"

definition moved_upto :: "(addr \<Rightarrow> addr) \<Rightarrow> nat \<Rightarrow> (addr \<times> raw_node) list list \<Rightarrow> mapped_file \<Rightarrow> mapped_file" where
  "moved_upto g n chs f = put_nodes (move_nodes g (concat (take n chs)))
     (f\<lparr>mf_list := g (mf_list f), mf_cells := moved_cells g (g (mf_list f)) n f\<rparr>)"

lemma put_nodes_append:
  "put_nodes qs (put_nodes ps f) = put_nodes (qs @ ps) f"
  by (simp add: put_nodes_def)

lemma put_nodes_swap:
  "fst ` set ps \<inter> fst ` set qs = {} \<Longrightarrow> put_nodes (ps @ qs) f = put_nodes (qs @ ps) f"
  by (simp add: put_nodes_def map_add_comm [of "map_of ps" "map_of qs"] dom_map_of_conv_image_fst)

lemma take_Suc_disjoint:
  assumes "distinct (map fst (concat chs))" and "n < length chs"
  shows "distinct (map fst (chs ! n))" and "fst ` set (concat (take n chs)) \<inter> fst ` set (chs ! n) = {}"
proof -
  have "concat chs = concat (take n chs @ chs ! n # drop (Suc n) chs)"
    by (rule arg_cong [OF id_take_nth_drop [OF assms(2)]])
  then have "distinct (map fst (concat (take n chs)) @ map fst (chs ! n) @ map fst (concat (drop (Suc n) chs)))"
    using assms(1) by (simp only: concat_append concat.simps map_append)
  then show "distinct (map fst (chs ! n))" and "fst ` set (concat (take n chs)) \<inter> fst ` set (chs ! n) = {}"
    unfolding distinct_append set_map set_append by blast+
qed

lemma reloc_bucket_moved:
  assumes shape: "file_shape (reloc old pop) (reloc old pop (mf_list f)) f chs" and n: "n < length chs"
  shows "reloc_bucket old pop n (moved_upto (reloc old pop) n chs f) = Some (moved_upto (reloc old pop) (Suc n) chs f)"
proof -
  let ?g = "reloc old pop"
  let ?l = "?g (mf_list f)"
  let ?f = "moved_upto ?g n chs f"
  let ?x = "cell_addr ?l n"
  obtain h where h: "mf_cells f ?x = Some h" "chain_shape ?g (mf_nodes f) h (chs ! n)"
    using shape n by (auto simp: file_shape_def)
  have bound: "length chs < 2 ^ 31" "distinct (map fst (concat chs))" using shape by (auto simp: file_shape_def)
  have new: "\<not> (\<exists>i < n. ?x = cell_addr ?l i)"
    using cell_addr_inj [of n _ ?l] n bound(1) by (metis less_trans less_irrefl)
  then have old_cell: "moved_cells ?g ?l n f ?x = Some h" using h unfolding moved_cells_def by argo
  then have cell: "mf_cells ?f ?x = Some h" by (simp add: moved_upto_def put_nodes_def)
  have cells: "moved_cells ?g ?l (Suc n) f = (moved_cells ?g ?l n f)(?x \<mapsto> (if h = 0 then 0 else ?g h))"
    using h(1) new by (auto simp: moved_cells_def fun_eq_iff less_Suc_eq)
  note dis = take_Suc_disjoint [OF bound(2) n]
  define f1 where "f1 = ?f\<lparr>mf_cells := moved_cells ?g ?l (Suc n) f\<rparr>"
  have chain: "reloc_chain old pop (if h = 0 then 0 else ?g h) f1 = Some (put_nodes (move_nodes ?g (chs ! n)) f1)"
  proof (rule reloc_chain_shape)
    show "chain_shape ?g (mf_nodes f1) h (chs ! n)"
    proof (rule chain_shape_cong [OF h(2)])
      fix p assume "p \<in> fst ` set (chs ! n)"
      then have "p \<notin> dom (map_of (move_nodes ?g (concat (take n chs))))"
        unfolding move_nodes_dom using dis(2) by blast
      then show "mf_nodes f1 p = mf_nodes f p"
        by (auto simp: f1_def moved_upto_def put_nodes_def map_add_def dom_def)
    qed
    show "\<forall>(p, rn) \<in> set (chs ! n). data_mapped (rn_node rn)"
      using shape n nth_mem [OF n] unfolding file_shape_def by fastforce
  qed (rule dis(1))
  have fst_moved: "fst ` set (move_nodes ?g ps) = fst ` set ps" for ps
    by (metis list.set_map move_nodes_fst)
  have "put_nodes (move_nodes ?g (chs ! n)) f1 = moved_upto ?g (Suc n) chs f"
  proof -
    let ?b = "f\<lparr>mf_list := ?l, mf_cells := moved_cells ?g ?l (Suc n) f\<rparr>"
    have "f1 = put_nodes (move_nodes ?g (concat (take n chs))) ?b"
      by (simp add: f1_def moved_upto_def put_nodes_def)
    then have "put_nodes (move_nodes ?g (chs ! n)) f1 =
        put_nodes (move_nodes ?g (chs ! n) @ move_nodes ?g (concat (take n chs))) ?b"
      by (simp only: put_nodes_append)
    also have "\<dots> = put_nodes (move_nodes ?g (concat (take n chs)) @ move_nodes ?g (chs ! n)) ?b"
      by (rule put_nodes_swap) (use dis(2) in \<open>auto simp only: fst_moved\<close>)
    finally show ?thesis using n by (simp add: moved_upto_def take_Suc_conv_app_nth move_nodes_def)
  qed
  moreover have "reloc_bucket old pop n ?f = reloc_chain old pop (if h = 0 then 0 else ?g h) f1"
  proof (cases "h = 0")
    case True
    have "moved_cells ?g ?l (Suc n) f = moved_cells ?g ?l n f"
      unfolding cells using True old_cell by (simp add: fun_upd_idem_iff)
    then have "f1 = ?f" by (simp add: f1_def moved_upto_def put_nodes_def)
    then show ?thesis using True cell
      by (simp add: reloc_bucket_def moved_upto_def put_nodes_def reloc_chain.simps [of old pop 0] Let_def)
  next
    case False
    then have "f1 = ?f\<lparr>mf_cells := (mf_cells ?f)(?x \<mapsto> ?g h)\<rparr>"
      using cells by (simp add: f1_def moved_upto_def put_nodes_def)
    moreover have "mf_list ?f = ?l" by (simp add: moved_upto_def put_nodes_def)
    ultimately show ?thesis using False cell by (simp add: reloc_bucket_def Let_def)
  qed
  ultimately show ?thesis using chain by simp
qed


section \<open>Moving the whole file\<close>

lemma reloc_file_moved:
  assumes "file_shape (reloc (mf_old_pool f) pop) (reloc (mf_old_pool f) pop (mf_list f)) f chs"
  shows "reloc_file pop f = Some ((moved_upto (reloc (mf_old_pool f) pop) (length chs) chs f)\<lparr>mf_old_pool := pop\<rparr>)"
proof -
  let ?old = "mf_old_pool f"
  let ?g = "reloc ?old pop"
  have "ofold (reloc_bucket ?old pop) [0..<n] (f\<lparr>mf_list := ?g (mf_list f)\<rparr>) = Some (moved_upto ?g n chs f)"
    if "n \<le> length chs" for n
    using that
  proof (induction n)
    case 0
    have "moved_cells ?g (?g (mf_list f)) 0 f = mf_cells f" by (simp add: moved_cells_def fun_eq_iff)
    then show ?case by (simp add: moved_upto_def put_nodes_def move_nodes_def)
  next
    case (Suc n)
    then show ?case using reloc_bucket_moved [OF assms, of n] by (simp add: ofold_append)
  qed
  moreover have "int_loop_bound (mf_size f) = length chs"
    using assms by (simp add: file_shape_def int_loop_bound_id)
  ultimately show ?thesis by (simp add: reloc_file_def Let_def)
qed

lemma data_mapped_move: "data_mapped temp \<Longrightarrow> data_mapped (move_node g temp)"
proof -
  assume d: "data_mapped temp"
  have v: "version_indices (move_node g temp) = version_indices temp"
    by (simp add: version_indices_def move_node_def Let_def)
  have "(case cd_data (nd_c_data (move_node g temp)) ! j of Mapped _ \<Rightarrow> True | Blk _ \<Rightarrow> False) \<and>
      j < length (cd_data (nd_c_data (move_node g temp)))" if "j \<in> set (version_indices temp)" for j
  proof -
    have "j < length (version_indices temp)" using that by (simp add: version_indices_def)
    then show ?thesis using data_mappedD [OF d that]
      by (auto simp: move_node_def Let_def nth_append move_ptr_def)
  qed
  then show ?thesis unfolding data_mapped_def v by (simp add: Let_def list_all_iff)
qed

lemma moved_file_shape:
  assumes shape: "file_shape g (g (mf_list f)) f chs"
  defines "f' \<equiv> moved_upto g (length chs) chs f"
  shows "file_shape (\<lambda>a. a) (mf_list f') f' (map (move_nodes g) chs)"
proof -
  let ?chs = "map (move_nodes g) chs"
  have concat: "concat ?chs = move_nodes g (concat chs)" by (simp add: move_nodes_def map_concat)
  have dist: "distinct (map fst (concat chs))" using shape by (simp add: file_shape_def)
  have nodes: "mf_nodes f' p = Some rn" if "(p, rn) \<in> set (concat ?chs)" for p rn
  proof -
    have "map_of (move_nodes g (concat chs)) p = Some rn"
      using that dist unfolding concat by (intro map_of_is_SomeI) simp_all
    then show ?thesis by (simp add: f'_def moved_upto_def put_nodes_def)
  qed
  have list: "mf_list f' = g (mf_list f)" and size: "mf_size f' = mf_size f"
    by (simp_all add: f'_def moved_upto_def put_nodes_def)
  have "\<exists>h. mf_cells f' (cell_addr (mf_list f') i) = Some h \<and> chain_shape (\<lambda>a. a) (mf_nodes f') h (?chs ! i)"
    if i: "i < length chs" for i
  proof -
    obtain h where h: "mf_cells f (cell_addr (mf_list f') i) = Some h" "chain_shape g (mf_nodes f) h (chs ! i)"
      using shape i unfolding file_shape_def list by blast
    have "mf_cells f' (cell_addr (mf_list f') i) = Some (if h = 0 then 0 else g h)"
      using h(1) i unfolding list by (auto simp: f'_def moved_upto_def put_nodes_def moved_cells_def)
    moreover have "chain_shape (\<lambda>a. a) (mf_nodes f') (if h = 0 then 0 else g h) (move_nodes g (chs ! i))"
      using h(2) take_Suc_disjoint(1) [OF dist i] nodes i
      by (intro chain_shape_moved) (auto intro!: nodes bexI [of _ "chs ! i"])
    ultimately show ?thesis using i by auto
  qed
  moreover have "\<forall>(p, rn) \<in> set (concat ?chs). data_mapped (rn_node rn)"
    using shape unfolding concat
    by (fastforce simp: file_shape_def move_nodes_def move_raw_def intro!: data_mapped_move)
  moreover have "distinct (map fst (concat ?chs))" using dist unfolding concat by simp
  ultimately show ?thesis using shape size by (simp add: file_shape_def)
qed

lemma reloc_file_holds:
  assumes "holds_log (reloc (mf_old_pool f) pop) f c"
  shows "\<exists>f'. reloc_file pop f = Some f' \<and> mf_old_pool f' = pop \<and>
    holds_log (\<lambda>a. a) f' (move_log (reloc (mf_old_pool f) pop) c)"
proof -
  let ?g = "reloc (mf_old_pool f) pop"
  obtain chs where shape: "file_shape ?g (?g (mf_list f)) f chs"
    and c: "c = \<lparr>cl_size = mf_size f, cl_variable_count = mf_variable_count f, cl_list = map (map (rn_node \<circ> snd)) chs\<rparr>"
    using assms by (auto simp: holds_log_def)
  let ?f = "moved_upto ?g (length chs) chs f"
  let ?f' = "?f\<lparr>mf_old_pool := pop\<rparr>"
  have "file_shape (\<lambda>a. a) (mf_list ?f') ?f' (map (move_nodes ?g) chs)"
    using moved_file_shape [OF shape] by (simp add: file_shape_def)
  moreover have "move_log ?g c = \<lparr>cl_size = mf_size ?f', cl_variable_count = mf_variable_count ?f',
      cl_list = map (map (rn_node \<circ> snd)) (map (move_nodes ?g) chs)\<rparr>"
    by (auto simp: c move_log_def moved_upto_def put_nodes_def move_nodes_def move_raw_def)
  ultimately have "holds_log (\<lambda>a. a) ?f' (move_log ?g c)" unfolding holds_log_def by blast
  then show ?thesis using reloc_file_moved [OF shape] by simp
qed

text \<open>Mapped where it was written, the file does not change.\<close>

lemma reloc_same: "reloc pop pop = (\<lambda>a. a)"
  by (simp add: reloc_def fun_eq_iff)

lemma move_node_same: "move_node (\<lambda>a. a) temp = temp"
proof -
  have "move_ptr (\<lambda>a. a) = (\<lambda>p. p)" by (auto simp: move_ptr_def fun_eq_iff split: ptr.splits)
  then show ?thesis by (simp add: move_node_def Let_def)
qed

lemma move_nodes_same: "move_nodes (\<lambda>a. a) ps = ps"
  by (auto simp: move_nodes_def move_raw_def move_node_same intro!: map_idI)

lemma chain_shape_nodes: "chain_shape g nodes a ps \<Longrightarrow> (p, rn) \<in> set ps \<Longrightarrow> nodes p = Some rn"
  by (induction g nodes a ps rule: chain_shape.induct) auto

lemma reloc_file_same:
  assumes "holds_log (\<lambda>a. a) f c" and "mf_old_pool f = pop"
  shows "reloc_file pop f = Some f"
proof -
  obtain chs where shape: "file_shape (\<lambda>a. a) (mf_list f) f chs" using assms by (auto simp: holds_log_def)
  have "map_of (concat chs) p = Some rn \<Longrightarrow> mf_nodes f p = Some rn" for p rn
    using shape chain_shape_nodes unfolding file_shape_def
    by (fastforce dest!: map_of_SomeD simp: in_set_conv_nth)
  then have "mf_nodes f ++ map_of (concat chs) = mf_nodes f"
    by (auto simp: map_add_def fun_eq_iff split: option.splits)
  moreover have "moved_cells (\<lambda>a. a) (mf_list f) n f = mf_cells f" for n
    by (auto simp: moved_cells_def fun_eq_iff option.map_ident intro: option.map_cong [of _ _ _ id, simplified])
  ultimately have "moved_upto (\<lambda>a. a) (length chs) chs f = f"
    by (simp add: moved_upto_def put_nodes_def move_nodes_same)
  then show ?thesis using reloc_file_moved [of f pop chs] shape assms(2) by (simp add: reloc_same)
qed


section \<open>Properties\<close>

text \<open>The file is mapped at \<open>pop\<close> by the function that the library name selects.\<close>

definition mapped_by ::
    "(string \<Rightarrow> string \<Rightarrow> (addr \<times> mapped_file) option) \<Rightarrow> (string \<Rightarrow> (addr \<times> mapped_file) option) \<Rightarrow>
     string \<Rightarrow> string \<Rightarrow> addr \<Rightarrow> mapped_file \<Rightarrow> bool" where
  "mapped_by pmemobj_open pmem_map_file path lib pop f \<longleftrightarrow>
     lib = ''libpmemobj2'' \<and> pmemobj_open path ''checkpoint'' = Some (pop, f) \<or>
     (lib = ''libpmem'' \<or> lib = ''libpmemobj'') \<and> pmem_map_file path = Some (pop, f)"

lemma reconstruct_checkpoint_mapped:
  "mapped_by op mp path lib pop f \<Longrightarrow> reconstruct_checkpoint op mp path lib = map_option Recon_log (reloc_file pop f)"
  by (auto simp: mapped_by_def reconstruct_checkpoint_def)

text \<open>A file with one node, written at address 4096 and mapped at address 20480.\<close>

definition sample_file :: mapped_file where
  "sample_file =
     \<lparr>mf_old_pool = 4096, mf_list = 4160, mf_size = 1, mf_variable_count = 1,
      mf_cells = [20544 \<mapsto> 4224],
      mf_nodes = [20608 \<mapsto> \<lparr>rn_node = (hd (concat (cl_list sample_clog)))
        \<lparr>nd_c_data := (nd_c_data (hd (concat (cl_list sample_clog))))\<lparr>cd_data := [Mapped 4352, Mapped 4360, Blk 0]\<rparr>\<rparr>,
        rn_next = 0\<rparr>]\<rparr>"

definition sample_node :: "node" where
  "sample_node = rn_node (the (mf_nodes sample_file 20608))"

lemma sample_file_holds:
  "holds_log (reloc (mf_old_pool sample_file) 20480) sample_file
     \<lparr>cl_size = 1, cl_variable_count = 1, cl_list = [[sample_node]]\<rparr>"
proof -
  have "data_mapped sample_node"
    by (simp add: sample_node_def sample_file_def sample_clog_def data_mapped_def version_indices_def Let_def upto_small)
  then have "file_shape (reloc (mf_old_pool sample_file) 20480) (reloc (mf_old_pool sample_file) 20480 (mf_list sample_file))
      sample_file [[(20608, the (mf_nodes sample_file 20608))]]"
    unfolding sample_node_def by (simp add: sample_file_def file_shape_def reloc_def cell_addr_def)
  then show ?thesis
    unfolding holds_log_def
    by (intro exI [of _ "[[(20608, the (mf_nodes sample_file 20608))]]"]) (simp add: sample_node_def sample_file_def)
qed

text \<open>
  C11: When the checkpoint file holds a checkpoint log, all of whose stored pointers are relative to the address the
  file was written at, \<open>reconstruct_checkpoint\<close> returns for either way of mapping the file, and the file then
  holds the same log with every pointer of it valid at the new address, which it records for the next time.
\<close>

theorem reconstruct_checkpoint_moves_log:
  assumes "mapped_by op mp path lib pop f" and "holds_log (reloc (mf_old_pool f) pop) f c"
  shows "\<exists>f'. reconstruct_checkpoint op mp path lib = Some (Recon_log f') \<and> mf_old_pool f' = pop \<and>
    holds_log (\<lambda>a. a) f' (move_log (reloc (mf_old_pool f) pop) c)"
  using reloc_file_holds [OF assms(2)] reconstruct_checkpoint_mapped [OF assms(1)] by auto

theorem reconstruct_checkpoint_moves_log_witness:
  "\<exists>f'. reconstruct_checkpoint (\<lambda>_ _. Some (20480, sample_file)) (\<lambda>_. None) ''ckpt'' ''libpmemobj2'' = Some (Recon_log f') \<and>
    mf_old_pool f' = 20480 \<and>
    holds_log (\<lambda>a. a) f' (move_log (reloc 4096 20480) \<lparr>cl_size = 1, cl_variable_count = 1, cl_list = [[sample_node]]\<rparr>)"
  using reconstruct_checkpoint_moves_log [OF _ sample_file_holds,
      of "\<lambda>_ _. Some (20480, sample_file)" "\<lambda>_. None" "''ckpt''" "''libpmemobj2''"]
  by (simp add: mapped_by_def sample_file_def)

text \<open>
  Reconstruction is idempotent: mapping the file a second time at the address it was moved to, by
  whichever library, changes nothing in it.
\<close>

theorem reconstruct_checkpoint_again:
  assumes "mapped_by op mp path lib pop f" and "holds_log (reloc (mf_old_pool f) pop) f c"
    and "reconstruct_checkpoint op mp path lib = Some (Recon_log f')"
    and "mapped_by op' mp' path' lib' pop f'"
  shows "reconstruct_checkpoint op' mp' path' lib' = Some (Recon_log f')"
proof -
  have "reloc_file pop f = Some f'" using assms(3) reconstruct_checkpoint_mapped [OF assms(1)] by auto
  then have "mf_old_pool f' = pop" "holds_log (\<lambda>a. a) f' (move_log (reloc (mf_old_pool f) pop) c)"
    using reloc_file_holds [OF assms(2)] by auto
  then show ?thesis using reloc_file_same reconstruct_checkpoint_mapped [OF assms(4)] by simp
qed

theorem reconstruct_checkpoint_again_witness:
  "\<exists>f'. reconstruct_checkpoint (\<lambda>_ _. Some (20480, sample_file)) (\<lambda>_. None) ''ckpt'' ''libpmemobj2'' = Some (Recon_log f') \<and>
    reconstruct_checkpoint (\<lambda>_ _. None) (\<lambda>_. Some (20480, f')) ''ckpt'' ''libpmem'' = Some (Recon_log f')"
proof -
  have m: "mapped_by (\<lambda>_ _. Some (20480, sample_file)) (\<lambda>_. None) ''ckpt'' ''libpmemobj2'' 20480 sample_file"
    by (simp add: mapped_by_def)
  obtain f' where f': "reconstruct_checkpoint (\<lambda>_ _. Some (20480, sample_file)) (\<lambda>_. None) ''ckpt'' ''libpmemobj2''
      = Some (Recon_log f')"
    using reconstruct_checkpoint_mapped [OF m] reloc_file_holds [OF sample_file_holds] by auto
  have "mapped_by (\<lambda>_ _. None) (\<lambda>_. Some (20480, f')) ''ckpt'' ''libpmem'' 20480 f'" by (simp add: mapped_by_def)
  from reconstruct_checkpoint_again [OF m sample_file_holds f' this] show ?thesis using f' by blast
qed

end
