(* ===== verification/Detector.thy ===== *)
theory Detector
  imports StringUtils
begin

text \<open>
  The detector (\<open>detector/Detector.cpp\<close>): it runs a program under the debugger, takes the location of a crash from the first frame of a stack trace, and
  compares the traces of two runs to tell whether a fault is a hard one. The lemmas show which location is taken, and that the comparison gives the
  same answer whatever the traces are.
\<close>

section \<open>Lines of a stack trace\<close>

text \<open>\<open>line[0] == '#'\<close>; the first character of an empty string is the null character.\<close>

definition is_frame :: "string \<Rightarrow> bool" where
  "is_frame line \<longleftrightarrow> (case line of [] \<Rightarrow> False | c # _ \<Rightarrow> c = CHR ''#'')"

text \<open>What follows the last space, or the whole line.\<close>

definition last_word :: "string \<Rightarrow> string" where
  "last_word line = (case rfind_char (CHR '' '') line of None \<Rightarrow> line | Some i \<Rightarrow> drop (Suc i) line)"

definition has_colon :: "string \<Rightarrow> bool" where
  "has_colon s \<longleftrightarrow> find_char (CHR '':'') s \<noteq> None"

text \<open>The parts before and after the first colon.\<close>

definition split_location :: "string \<Rightarrow> string \<times> string" where
  "split_location combined = (case find_char (CHR '':'') combined of
     None \<Rightarrow> (combined, combined) | Some i \<Rightarrow> (take i combined, drop (Suc i) combined))"

section \<open>Commands\<close>

definition run_command :: "string \<Rightarrow> string" where
  "run_command line_command = ''gdb --args '' @ line_command"

text \<open>\<open>analyze\<close>: a frame may go on over several lines.\<close>

fun analyze :: "bool \<Rightarrow> string list \<Rightarrow> (string \<times> string) option" where
  "analyze next_line [] = None"
| "analyze next_line (line # ls) =
     (if is_frame line \<or> next_line then
        (let combined = last_word line in if has_colon combined then Some (split_location combined) else analyze True ls)
      else analyze next_line ls)"

text \<open>\<open>std::map::insert\<close> keeps the first value of a key.\<close>

definition map_insert :: "string \<times> string \<Rightarrow> (string \<times> string) list \<Rightarrow> (string \<times> string) list" where
  "map_insert kv m = (if map_of m (fst kv) \<noteq> None then m else m @ [kv])"

text \<open>The locations of the frames of a trace; in the second trace only the first line of a frame is looked at.\<close>

fun frame_locations :: "bool \<Rightarrow> bool \<Rightarrow> string list \<Rightarrow> (string \<times> string) list \<Rightarrow> (string \<times> string) list" where
  "frame_locations continued next_line [] m = m"
| "frame_locations continued next_line (line # ls) m =
     (if is_frame line \<or> (continued \<and> next_line) then
        (let combined = last_word line in if has_colon combined then frame_locations continued False ls (map_insert (split_location combined) m)
         else frame_locations continued True ls m)
      else frame_locations continued next_line ls m)"

text \<open>The comparison of two traces, line by line as long as both have one; both locations are taken from the second line.\<close>

fun compare_traces :: "bool \<Rightarrow> bool \<Rightarrow> string list \<Rightarrow> string list \<Rightarrow> bool" where
  "compare_traces next_line hard_fault (line # ls) (line2 # ls2) =
     (if (is_frame line \<and> is_frame line2) \<or> next_line then
        (let combined = last_word line2; combined2 = last_word line2
         in if has_colon combined \<and> has_colon combined2 then compare_traces False (if combined \<noteq> combined2 then False else hard_fault) ls ls2
            else compare_traces True hard_fault ls ls2)
      else compare_traces next_line hard_fault ls ls2)"
| "compare_traces next_line hard_fault _ _ = hard_fault"

datatype detector_output =
    Runs string
  | Location "(string \<times> string) option"
  | Faults "(string \<times> string) list" "(string \<times> string) list" "bool option"
  | Usage

text \<open>
  The commands. The files are given by their lines, if they can be opened; without an argument the null pointer is compared.
\<close>

definition detector_main :: "string option \<Rightarrow> string \<Rightarrow> string list option \<Rightarrow> string list option \<Rightarrow> detector_output option" where
  "detector_main argv1 line_command myfile myfile2 = (case argv1 of None \<Rightarrow> None
   | Some cmd \<Rightarrow>
     if cmd = ''run'' then Some (Runs (run_command line_command))
     else if cmd = ''analyze'' then Some (Location (case myfile of None \<Rightarrow> None | Some ls \<Rightarrow> analyze False ls))
     else if cmd = ''fault'' then Some (Faults
       (case myfile of None \<Rightarrow> [] | Some ls \<Rightarrow> frame_locations True False ls [])
       (case myfile2 of None \<Rightarrow> [] | Some ls \<Rightarrow> frame_locations False False ls [])
       (case (myfile, myfile2) of (Some ls, Some ls2) \<Rightarrow> Some (compare_traces False True ls ls2) | _ \<Rightarrow> None))
     else Some Usage)"

section \<open>Lemmas\<close>

lemma find_char_not_in: "find_char c s = None \<longleftrightarrow> c \<notin> set s"
  by (rule find_char_None)

lemma last_word_append: "CHR '' '' \<notin> set w \<Longrightarrow> last_word (p @ CHR '' '' # w) = w"
proof -
  assume w: "CHR '' '' \<notin> set w"
  have "find_char (CHR '' '') (rev w @ CHR '' '' # rev p) = Some (length w)"
  proof -
    have "find_char c (xs @ c # ys) = Some (length xs)" if "c \<notin> set xs" for c :: char and xs ys using that by (induction xs) auto
    from this [of "CHR '' ''" "rev w"] show ?thesis using w by simp
  qed
  then show ?thesis by (simp add: last_word_def rfind_char_def)
qed

lemma split_location_colon: "CHR '':'' \<notin> set f \<Longrightarrow> split_location (f @ CHR '':'' # n) = (f, n)"
proof -
  assume "CHR '':'' \<notin> set f"
  then have "find_char (CHR '':'') (f @ CHR '':'' # n) = Some (length f)" by (induction f) auto
  then show ?thesis by (simp add: split_location_def)
qed

lemma has_colon_iff: "has_colon s \<longleftrightarrow> CHR '':'' \<in> set s"
  by (simp add: has_colon_def find_char_not_in)

lemma analyze_skips: "\<forall>l \<in> set pre. \<not> is_frame l \<Longrightarrow> analyze False (pre @ ls) = analyze False ls"
  by (induction pre) auto

lemma analyze_continues: "\<forall>l \<in> set mid. \<not> has_colon (last_word l) \<Longrightarrow> analyze True (mid @ ls) = analyze True ls"
  by (induction mid) (auto simp: Let_def)

lemma compare_traces_constant: "compare_traces nl hard ls ls2 = hard"
  by (induction nl hard ls ls2 rule: compare_traces.induct) (auto simp: Let_def)

section \<open>Properties\<close>

text \<open>
  The location of a crash is the one of the first frame. In a trace with lines before the first frame, and a first frame that goes on
  over lines whose last words have no colon up to a line that ends in \<open>file:number\<close>, it is this file and number.
\<close>

theorem analyze_first_frame:
  assumes "\<forall>l \<in> set pre. \<not> is_frame l" and "is_frame (hd (frame @ [p @ CHR '' '' # f @ CHR '':'' # n]))"
    and "\<forall>l \<in> set frame. \<not> has_colon (last_word l)" and "CHR '' '' \<notin> set f \<union> set n" and "CHR '':'' \<notin> set f"
  shows "analyze False (pre @ frame @ [p @ CHR '' '' # f @ CHR '':'' # n] @ rest) = Some (f, n)"
proof -
  let ?l = "p @ CHR '' '' # f @ CHR '':'' # n"
  have w: "last_word ?l = f @ CHR '':'' # n" by (rule last_word_append) (use assms(4) in auto)
  have l: "is_frame ?l \<or> b \<Longrightarrow> analyze b (?l # rest) = Some (f, n)" for b
    using assms(5) by (simp add: w has_colon_iff split_location_colon Let_def)
  have "analyze False (frame @ [?l] @ rest) = Some (f, n)"
  proof (cases frame)
    case Nil
    then show ?thesis using assms(2) l by simp
  next
    case (Cons x xs)
    then have "analyze False (frame @ [?l] @ rest) = analyze True (xs @ ?l # rest)" using assms(2,3) by (simp add: Let_def)
    also have "\<dots> = Some (f, n)" using assms(3) Cons l by (simp add: analyze_continues del: analyze.simps)
    finally show ?thesis .
  qed
  then show ?thesis using analyze_skips [OF assms(1)] by simp
qed

text \<open>
  C34: the comparison of two traces cannot find a difference: whatever the two files hold, the answer is a hard fault, since both of the
  locations that are compared come from the second file.
\<close>

theorem always_hard_fault:
  "detector_main (Some ''fault'') cmd (Some trace1) (Some trace2) =
     Some (Faults (frame_locations True False trace1 []) (frame_locations False False trace2 []) (Some True))"
  by (simp add: detector_main_def compare_traces_constant)

theorem analyze_first_frame_witness:
  "analyze False [''Program received signal SIGSEGV, Segmentation fault.'', ''#0  0x000000000040 in assoc_find (key=0x7f, nkey=5)'',
     ''    at assoc.c:92'', ''#1  0x00 in do_item_get () at items.c:1000''] = Some (''assoc.c'', ''92'')"
proof -
  have "analyze False ([''Program received signal SIGSEGV, Segmentation fault.''] @ [''#0  0x000000000040 in assoc_find (key=0x7f, nkey=5)''] @
      [''    at'' @ CHR '' '' # ''assoc.c'' @ CHR '':'' # ''92''] @ [''#1  0x00 in do_item_get () at items.c:1000'']) = Some (''assoc.c'', ''92'')"
    by (rule analyze_first_frame) (simp_all add: is_frame_def has_colon_def last_word_def rfind_char_def)
  then show ?thesis by simp
qed

end
