(* ===== verification/UserGraph.thy ===== *)
theory UserGraph
  imports Arthas_Prelude
begin

text \<open>
  The values of a module as the analyzer sees them, and the user graph of a value (\<open>UserGraph\<close> in \<open>analyzer/include/DefUse/DefUse.h\<close>): its
  transitive users, found by depth-first or breadth-first search, where a store leads to the memory it writes to. The lemmas show
  that both searches return, that they find exactly the transitive users, and that the breadth-first search gives them in the order of their
  distances, up to the bound on the depth.
\<close>

section \<open>Values\<close>

text \<open>The part of LLVM's values that the code looks at; values are numbers, operands and users are given by their numbers.\<close>

datatype opcode =
    Alloca
  | Load nat
  | Store nat nat
  | GetElementPtr nat
  | Call "nat option" "nat list"
  | Invoke "nat option" "nat list"
  | OtherInst

record ir_value =
  iv_inst :: "opcode option"
  iv_name :: string
  iv_users :: "nat list"

type_synonym ir = "nat \<Rightarrow> ir_value"

definition is_inst :: "ir \<Rightarrow> nat \<Rightarrow> bool" where
  "is_inst ir v \<longleftrightarrow> iv_inst (ir v) \<noteq> None"

definition is_alloca :: "ir \<Rightarrow> nat \<Rightarrow> bool" where
  "is_alloca ir v \<longleftrightarrow> iv_inst (ir v) = Some Alloca"

section \<open>The walks\<close>

datatype walk_type = BFS | DFS

text \<open>What a user leads to: a store has no users, so that its target takes its place if it is an instruction.\<close>

definition user_target :: "ir \<Rightarrow> nat \<Rightarrow> nat option" where
  "user_target ir u = (case iv_inst (ir u) of
     None \<Rightarrow> None
   | Some (Store v p) \<Rightarrow> (if is_inst ir p then Some p else None)
   | Some _ \<Rightarrow> Some u)"

text \<open>\<open>processUser\<close>: the values pushed, in order, and the set of visited values.\<close>

fun process_users :: "ir \<Rightarrow> nat list \<Rightarrow> nat list \<Rightarrow> nat list \<times> nat list" where
  "process_users ir [] visited = ([], visited)"
| "process_users ir (u # us) visited = (case user_target ir u of
     None \<Rightarrow> process_users ir us visited
   | Some t \<Rightarrow> if t \<in> set visited then process_users ir us visited
       else (let (pushed, visited') = process_users ir us (t # visited) in (t # pushed, visited')))"

definition list_user :: "ir \<Rightarrow> nat \<Rightarrow> nat \<Rightarrow> int \<Rightarrow> (nat \<times> int) list \<Rightarrow> (nat \<times> int) list" where
  "list_user ir root elem level users = (if elem \<noteq> root \<and> \<not> is_alloca ir elem then users @ [(elem, level)] else users)"

partial_function (option) dfs_loop :: "ir \<Rightarrow> nat \<Rightarrow> nat list \<Rightarrow> nat list \<Rightarrow> (nat \<times> int) list \<Rightarrow> (nat \<times> int) list option" where
  "dfs_loop ir root stack visited users = (case stack of [] \<Rightarrow> Some users
    | elem # rest \<Rightarrow> (let (pushed, visited') = process_users ir (iv_users (ir elem)) visited
        in dfs_loop ir root (rev pushed @ rest) visited' (list_user ir root elem 1 users)))"

text \<open>The queue holds \<^term>\<open>None\<close> at the end of a level; a positive depth bounds the levels.\<close>

partial_function (option) bfs_loop ::
    "ir \<Rightarrow> nat \<Rightarrow> int \<Rightarrow> nat option list \<Rightarrow> int \<Rightarrow> nat list \<Rightarrow> (nat \<times> int) list \<Rightarrow> (nat \<times> int) list option" where
  "bfs_loop ir root maxDepth queue level visited users = (case queue of [] \<Rightarrow> Some users
    | head # rest \<Rightarrow>
       (let (rest1, visited1, users1) = (case head of None \<Rightarrow> (rest, visited, users)
            | Some elem \<Rightarrow> (let (pushed, visited') = process_users ir (iv_users (ir elem)) visited
                in (rest @ map Some pushed, visited', list_user ir root elem level users)))
        in case rest1 of [] \<Rightarrow> Some users1
          | Some _ # _ \<Rightarrow> bfs_loop ir root maxDepth rest1 level visited1 users1
          | None # rest2 \<Rightarrow> if maxDepth > 0 \<and> level + 1 > maxDepth then Some users1
              else bfs_loop ir root maxDepth (if rest2 = [] then [] else rest2 @ [None]) (level + 1) visited1 users1))"

declare dfs_loop.simps [code] bfs_loop.simps [code]

definition user_graph :: "ir \<Rightarrow> nat \<Rightarrow> walk_type \<Rightarrow> int \<Rightarrow> (nat \<times> int) list option" where
  "user_graph ir v t depth = (case t of
     DFS \<Rightarrow> dfs_loop ir v [v] [v] []
   | BFS \<Rightarrow> bfs_loop ir v depth [Some v, None] 0 [v] [])"

section \<open>Transitive users\<close>

definition user_steps :: "ir \<Rightarrow> (nat \<times> nat) set" where
  "user_steps ir = {(v, t). \<exists>u \<in> set (iv_users (ir v)). user_target ir u = Some t}"

definition user_reach :: "ir \<Rightarrow> nat \<Rightarrow> nat set" where
  "user_reach ir v = (user_steps ir)\<^sup>* `` {v}"

definition users_of :: "ir \<Rightarrow> nat \<Rightarrow> nat set" where
  "users_of ir v = {u \<in> user_reach ir v. u \<noteq> v \<and> \<not> is_alloca ir u}"

lemma user_reach_root [simp]: "v \<in> user_reach ir v"
  by (simp add: user_reach_def)

lemma user_reach_step: "u \<in> user_reach ir v \<Longrightarrow> (u, t) \<in> user_steps ir \<Longrightarrow> t \<in> user_reach ir v"
  by (auto simp: user_reach_def intro: rtrancl.rtrancl_into_rtrancl)

lemma user_target_inst: "user_target ir u = Some t \<Longrightarrow> is_inst ir t"
  by (auto simp: user_target_def is_inst_def split: option.splits opcode.splits if_splits)

lemma users_of_inst: "u \<in> users_of ir v \<Longrightarrow> is_inst ir u"
proof -
  assume u: "u \<in> users_of ir v"
  then have "(v, u) \<in> (user_steps ir)\<^sup>*" "u \<noteq> v" by (simp_all add: users_of_def user_reach_def)
  then obtain w where "(w, u) \<in> user_steps ir" by (metis rtranclE)
  then show ?thesis by (auto simp: user_steps_def intro: user_target_inst)
qed

lemma process_users_spec:
  assumes "process_users ir us visited = (pushed, visited')"
  shows "visited' = rev pushed @ visited \<and> distinct pushed \<and> set pushed = {t. \<exists>u \<in> set us. user_target ir u = Some t} - set visited"
  using assms
proof (induction ir us visited arbitrary: pushed visited' rule: process_users.induct)
  case (2 ir u us visited)
  show ?case
  proof (cases "user_target ir u")
    case None
    then show ?thesis using 2(1) [OF None, of pushed visited'] 2(4) by auto
  next
    case (Some t)
    show ?thesis
    proof (cases "t \<in> set visited")
      case True
      then show ?thesis using 2(2) [OF Some True, of pushed visited'] 2(4) Some by auto
    next
      case False
      obtain p' v' where p': "process_users ir us (t # visited) = (p', v')" by fastforce
      then have "pushed = t # p'" "visited' = v'" using 2(4) Some False by auto
      then show ?thesis using 2(3) [OF Some False, of p' v'] p' Some False by auto
    qed
  qed
qed simp

lemma pushed_steps:
  assumes "process_users ir (iv_users (ir v)) visited = (pushed, visited')"
  shows "visited' = rev pushed @ visited" and "distinct pushed" and "set pushed = user_steps ir `` {v} - set visited"
  using process_users_spec [OF assms] by (auto simp: user_steps_def)

section \<open>Depth first\<close>

definition dfs_inv :: "ir \<Rightarrow> nat \<Rightarrow> nat list \<Rightarrow> nat list \<Rightarrow> (nat \<times> int) list \<Rightarrow> bool" where
  "dfs_inv ir root stack visited users \<longleftrightarrow> root \<in> set visited \<and> set visited \<subseteq> user_reach ir root \<and> set stack \<subseteq> set visited \<and> distinct stack \<and>
     user_steps ir `` (set visited - set stack) \<subseteq> set visited \<and>
     set users = {(u, 1) |u. u \<in> set visited - set stack \<and> u \<noteq> root \<and> \<not> is_alloca ir u} \<and> distinct (map fst users)"

lemma visited_card:
  assumes "finite (user_reach ir root)" and "set pushed \<subseteq> user_reach ir root" and "set pushed \<inter> set visited = {}" and "distinct pushed"
  shows "length pushed + card (user_reach ir root - set (rev pushed @ visited)) = card (user_reach ir root - set visited)"
proof -
  have "user_reach ir root - set visited = set pushed \<union> (user_reach ir root - set (rev pushed @ visited))" using assms(2,3) by auto
  moreover have "set pushed \<inter> (user_reach ir root - set (rev pushed @ visited)) = {}" by auto
  ultimately show ?thesis using assms(1,4) by (simp add: card_Un_disjoint distinct_card)
qed

lemma dfs_round_inv:
  assumes inv: "dfs_inv ir root (v # rest) visited users" and p: "process_users ir (iv_users (ir v)) visited = (pushed, visited')"
  shows "dfs_inv ir root (rev pushed @ rest) visited' (list_user ir root v 1 users)"
proof -
  note P = pushed_steps [OF p]
  have vr: "v \<in> user_reach ir root" "v \<in> set visited" "v \<notin> set rest" using inv by (auto simp: dfs_inv_def)
  have reach: "set pushed \<subseteq> user_reach ir root" using P(3) user_reach_step [OF vr(1)] by auto
  have left: "set visited' - set (rev pushed @ rest) = insert v (set visited - set (v # rest))"
    using P(1,3) vr(2,3) by auto
  have "user_steps ir `` {v} \<subseteq> set visited'" using P(1,3) by auto
  moreover have "user_steps ir `` insert v (set visited - set (v # rest)) = user_steps ir `` {v} \<union> user_steps ir `` (set visited - set (v # rest))"
    by auto
  ultimately have closed: "user_steps ir `` insert v (set visited - set (v # rest)) \<subseteq> set visited'"
    using inv P(1) unfolding dfs_inv_def by auto
  have users: "set (list_user ir root v 1 users) = {(u, 1) |u. u \<in> insert v (set visited - set (v # rest)) \<and> u \<noteq> root \<and> \<not> is_alloca ir u}"
    using inv unfolding dfs_inv_def list_user_def by auto
  have "v \<notin> fst ` set users" using inv by (auto simp: dfs_inv_def)
  then have "distinct (map fst (list_user ir root v 1 users))" using inv by (simp add: dfs_inv_def list_user_def)
  then show ?thesis
    unfolding dfs_inv_def left using inv P(1,2,3) reach closed users by (auto simp: dfs_inv_def)
qed

lemma dfs_loop_returns:
  assumes fin: "finite (user_reach ir root)" and "dfs_inv ir root stack visited users"
  shows "\<exists>us vis. dfs_loop ir root stack visited users = Some us \<and> dfs_inv ir root [] vis us"
  using assms(2)
proof (induction "length stack + card (user_reach ir root - set visited)" arbitrary: stack visited users rule: less_induct)
  case less
  show ?case
  proof (cases stack)
    case Nil
    then show ?thesis using less.prems by (subst dfs_loop.simps) auto
  next
    case (Cons v rest)
    obtain pushed visited' where p: "process_users ir (iv_users (ir v)) visited = (pushed, visited')" by fastforce
    note P = pushed_steps [OF p]
    have "v \<in> user_reach ir root" using less.prems Cons by (auto simp: dfs_inv_def)
    then have "set pushed \<subseteq> user_reach ir root" using P(3) user_reach_step by blast
    then have "length pushed + card (user_reach ir root - set visited') = card (user_reach ir root - set visited)"
      using visited_card [OF fin, of pushed visited] P by auto
    then have "length (rev pushed @ rest) + card (user_reach ir root - set visited') < length stack + card (user_reach ir root - set visited)"
      using Cons by simp
    from less.hyps [OF this] dfs_round_inv [OF less.prems [unfolded Cons] p]
    have "\<exists>us vis. dfs_loop ir root (rev pushed @ rest) visited' (list_user ir root v 1 users) = Some us \<and> dfs_inv ir root [] vis us" by blast
    then show ?thesis using p Cons by (subst dfs_loop.simps) simp
  qed
qed

lemma closed_reach:
  assumes "root \<in> V" and "user_steps ir `` V \<subseteq> V"
  shows "user_reach ir root \<subseteq> V"
proof
  fix u assume "u \<in> user_reach ir root"
  then have "(root, u) \<in> (user_steps ir)\<^sup>*" by (simp add: user_reach_def)
  then show "u \<in> V" by (induction rule: rtrancl_induct) (use assms in auto)
qed

lemma dfs_finds_users:
  assumes "finite (user_reach ir v)"
  shows "\<exists>us. user_graph ir v DFS depth = Some us \<and> set us = {(u, 1) |u. u \<in> users_of ir v} \<and> distinct (map fst us)"
proof -
  have "dfs_inv ir v [v] [v] []" by (simp add: dfs_inv_def)
  from dfs_loop_returns [OF assms this] obtain us vis where us: "user_graph ir v DFS depth = Some us" "dfs_inv ir v [] vis us"
    by (auto simp: user_graph_def)
  have "user_reach ir v \<subseteq> set vis" by (rule closed_reach) (use us(2) in \<open>auto simp: dfs_inv_def\<close>)
  then have "set vis = user_reach ir v" using us(2) by (auto simp: dfs_inv_def)
  then show ?thesis using us by (auto simp: dfs_inv_def users_of_def)
qed

section \<open>Breadth first\<close>

text \<open>The values at distance \<open>n\<close>.\<close>

definition at_distance :: "ir \<Rightarrow> nat \<Rightarrow> nat \<Rightarrow> nat set" where
  "at_distance ir v n = {u. (v, u) \<in> user_steps ir ^^ n \<and> (\<forall>k < n. (v, u) \<notin> user_steps ir ^^ k)}"

definition within :: "ir \<Rightarrow> nat \<Rightarrow> nat \<Rightarrow> nat set" where
  "within ir v n = {u. \<exists>k \<le> n. (v, u) \<in> user_steps ir ^^ k}"

lemma at_distance_0 [simp]: "at_distance ir v 0 = {v}"
  by (auto simp: at_distance_def)

lemma within_0 [simp]: "within ir v 0 = {v}"
  by (auto simp: within_def)

lemma within_Suc: "within ir v (Suc n) = within ir v n \<union> user_steps ir `` within ir v n"
proof
  show "within ir v (Suc n) \<subseteq> within ir v n \<union> user_steps ir `` within ir v n"
  proof
    fix u assume "u \<in> within ir v (Suc n)"
    then obtain k where k: "k \<le> Suc n" "(v, u) \<in> user_steps ir ^^ k" by (auto simp: within_def)
    show "u \<in> within ir v n \<union> user_steps ir `` within ir v n"
    proof (cases k)
      case (Suc j)
      then obtain w where "(v, w) \<in> user_steps ir ^^ j" "(w, u) \<in> user_steps ir" using k(2) by auto
      then show ?thesis using k(1) Suc by (auto simp: within_def)
    qed (use k in \<open>auto simp: within_def\<close>)
  qed
  have "u \<in> within ir v (Suc n)" if w: "w \<in> within ir v n" and step: "(w, u) \<in> user_steps ir" for u w
  proof -
    obtain k where "k \<le> n" "(v, w) \<in> user_steps ir ^^ k" using w by (auto simp: within_def)
    then have "(v, u) \<in> user_steps ir ^^ Suc k" using step by auto
    then show ?thesis using \<open>k \<le> n\<close> unfolding within_def by (metis (mono_tags, lifting) Suc_le_mono mem_Collect_eq)
  qed
  then show "within ir v n \<union> user_steps ir `` within ir v n \<subseteq> within ir v (Suc n)"
    by (auto simp: within_def intro: le_SucI)
qed

lemma at_distance_Suc: "at_distance ir v (Suc n) = user_steps ir `` at_distance ir v n - within ir v n"
proof
  show "at_distance ir v (Suc n) \<subseteq> user_steps ir `` at_distance ir v n - within ir v n"
  proof
    fix u assume u: "u \<in> at_distance ir v (Suc n)"
    then obtain w where w: "(v, w) \<in> user_steps ir ^^ n" "(w, u) \<in> user_steps ir" by (auto simp: at_distance_def)
    have "(v, w) \<notin> user_steps ir ^^ k" if "k < n" for k
    proof
      assume "(v, w) \<in> user_steps ir ^^ k"
      then have "(v, u) \<in> user_steps ir ^^ Suc k" using w(2) by auto
      then show False using u that unfolding at_distance_def by (metis (mono_tags, lifting) Suc_less_eq mem_Collect_eq)
    qed
    then show "u \<in> user_steps ir `` at_distance ir v n - within ir v n"
      using u w by (auto simp: at_distance_def within_def le_imp_less_Suc)
  qed
  show "user_steps ir `` at_distance ir v n - within ir v n \<subseteq> at_distance ir v (Suc n)"
    by (auto simp: at_distance_def within_def less_Suc_eq_le)
qed

lemma within_mono: "m \<le> n \<Longrightarrow> within ir v m \<subseteq> within ir v n"
proof
  fix u assume mn: "m \<le> n" and "u \<in> within ir v m"
  then obtain k where "k \<le> m" "(v, u) \<in> user_steps ir ^^ k" by (auto simp: within_def)
  moreover have "k \<le> n" using mn \<open>k \<le> m\<close> by simp
  ultimately show "u \<in> within ir v n" unfolding within_def by blast
qed

lemma distance_within: "at_distance ir v n \<subseteq> within ir v n"
  by (auto simp: within_def at_distance_def)

lemma within_Suc_distance: "within ir v (Suc n) = within ir v n \<union> at_distance ir v (Suc n)"
proof -
  have "u \<in> at_distance ir v (Suc n)" if u: "u \<in> within ir v (Suc n)" "u \<notin> within ir v n" for u
  proof -
    obtain k where k: "k \<le> Suc n" "(v, u) \<in> user_steps ir ^^ k" using u(1) by (auto simp: within_def)
    have "\<not> k \<le> n" using u(2) k(2) by (auto simp: within_def)
    then have "k = Suc n" using k(1) by simp
    then show ?thesis using k(2) u(2) by (auto simp: within_def at_distance_def less_Suc_eq_le)
  qed
  moreover have "within ir v n \<subseteq> within ir v (Suc n)" by (rule within_mono) simp
  ultimately show ?thesis using distance_within [of ir v "Suc n"] by blast
qed

lemma within_reach: "within ir v n \<subseteq> user_reach ir v"
  by (auto simp: within_def user_reach_def dest: relpow_imp_rtrancl)

lemma distance_unique:
  assumes "u \<in> at_distance ir v m" and "u \<in> at_distance ir v n"
  shows "m = n"
proof (rule linorder_cases [of m n])
  assume "m < n"
  then show ?thesis using assms by (auto simp: at_distance_def)
next
  assume "n < m"
  then show ?thesis using assms by (auto simp: at_distance_def)
qed

lemma reach_distance: "u \<in> user_reach ir v \<Longrightarrow> \<exists>n. u \<in> at_distance ir v n"
proof -
  assume "u \<in> user_reach ir v"
  then obtain n where "(v, u) \<in> user_steps ir ^^ n" by (auto simp: user_reach_def dest: rtrancl_imp_relpow)
  then have "u \<in> at_distance ir v (LEAST n. (v, u) \<in> user_steps ir ^^ n)"
    unfolding at_distance_def by (auto intro: LeastI dest: not_less_Least)
  then show ?thesis by blast
qed

lemma distance_empty:
  assumes "at_distance ir v (Suc n) = {}"
  shows "at_distance ir v (Suc (n + k)) = {}"
proof (induction k)
  case (Suc k)
  then show ?case using at_distance_Suc [of ir v "Suc (n + k)"] by simp
qed (use assms in simp)

text \<open>Within level \<open>l\<close>, with \<open>cur\<close> left to process and \<open>nxt\<close> found for the next level.\<close>

definition listed :: "ir \<Rightarrow> nat \<Rightarrow> nat \<Rightarrow> nat list \<Rightarrow> (nat \<times> int) set" where
  "listed ir root l cur = {(u, int k) |u k. u \<in> at_distance ir root k \<and> k > 0 \<and> \<not> is_alloca ir u \<and> (k < l \<or> k = l \<and> u \<notin> set cur)}"

definition bfs_inv :: "ir \<Rightarrow> nat \<Rightarrow> nat list \<Rightarrow> nat list \<Rightarrow> nat \<Rightarrow> nat list \<Rightarrow> (nat \<times> int) list \<Rightarrow> bool" where
  "bfs_inv ir root cur nxt l visited users \<longleftrightarrow>
     set visited = within ir root l \<union> set nxt \<and> set cur \<subseteq> at_distance ir root l \<and> distinct cur \<and> distinct nxt \<and>
     set nxt = user_steps ir `` (at_distance ir root l - set cur) - within ir root l \<and>
     set users = listed ir root l cur \<and> distinct (map fst users) \<and> sorted (map snd users)"

lemma listed_level: "(u, k) \<in> listed ir root l cur \<Longrightarrow> k \<le> int l"
  by (auto simp: listed_def)

lemma bfs_round_inv:
  assumes inv: "bfs_inv ir root (v # cur) nxt l visited users" and p: "process_users ir (iv_users (ir v)) visited = (pushed, visited')"
  shows "bfs_inv ir root cur (nxt @ pushed) l visited' (list_user ir root v (int l) users)"
proof -
  note P = pushed_steps [OF p]
  have I: "set visited = within ir root l \<union> set nxt" "v \<in> at_distance ir root l" "v \<notin> set cur" "set cur \<subseteq> at_distance ir root l" "distinct cur"
    "distinct nxt" "set nxt = user_steps ir `` (at_distance ir root l - set (v # cur)) - within ir root l" "set users = listed ir root l (v # cur)"
    "distinct (map fst users)" "sorted (map snd users)" using inv by (auto simp: bfs_inv_def)
  have "at_distance ir root l - set cur = insert v (at_distance ir root l - set (v # cur))" using I(2,3) by auto
  then have nxt: "set (nxt @ pushed) = user_steps ir `` (at_distance ir root l - set cur) - within ir root l"
    using I(1,7) P(3) by auto
  have fresh: "v \<notin> fst ` set users"
    unfolding I(8) listed_def using I(2) distance_unique [of v ir root] by (auto dest: distance_unique)
  have root: "v = root \<longleftrightarrow> l = 0" using I(2) distance_unique [of v ir root l 0] by (cases "l = 0") auto
  have users: "set (list_user ir root v (int l) users) = listed ir root l cur"
  proof -
    have "listed ir root l cur = listed ir root l (v # cur) \<union> (if l > 0 \<and> \<not> is_alloca ir v then {(v, int l)} else {})"
      using I(2,3) unfolding listed_def by (auto split: if_splits)
    then show ?thesis using I(8) root by (auto simp: list_user_def)
  qed
  have "sorted (map snd (list_user ir root v (int l) users))"
    using I(8,10) listed_level by (auto simp: list_user_def sorted_append)
  moreover have "distinct (map fst (list_user ir root v (int l) users))" using I(9) fresh by (auto simp: list_user_def)
  ultimately show ?thesis
    unfolding bfs_inv_def using users nxt I P by auto
qed

lemma bfs_next_level:
  assumes "bfs_inv ir root [] nxt l visited users"
  shows "bfs_inv ir root nxt [] (Suc l) visited users"
proof -
  have nxt: "set nxt = at_distance ir root (Suc l)" using assms by (simp add: bfs_inv_def at_distance_Suc)
  have "listed ir root (Suc l) nxt = listed ir root l []" unfolding listed_def nxt by (auto simp: less_Suc_eq)
  then show ?thesis using assms nxt by (auto simp: bfs_inv_def within_Suc_distance)
qed

lemma bfs_loop_returns:
  assumes fin: "finite (user_reach ir root)" and "bfs_inv ir root (v # cur) nxt l visited users" and "depth > 0 \<longrightarrow> int l \<le> depth"
  shows "\<exists>us vis l' nxt'. bfs_loop ir root depth (map Some (v # cur) @ None # map Some nxt) (int l) visited users = Some us \<and>
    bfs_inv ir root [] nxt' l' vis us \<and> (nxt' = [] \<or> depth > 0 \<and> depth = int l') \<and> (depth > 0 \<longrightarrow> int l' \<le> depth)"
  using assms(2,3)
proof (induction "length (v # cur) + length nxt + card (user_reach ir root - set visited)" arbitrary: v cur nxt l visited users rule: less_induct)
  case less
  obtain pushed visited' where p: "process_users ir (iv_users (ir v)) visited = (pushed, visited')" by fastforce
  note P = pushed_steps [OF p]
  let ?users = "list_user ir root v (int l) users"
  have inv: "bfs_inv ir root cur (nxt @ pushed) l visited' ?users" by (rule bfs_round_inv [OF less.prems(1) p])
  have "v \<in> user_reach ir root" using less.prems(1) distance_within within_reach by (fastforce simp: bfs_inv_def)
  then have "set pushed \<subseteq> user_reach ir root" using P(3) user_reach_step by blast
  then have card: "length pushed + card (user_reach ir root - set visited') = card (user_reach ir root - set visited)"
    using visited_card [OF fin, of pushed visited] P by auto
  have q: "map Some (v # cur) @ None # map Some nxt = Some v # map Some cur @ None # map Some nxt" by simp
  show ?case
  proof (cases cur)
    case (Cons w rest)
    have "bfs_loop ir root depth (map Some (v # cur) @ None # map Some nxt) (int l) visited users =
        bfs_loop ir root depth (map Some (w # rest) @ None # map Some (nxt @ pushed)) (int l) visited' ?users"
      unfolding q by (subst bfs_loop.simps) (simp add: p Cons)
    moreover have lt: "length (w # rest) + length (nxt @ pushed) + card (user_reach ir root - set visited') <
        length (v # cur) + length nxt + card (user_reach ir root - set visited)"
      using card Cons by simp
    ultimately show ?thesis using less.hyps [OF lt inv [unfolded Cons] less.prems(2)] by simp
  next
    case Nil
    have loop: "bfs_loop ir root depth (map Some (v # cur) @ None # map Some nxt) (int l) visited users =
        (if depth > 0 \<and> int l + 1 > depth then Some ?users
         else bfs_loop ir root depth (if nxt @ pushed = [] then [] else map Some (nxt @ pushed) @ [None]) (int l + 1) visited' ?users)"
      unfolding q by (subst bfs_loop.simps) (simp add: p Nil)
    show ?thesis
    proof (cases "depth > 0 \<and> int l + 1 > depth")
      case True
      then have "bfs_loop ir root depth (map Some (v # cur) @ None # map Some nxt) (int l) visited users = Some ?users" using loop by simp
      moreover have "depth > 0" "depth = int l" using True less.prems(2) by auto
      ultimately show ?thesis using inv Nil by blast
    next
      case go: False
      show ?thesis
      proof (cases "nxt @ pushed")
        case Nil2: Nil
        then have "bfs_loop ir root depth (map Some (v # cur) @ None # map Some nxt) (int l) visited users = Some ?users"
          unfolding loop using go by (subst bfs_loop.simps) simp
        then show ?thesis using inv Nil Nil2 less.prems(2) by (metis)
      next
        case Cons2: (Cons w rest)
        have step: "bfs_loop ir root depth (map Some (v # cur) @ None # map Some nxt) (int l) visited users =
            bfs_loop ir root depth (map Some (w # rest) @ None # map Some []) (int (Suc l)) visited' ?users"
          unfolding loop if_not_P [OF go] by (simp add: Cons2 add.commute)
        have inv': "bfs_inv ir root (w # rest) [] (Suc l) visited' ?users"
          using bfs_next_level [of ir root "nxt @ pushed" l visited' ?users] inv Nil Cons2 by simp
        have lt: "length (w # rest) + length ([] :: nat list) + card (user_reach ir root - set visited') <
            length (v # cur) + length nxt + card (user_reach ir root - set visited)"
          using card Nil arg_cong [OF Cons2, of length] by simp
        have "depth > 0 \<longrightarrow> int (Suc l) \<le> depth" using go by auto
        from less.hyps [OF lt inv' this] show ?thesis unfolding step .
      qed
    qed
  qed
qed

lemma bfs_finds_levels:
  assumes "finite (user_reach ir v)"
  shows "\<exists>us. user_graph ir v BFS depth = Some us \<and>
    set us = {(u, int k) |u k. u \<in> at_distance ir v k \<and> k > 0 \<and> \<not> is_alloca ir u \<and> (depth > 0 \<longrightarrow> int k \<le> depth)} \<and>
    distinct (map fst us) \<and> sorted (map snd us)"
proof -
  have "bfs_inv ir v [v] [] 0 [v] []" by (auto simp: bfs_inv_def listed_def)
  from bfs_loop_returns [OF assms this, of depth] obtain us vis l nxt where us: "user_graph ir v BFS depth = Some us"
    "bfs_inv ir v [] nxt l vis us" "nxt = [] \<or> depth > 0 \<and> depth = int l" "depth > 0 \<longrightarrow> int l \<le> depth" by (auto simp: user_graph_def)
  have next': "set nxt = at_distance ir v (Suc l)" using us(2) by (simp add: bfs_inv_def at_distance_Suc)
  have bound: "k \<le> l" if u: "u \<in> at_distance ir v k" and k: "depth > 0 \<longrightarrow> int k \<le> depth" for u k
  proof (rule ccontr)
    assume "\<not> k \<le> l"
    then obtain j where j: "k = Suc (l + j)" by (metis add_Suc_right less_iff_Suc_add not_le)
    show False
    proof (cases "nxt = []")
      case True
      then show ?thesis using distance_empty [of ir v l j] next' u j by simp
    next
      case False
      then show ?thesis using us(3) k j by auto
    qed
  qed
  have "set us = {(u, int k) |u k. u \<in> at_distance ir v k \<and> k > 0 \<and> \<not> is_alloca ir u \<and> k \<le> l}"
    using us(2) by (auto simp: bfs_inv_def listed_def le_less)
  also have "\<dots> = {(u, int k) |u k. u \<in> at_distance ir v k \<and> k > 0 \<and> \<not> is_alloca ir u \<and> (depth > 0 \<longrightarrow> int k \<le> depth)}"
    using bound us(4) by fastforce
  finally show ?thesis using us(1,2) by (auto simp: bfs_inv_def)
qed

section \<open>Properties\<close>

text \<open>
  The user graph of a value, by depth-first search, lists each of its transitive users once: the instructions reached through uses, with stores
  replaced by the instruction they store to, other than the value itself and stack slots.
\<close>

theorem user_graph_covers:
  assumes "finite (user_reach ir v)"
  shows "\<exists>us. user_graph ir v DFS depth = Some us \<and> fst ` set us = {u. (v, u) \<in> (user_steps ir)\<^sup>* \<and> u \<noteq> v \<and> \<not> is_alloca ir u} \<and>
    distinct (map fst us)"
proof -
  obtain us where us: "user_graph ir v DFS depth = Some us" "set us = {(u, 1) |u. u \<in> users_of ir v}" "distinct (map fst us)"
    using dfs_finds_users [OF assms] by blast
  have "fst ` set us = users_of ir v" unfolding us(2) by force
  then show ?thesis using us(1,3) by (auto simp: users_of_def user_reach_def)
qed

text \<open>
  Breadth-first search lists the transitive users with their distances, in the order of the distances, and with a positive depth those up to this
  distance.
\<close>

theorem user_graph_levels:
  assumes "finite (user_reach ir v)"
  shows "\<exists>us. user_graph ir v BFS depth = Some us \<and> distinct (map fst us) \<and> sorted (map snd us) \<and>
    set us = {(u, int k) |u k. u \<in> at_distance ir v k \<and> k > 0 \<and> \<not> is_alloca ir u \<and> (depth > 0 \<longrightarrow> int k \<le> depth)}"
  using bfs_finds_levels [OF assms] by blast

text \<open>
  The values of a function: 1 is the result of a call, 2 its stack slot, 3 the store of 1 to 2, 4 and 5 load from 2, 6 adds 4 and 5, 7 stores 6 to 8, which
  is a global variable.
\<close>

definition sample_ir :: ir where
  "sample_ir v =
     (if v = 1 then \<lparr>iv_inst = Some (Call (Some 9) [10, 11]), iv_name = [], iv_users = [3]\<rparr>
      else if v = 2 then \<lparr>iv_inst = Some Alloca, iv_name = [], iv_users = [5, 4, 3]\<rparr>
      else if v = 3 then \<lparr>iv_inst = Some (Store 1 2), iv_name = [], iv_users = []\<rparr>
      else if v = 4 then \<lparr>iv_inst = Some (Load 2), iv_name = [], iv_users = [6]\<rparr>
      else if v = 5 then \<lparr>iv_inst = Some (Load 2), iv_name = [], iv_users = [6]\<rparr>
      else if v = 6 then \<lparr>iv_inst = Some OtherInst, iv_name = [], iv_users = [7]\<rparr>
      else if v = 7 then \<lparr>iv_inst = Some (Store 6 8), iv_name = [], iv_users = []\<rparr>
      else if v = 9 then \<lparr>iv_inst = None, iv_name = ''pmem_map_file'', iv_users = [1]\<rparr>
      else \<lparr>iv_inst = None, iv_name = [], iv_users = []\<rparr>)"

lemma sample_ir_finite: "finite (user_reach sample_ir v)"
proof -
  have "user_steps sample_ir `` (insert v {1..9}) \<subseteq> insert v {1..9}"
    by (auto simp: user_steps_def user_target_def sample_ir_def is_inst_def split: if_splits)
  then have "user_reach sample_ir v \<subseteq> insert v {1..9}" by (intro closed_reach) auto
  then show ?thesis by (rule finite_subset) simp
qed

theorem user_graph_covers_witness:
  "\<exists>us. user_graph sample_ir 1 DFS (- 1) = Some us \<and> us = [(4, 1), (6, 1), (5, 1)] \<and>
     fst ` set us = {u. (1, u) \<in> (user_steps sample_ir)\<^sup>* \<and> u \<noteq> 1 \<and> \<not> is_alloca sample_ir u}"
proof -
  have "user_graph sample_ir 1 DFS (- 1) = Some [(4, 1), (6, 1), (5, 1)]" by code_simp
  then show ?thesis using user_graph_covers [OF sample_ir_finite, of 1 "- 1"] by auto
qed

theorem user_graph_levels_witness:
  "user_graph sample_ir 1 BFS 2 = Some [(5, 2), (4, 2)] \<and> {(5, 2), (4, 2)} =
     {(u, int k) |u k. u \<in> at_distance sample_ir 1 k \<and> k > 0 \<and> \<not> is_alloca sample_ir u \<and> int k \<le> 2}"
proof -
  have "user_graph sample_ir 1 BFS 2 = Some [(5, 2), (4, 2)]" by code_simp
  then show ?thesis using user_graph_levels [OF sample_ir_finite, of 1 2] by auto
qed

end
