(* ===== verification/Extractor.thy ===== *)
theory Extractor
  imports UserGraph StringUtils
begin

text \<open>
  Locating persistent variables (\<open>PMemVariableLocator\<close> in \<open>analyzer/lib/PMem/Extractor.cpp\<close>): calls of the PMDK and memkind libraries
  that give persistent memory, the transitive users of their results, the mapped regions, and for each instruction the persistent values it depends on.
  The lemmas characterize the variables and the definition points after a run over a function, and show that the
  calls that create a memkind heap are missed.
\<close>

section \<open>The libraries' functions\<close>

definition pmdkApiSet :: "string list" where
  "pmdkApiSet = [''pmem_persist'', ''pmem_msync'', ''pmemobj_create'', ''pmemobj_direct_inline'', ''pmemobj_open'', ''pmem_map_file'']"

definition pmdkPMEMVariableReturnSet :: "string list" where
  "pmdkPMEMVariableReturnSet = [''pmemobj_direct_inline'', ''pmem_map_file'']"

definition memkindApiSet :: "string list" where
  "memkindApiSet = [''memkind_create_pmem'', ''memkind_create_kind'']"

definition pmdkRegionSizeArgMapping :: "(string \<times> nat) list" where
  "pmdkRegionSizeArgMapping = [(''pmem_map_file'', 1), (''pmemobj_create'', 2)]"

definition memkindCreationPMEMMapping :: "(string \<times> nat) list" where
  "memkindCreationPMEMMapping = [(''memkind_create_pmem'', 3)]"

definition memkindCreationGeneralMapping :: "(string \<times> nat) list" where
  "memkindCreationGeneralMapping = [(''memkind_create_kind'', 4)]"

definition pmem_direct :: string where
  "pmem_direct = ''pmemobj_direct_inline''"

definition callReturnsPmemVar :: "string \<Rightarrow> bool" where
  "callReturnsPmemVar func_name \<longleftrightarrow> func_name \<in> set pmdkPMEMVariableReturnSet"

section \<open>State\<close>

text \<open>
  A \<open>SetVector\<close> is a list without repetitions in the order of insertion; a \<open>std::set\<close> or \<open>std::multimap\<close> of pointers is a list in the order of the
  addresses, which the numbers of values stand for. \<open>lo_defs\<close> is the map from instructions to sets of definition points, \<open>lo_regions\<close> the multimap of regions.
\<close>

record locator =
  lo_calls :: "nat list"
  lo_vars :: "nat list"
  lo_regions :: "(nat \<times> nat) list"
  lo_defs :: "nat \<rightharpoonup> nat list"
  lo_processed :: "nat list"

definition new_locator :: locator where
  "new_locator = \<lparr>lo_calls = [], lo_vars = [], lo_regions = [], lo_defs = Map.empty, lo_processed = []\<rparr>"

definition sv_insert :: "'a \<Rightarrow> 'a list \<Rightarrow> 'a list" where
  "sv_insert x xs = (if x \<in> set xs then xs else xs @ [x])"

definition set_insert :: "nat \<Rightarrow> nat list \<Rightarrow> nat list" where
  "set_insert x xs = insort_insert x xs"

definition multimap_insert :: "nat \<Rightarrow> 'a \<Rightarrow> (nat \<times> 'a) list \<Rightarrow> (nat \<times> 'a) list" where
  "multimap_insert k v m = takeWhile (\<lambda>p. fst p \<le> k) m @ (k, v) # dropWhile (\<lambda>p. fst p \<le> k) m"

section \<open>Operations\<close>

text \<open>A variable and the transitive closure of its users; \<^term>\<open>None\<close> stands for a walk that does not return.\<close>

definition insert_users :: "ir \<Rightarrow> nat \<Rightarrow> locator \<Rightarrow> locator option" where
  "insert_users ir v lo = do {
     users \<leftarrow> user_graph ir v DFS (- 1);
     Some (lo\<lparr>lo_vars := fold sv_insert (map fst users) (sv_insert v (lo_vars lo))\<rparr>)
   }"

definition call_token :: "ir \<Rightarrow> nat \<Rightarrow> string" where
  "call_token ir callee = takeWhile (\<lambda>c. c \<noteq> CHR ''.'') (iv_name (ir callee))"

definition is_pmdk_api :: "string \<Rightarrow> bool" where
  "is_pmdk_api token \<longleftrightarrow> token \<in> set pmdkApiSet \<or> find_str pmem_direct token \<noteq> None"

definition returns_pmem :: "string \<Rightarrow> bool" where
  "returns_pmem token \<longleftrightarrow> token \<in> set pmdkPMEMVariableReturnSet \<or> find_str pmem_direct token \<noteq> None"

definition insert_region :: "nat \<Rightarrow> string \<Rightarrow> nat list \<Rightarrow> locator \<Rightarrow> locator" where
  "insert_region inst token args lo = (case map_of pmdkRegionSizeArgMapping token of
     Some k \<Rightarrow> if length args \<ge> k + 1 then lo\<lparr>lo_regions := multimap_insert inst (args ! k) (lo_regions lo)\<rparr> else lo
   | None \<Rightarrow> lo)"

definition handlePmdkCall :: "ir \<Rightarrow> nat \<Rightarrow> nat option \<Rightarrow> nat list \<Rightarrow> locator \<Rightarrow> locator option" where
  "handlePmdkCall ir inst callee args lo = (case callee of None \<Rightarrow> Some lo
   | Some f \<Rightarrow> let token = call_token ir f in
       if is_pmdk_api token then do {
         let lo1 = lo\<lparr>lo_calls := sv_insert inst (lo_calls lo)\<rparr>;
         lo2 \<leftarrow> (if returns_pmem token then insert_users ir inst lo1 else Some lo1);
         Some (insert_region inst token args lo2)
       } else Some lo)"

text \<open>An invocation is not recorded in the list of calls.\<close>

definition handleInvokeCall :: "ir \<Rightarrow> nat \<Rightarrow> nat option \<Rightarrow> nat list \<Rightarrow> locator \<Rightarrow> locator option" where
  "handleInvokeCall ir inst callee args lo = (case callee of None \<Rightarrow> Some lo
   | Some f \<Rightarrow> let token = call_token ir f in
       if is_pmdk_api token then do {
         lo1 \<leftarrow> (if returns_pmem token then insert_users ir inst lo else Some lo);
         Some (insert_region inst token args lo1)
       } else Some lo)"

definition handleMemKindCall :: "ir \<Rightarrow> nat option \<Rightarrow> nat list \<Rightarrow> locator \<Rightarrow> locator option" where
  "handleMemKindCall ir callee args lo = (case callee of None \<Rightarrow> Some lo
   | Some f \<Rightarrow> let name = iv_name (ir f) in
       if name \<in> set memkindApiSet then do {
         lo1 \<leftarrow> (case map_of memkindCreationPMEMMapping name of
             Some k \<Rightarrow> if length args \<ge> k + 1 then insert_users ir (args ! k) lo else Some lo
           | None \<Rightarrow> Some lo);
         (case map_of memkindCreationGeneralMapping name of
             Some k \<Rightarrow> if length args \<ge> k + 1 \<and> iv_name (ir (args ! k)) = ''MEMKIND_DAX_PMEM'' then insert_users ir (args ! k) lo1 else Some lo1
           | None \<Rightarrow> Some lo1)
       } else Some lo)"

definition add_def :: "ir \<Rightarrow> nat \<Rightarrow> nat \<Rightarrow> (nat \<rightharpoonup> nat list) \<Rightarrow> (nat \<rightharpoonup> nat list)" where
  "add_def ir def u defs = (if \<not> is_inst ir u then defs
     else case defs u of None \<Rightarrow> defs(u \<mapsto> [def]) | Some ds \<Rightarrow> defs(u \<mapsto> set_insert def ds))"

definition processDefinitionPoint :: "ir \<Rightarrow> nat \<Rightarrow> locator \<Rightarrow> (bool \<times> locator) option" where
  "processDefinitionPoint ir def lo = (if def \<in> set (lo_processed lo) then Some (False, lo)
     else do {
       users \<leftarrow> user_graph ir def DFS (- 1);
       Some (True, lo\<lparr>lo_defs := fold (add_def ir def) (map fst users) (lo_defs lo), lo_processed := def # lo_processed lo\<rparr>)
     })"

definition handle_inst :: "ir \<Rightarrow> nat \<Rightarrow> locator \<Rightarrow> locator option" where
  "handle_inst ir inst lo = (case iv_inst (ir inst) of
     Some (Invoke callee args) \<Rightarrow> handleInvokeCall ir inst callee args lo
   | Some (Call callee args) \<Rightarrow> Option.bind (handlePmdkCall ir inst callee args lo) (handleMemKindCall ir callee args)
   | _ \<Rightarrow> Some lo)"

text \<open>A function of the module: whether it is only declared, and its instructions. The result says that nothing was modified.\<close>

record ir_function =
  if_declaration :: bool
  if_insts :: "nat list"

definition runOnFunction :: "ir \<Rightarrow> ir_function \<Rightarrow> locator \<Rightarrow> (bool \<times> locator) option" where
  "runOnFunction ir F lo = (if if_declaration F then Some (False, lo)
     else do {
       lo1 \<leftarrow> ofold (handle_inst ir) (if_insts F) lo;
       lo2 \<leftarrow> ofold (\<lambda>def lo. map_option snd (processDefinitionPoint ir def lo)) (lo_vars lo1) lo1;
       Some (False, lo2)
     })"

definition runOnModule :: "ir \<Rightarrow> ir_function list \<Rightarrow> locator \<Rightarrow> (bool \<times> locator) option" where
  "runOnModule ir M lo = ofold (\<lambda>F (modified, lo). if if_declaration F then Some (modified, lo)
     else map_option (\<lambda>(m, lo'). (modified \<or> m, lo')) (runOnFunction ir F lo)) M (False, lo)"

section \<open>What is located\<close>

definition memkind_roots :: "ir \<Rightarrow> nat \<Rightarrow> nat list \<Rightarrow> nat set" where
  "memkind_roots ir f args =
     (if iv_name (ir f) = ''memkind_create_pmem'' \<and> length args \<ge> 4 then {args ! 3} else {}) \<union>
     (if iv_name (ir f) = ''memkind_create_kind'' \<and> length args \<ge> 5 \<and> iv_name (ir (args ! 4)) = ''MEMKIND_DAX_PMEM'' then {args ! 4} else {})"

text \<open>The persistent variables that an instruction introduces itself.\<close>

definition pmem_roots :: "ir \<Rightarrow> nat \<Rightarrow> nat set" where
  "pmem_roots ir c = (case iv_inst (ir c) of
     Some (Invoke (Some f) args) \<Rightarrow> (if returns_pmem (call_token ir f) then {c} else {})
   | Some (Call (Some f) args) \<Rightarrow> (if returns_pmem (call_token ir f) then {c} else {}) \<union> memkind_roots ir f args
   | _ \<Rightarrow> {})"

definition with_users :: "ir \<Rightarrow> nat set \<Rightarrow> nat set" where
  "with_users ir R = (\<Union>r\<in>R. insert r (users_of ir r))"

definition def_points :: "locator \<Rightarrow> nat \<Rightarrow> nat set" where
  "def_points lo i = (case lo_defs lo i of None \<Rightarrow> {} | Some ds \<Rightarrow> set ds)"

lemma with_users_simps [simp]:
  "with_users ir {} = {}" "with_users ir {r} = insert r (users_of ir r)" "with_users ir (R \<union> S) = with_users ir R \<union> with_users ir S"
  by (auto simp: with_users_def)

lemma set_sv_insert [simp]: "set (sv_insert x xs) = insert x (set xs)"
  by (auto simp: sv_insert_def)

lemma set_set_insert [simp]: "set (set_insert x xs) = insert x (set xs)"
  by (simp add: set_insert_def set_insort_insert)

lemma set_insert_not_Nil [simp]: "set_insert x xs \<noteq> []"
  by (metis empty_iff insertI1 list.set(1) set_set_insert)

lemma set_multimap_insert [simp]: "set (multimap_insert k v m) = insert (k, v) (set m)"
proof -
  have "set m = set (takeWhile (\<lambda>p. fst p \<le> k) m) \<union> set (dropWhile (\<lambda>p. fst p \<le> k) m)" by (metis set_append takeWhile_dropWhile_id)
  then show ?thesis by (auto simp: multimap_insert_def)
qed

lemma distinct_sv_insert [simp]: "distinct (sv_insert x xs) = distinct xs"
  by (auto simp: sv_insert_def)

text \<open>
  What the loops over values rely on: an insertion adds one element and keeps elements distinct. A collection in the order of the addresses is determined by its elements, whatever the
  order of the insertions.
\<close>

locale value_collection =
  fixes ins :: "nat \<Rightarrow> nat list \<Rightarrow> nat list" and inv :: "nat list \<Rightarrow> bool"
  assumes set_ins: "set (ins x xs) = insert x (set xs)"
    and inv_ins: "inv xs \<Longrightarrow> inv (ins x xs)"
    and inv_empty: "inv []"
    and inv_distinct: "inv xs \<Longrightarrow> distinct xs"
begin

lemma set_fold: "set (fold ins xs ys) = set ys \<union> set xs"
  by (induction xs arbitrary: ys) (auto simp: set_ins)

lemma inv_fold: "inv ys \<Longrightarrow> inv (fold ins xs ys)"
  by (induction xs arbitrary: ys) (simp_all add: inv_ins)

lemma length_fold: "length (fold ins xs []) = card (set xs)"
  using distinct_card [OF inv_distinct [OF inv_fold [OF inv_empty]], of xs] by (simp add: set_fold)

end

locale ordered_collection = value_collection +
  assumes inv_sorted: "inv xs \<Longrightarrow> sorted xs"
begin

lemma elements: "inv xs \<Longrightarrow> xs = sorted_list_of_set (set xs)"
  using sorted_list_of_set.idem_if_sorted_distinct [OF inv_sorted inv_distinct] by simp

lemma order_irrelevant: "set xs = set ys \<Longrightarrow> fold ins xs [] = fold ins ys []"
  using elements [OF inv_fold [OF inv_empty], of xs] elements [OF inv_fold [OF inv_empty], of ys] by (simp add: set_fold)

end

interpretation sv: value_collection sv_insert distinct
  by unfold_locales (simp_all add: sv_insert_def insert_absorb)

interpretation addr_set: ordered_collection set_insert "\<lambda>xs. sorted xs \<and> distinct xs"
  by unfold_locales (auto simp: set_insert_def set_insort_insert sorted_insort_insert distinct_insort_insert)

lemma fold_sv_insert: "set (fold sv_insert xs ys) = set ys \<union> set xs" "distinct (fold sv_insert xs ys) = distinct ys"
  by (induction xs arbitrary: ys) auto

lemma users_of_trans: "u \<in> users_of ir r \<Longrightarrow> users_of ir u \<subseteq> insert r (users_of ir r)"
  by (auto simp: users_of_def user_reach_def intro: rtrancl_trans)

lemma returns_pmem_api: "returns_pmem token \<Longrightarrow> is_pmdk_api token"
  by (auto simp: returns_pmem_def is_pmdk_api_def pmdkApiSet_def pmdkPMEMVariableReturnSet_def)

text \<open>An operation that adds variables and leaves the definition points alone.\<close>

definition adds_vars :: "locator \<Rightarrow> nat set \<Rightarrow> locator \<Rightarrow> bool" where
  "adds_vars lo V lo' \<longleftrightarrow> set (lo_vars lo') = set (lo_vars lo) \<union> V \<and> (distinct (lo_vars lo) \<longrightarrow> distinct (lo_vars lo')) \<and>
     lo_defs lo' = lo_defs lo \<and> lo_processed lo' = lo_processed lo"

lemma adds_vars_refl: "adds_vars lo {} lo"
  by (simp add: adds_vars_def)

lemma adds_vars_trans: "adds_vars lo V lo1 \<Longrightarrow> adds_vars lo1 W lo2 \<Longrightarrow> adds_vars lo (V \<union> W) lo2"
  by (auto simp: adds_vars_def)

lemma adds_vars_insert_region: "adds_vars lo V lo1 \<Longrightarrow> adds_vars lo V (insert_region inst token args lo1)"
  by (auto simp: adds_vars_def insert_region_def split: option.split)

lemma adds_vars_calls: "adds_vars (lo\<lparr>lo_calls := cs\<rparr>) V lo1 = adds_vars lo V lo1"
  by (simp add: adds_vars_def)

lemma insert_users_adds:
  assumes "finite (user_reach ir v)"
  shows "\<exists>lo'. insert_users ir v lo = Some lo' \<and> adds_vars lo (with_users ir {v}) lo'"
proof -
  obtain us where us: "user_graph ir v DFS (- 1) = Some us" "set us = {(u, 1) |u. u \<in> users_of ir v}" using dfs_finds_users [OF assms] by blast
  have "fst ` set us = users_of ir v" unfolding us(2) by force
  then show ?thesis using us(1) by (auto simp: insert_users_def adds_vars_def fold_sv_insert)
qed

lemma handlePmdkCall_adds:
  assumes fin: "\<And>v. finite (user_reach ir v)"
  shows "\<exists>lo'. handlePmdkCall ir inst (Some f) args lo = Some lo' \<and> adds_vars lo (with_users ir (if returns_pmem (call_token ir f) then {inst} else {})) lo'"
proof (cases "is_pmdk_api (call_token ir f)")
  case api: True
  let ?lo1 = "lo\<lparr>lo_calls := sv_insert inst (lo_calls lo)\<rparr>"
  show ?thesis
  proof (cases "returns_pmem (call_token ir f)")
    case True
    obtain lo2 where "insert_users ir inst ?lo1 = Some lo2" "adds_vars ?lo1 (with_users ir {inst}) lo2" using insert_users_adds [OF fin] by blast
    then show ?thesis using api True by (simp add: handlePmdkCall_def Let_def adds_vars_calls adds_vars_insert_region)
  next
    case False
    have "adds_vars ?lo1 {} ?lo1" by (rule adds_vars_refl)
    then show ?thesis using api False by (simp add: handlePmdkCall_def Let_def adds_vars_calls adds_vars_insert_region)
  qed
next
  case False
  then have "\<not> returns_pmem (call_token ir f)" using returns_pmem_api by blast
  then show ?thesis using False by (simp add: handlePmdkCall_def Let_def adds_vars_refl)
qed

lemma handleInvokeCall_adds:
  assumes fin: "\<And>v. finite (user_reach ir v)"
  shows "\<exists>lo'. handleInvokeCall ir inst (Some f) args lo = Some lo' \<and> adds_vars lo (with_users ir (if returns_pmem (call_token ir f) then {inst} else {})) lo'"
proof (cases "returns_pmem (call_token ir f)")
  case True
  obtain lo2 where "insert_users ir inst lo = Some lo2" "adds_vars lo (with_users ir {inst}) lo2" using insert_users_adds [OF fin] by blast
  then show ?thesis using returns_pmem_api [OF True] True by (simp add: handleInvokeCall_def Let_def adds_vars_insert_region)
next
  case False
  then show ?thesis by (simp add: handleInvokeCall_def Let_def adds_vars_refl adds_vars_insert_region)
qed

lemma handleMemKindCall_adds:
  assumes fin: "\<And>v. finite (user_reach ir v)"
  shows "\<exists>lo'. handleMemKindCall ir (Some f) args lo = Some lo' \<and> adds_vars lo (with_users ir (memkind_roots ir f args)) lo'"
proof -
  obtain lo3 where 3: "insert_users ir (args ! 3) lo = Some lo3" "adds_vars lo (with_users ir {args ! 3}) lo3" using insert_users_adds [OF fin] by blast
  obtain lo4 where 4: "insert_users ir (args ! 4) lo = Some lo4" "adds_vars lo (with_users ir {args ! 4}) lo4" using insert_users_adds [OF fin] by blast
  consider (pmem) "iv_name (ir f) = ''memkind_create_pmem''" | (kind) "iv_name (ir f) = ''memkind_create_kind''"
    | (other) "iv_name (ir f) \<noteq> ''memkind_create_pmem''" "iv_name (ir f) \<noteq> ''memkind_create_kind''" by blast
  then show ?thesis
  proof cases
    case pmem
    then show ?thesis using 3
      by (simp add: handleMemKindCall_def Let_def memkindApiSet_def memkindCreationPMEMMapping_def memkindCreationGeneralMapping_def memkind_roots_def adds_vars_refl)
  next
    case kind
    then show ?thesis using 4
      by (simp add: handleMemKindCall_def Let_def memkindApiSet_def memkindCreationPMEMMapping_def memkindCreationGeneralMapping_def memkind_roots_def adds_vars_refl)
  next
    case other
    then show ?thesis by (simp add: handleMemKindCall_def memkindApiSet_def memkind_roots_def adds_vars_refl)
  qed
qed

lemma handle_inst_adds:
  assumes fin: "\<And>v. finite (user_reach ir v)"
  shows "\<exists>lo'. handle_inst ir c lo = Some lo' \<and> adds_vars lo (with_users ir (pmem_roots ir c)) lo'"
proof (cases "iv_inst (ir c)")
  case None
  then show ?thesis by (simp add: handle_inst_def pmem_roots_def adds_vars_refl)
next
  case (Some opc)
  show ?thesis
  proof (cases opc)
    case (Call callee args)
    show ?thesis
    proof (cases callee)
      case None
      then show ?thesis using Some Call by (simp add: handle_inst_def handlePmdkCall_def handleMemKindCall_def pmem_roots_def adds_vars_refl)
    next
      case f: (Some f)
      obtain lo1 where 1: "handlePmdkCall ir c (Some f) args lo = Some lo1"
        "adds_vars lo (with_users ir (if returns_pmem (call_token ir f) then {c} else {})) lo1" using handlePmdkCall_adds [OF fin] by blast
      obtain lo2 where 2: "handleMemKindCall ir (Some f) args lo1 = Some lo2" "adds_vars lo1 (with_users ir (memkind_roots ir f args)) lo2"
        using handleMemKindCall_adds [OF fin] by blast
      have "with_users ir (pmem_roots ir c) = with_users ir (if returns_pmem (call_token ir f) then {c} else {}) \<union> with_users ir (memkind_roots ir f args)"
        using Some Call f by (simp add: pmem_roots_def)
      then show ?thesis using adds_vars_trans [OF 1(2) 2(2)] 1(1) 2(1) Some Call f by (simp add: handle_inst_def)
    qed
  next
    case (Invoke callee args)
    show ?thesis
    proof (cases callee)
      case None
      then show ?thesis using Some Invoke by (simp add: handle_inst_def handleInvokeCall_def pmem_roots_def adds_vars_refl)
    next
      case f: (Some f)
      then show ?thesis using Some Invoke handleInvokeCall_adds [OF fin, of c f args lo] by (simp add: handle_inst_def pmem_roots_def)
    qed
  qed (use Some in \<open>simp_all add: handle_inst_def pmem_roots_def adds_vars_refl\<close>)
qed

text \<open>The definition points as a set of pairs, and what the processed definitions have put into it.\<close>

definition def_pairs :: "locator \<Rightarrow> (nat \<times> nat) set" where
  "def_pairs lo = {(i, d). d \<in> def_points lo i}"

definition no_empty :: "(nat \<rightharpoonup> nat list) \<Rightarrow> bool" where
  "no_empty m \<longleftrightarrow> (\<forall>i ds. m i = Some ds \<longrightarrow> ds \<noteq> [])"

definition defs_ok :: "ir \<Rightarrow> locator \<Rightarrow> bool" where
  "defs_ok ir lo \<longleftrightarrow> (\<forall>d \<in> set (lo_processed lo). (\<lambda>i. (i, d)) ` users_of ir d \<subseteq> def_pairs lo) \<and> no_empty (lo_defs lo)"

lemma add_defs:
  assumes "\<forall>u \<in> set us. is_inst ir u"
  shows "{(i, d). d \<in> (case fold (add_def ir def) us defs i of None \<Rightarrow> {} | Some ds \<Rightarrow> set ds)} =
      {(i, d). d \<in> (case defs i of None \<Rightarrow> {} | Some ds \<Rightarrow> set ds)} \<union> (\<lambda>i. (i, def)) ` set us"
    and "no_empty defs \<Longrightarrow> no_empty (fold (add_def ir def) us defs)"
proof -
  have one: "(case add_def ir def u m i of None \<Rightarrow> {} | Some ds \<Rightarrow> set ds) = (case m i of None \<Rightarrow> {} | Some ds \<Rightarrow> set ds) \<union> (if i = u then {def} else {})"
    if "is_inst ir u" for u m i using that by (auto simp: add_def_def split: option.split)
  show "{(i, d). d \<in> (case fold (add_def ir def) us defs i of None \<Rightarrow> {} | Some ds \<Rightarrow> set ds)} =
      {(i, d). d \<in> (case defs i of None \<Rightarrow> {} | Some ds \<Rightarrow> set ds)} \<union> (\<lambda>i. (i, def)) ` set us"
    using assms by (induction us arbitrary: defs) (auto simp: one split: if_splits)
  have "(\<forall>i ds. add_def ir def u m i = Some ds \<longrightarrow> ds \<noteq> [])" if "\<forall>i ds. m i = Some ds \<longrightarrow> ds \<noteq> []" for u m
    using that by (auto simp: add_def_def split: option.splits if_splits)
  then have step: "no_empty (add_def ir def u m)" if "no_empty m" for u m using that by (simp add: no_empty_def)
  have "no_empty (fold (add_def ir def) us m)" if "no_empty m" for m
    using that by (induction us arbitrary: m) (simp_all add: step)
  then show "no_empty defs \<Longrightarrow> no_empty (fold (add_def ir def) us defs)" by blast
qed

lemma processDefinitionPoint_adds:
  assumes fin: "\<And>v. finite (user_reach ir v)" and ok: "defs_ok ir lo"
  shows "\<exists>lo'. map_option snd (processDefinitionPoint ir def lo) = Some lo' \<and> defs_ok ir lo' \<and> lo_vars lo' = lo_vars lo \<and>
    def_pairs lo' = def_pairs lo \<union> (\<lambda>i. (i, def)) ` users_of ir def"
proof (cases "def \<in> set (lo_processed lo)")
  case True
  then have "(\<lambda>i. (i, def)) ` users_of ir def \<subseteq> def_pairs lo" using ok by (simp add: defs_ok_def)
  then have "def_pairs lo \<union> (\<lambda>i. (i, def)) ` users_of ir def = def_pairs lo" by blast
  then show ?thesis using True ok by (simp add: processDefinitionPoint_def)
next
  case False
  obtain us where us: "user_graph ir def DFS (- 1) = Some us" "set us = {(u, 1) |u. u \<in> users_of ir def}" using dfs_finds_users [OF fin] by blast
  have users: "set (map fst us) = users_of ir def" unfolding set_map us(2) by force
  then have inst: "\<forall>u \<in> set (map fst us). is_inst ir u" using users_of_inst by auto
  let ?lo = "lo\<lparr>lo_defs := fold (add_def ir def) (map fst us) (lo_defs lo), lo_processed := def # lo_processed lo\<rparr>"
  have pairs: "def_pairs ?lo = def_pairs lo \<union> (\<lambda>i. (i, def)) ` users_of ir def"
    using add_defs(1) [OF inst, of def "lo_defs lo"] users by (simp add: def_pairs_def def_points_def)
  moreover have "defs_ok ir ?lo"
    unfolding defs_ok_def
  proof (intro conjI ballI)
    fix d assume "d \<in> set (lo_processed ?lo)"
    then consider "d = def" | "d \<in> set (lo_processed lo)" by auto
    then show "(\<lambda>i. (i, d)) ` users_of ir d \<subseteq> def_pairs ?lo"
      unfolding pairs by cases (use ok in \<open>auto simp: defs_ok_def image_subset_iff\<close>)
  next
    show "no_empty (lo_defs ?lo)" using add_defs(2) [OF inst, of "lo_defs lo" def] ok by (simp add: defs_ok_def)
  qed
  ultimately show ?thesis using False us(1) by (simp add: processDefinitionPoint_def)
qed

lemma runOnFunction_returns:
  assumes decl: "\<not> if_declaration F" and fin: "\<And>v. finite (user_reach ir v)"
  shows "\<exists>lo. runOnFunction ir F new_locator = Some (False, lo) \<and> distinct (lo_vars lo) \<and>
    set (lo_vars lo) = (\<Union>c\<in>set (if_insts F). with_users ir (pmem_roots ir c)) \<and>
    def_pairs lo = {(i, d). d \<in> set (lo_vars lo) \<and> i \<in> users_of ir d} \<and> defs_ok ir lo"
proof -
  let ?P = "\<lambda>lo :: locator. distinct (lo_vars lo) \<and> lo_defs lo = Map.empty \<and> lo_processed lo = []"
  have "\<exists>lo1. ofold (handle_inst ir) (if_insts F) new_locator = Some lo1 \<and> ?P lo1 \<and>
    set (lo_vars lo1) = set (lo_vars new_locator) \<union> (\<Union>c\<in>set (if_insts F). with_users ir (pmem_roots ir c))"
  proof (rule ofold_collects)
    show "?P new_locator" by (simp add: new_locator_def)
    fix c lo assume "?P lo"
    then show "\<exists>lo'. handle_inst ir c lo = Some lo' \<and> ?P lo' \<and> set (lo_vars lo') = set (lo_vars lo) \<union> with_users ir (pmem_roots ir c)"
      using handle_inst_adds [OF fin, of c lo] by (auto simp: adds_vars_def)
  qed
  then obtain lo1 where lo1: "ofold (handle_inst ir) (if_insts F) new_locator = Some lo1" "?P lo1"
    "set (lo_vars lo1) = (\<Union>c\<in>set (if_insts F). with_users ir (pmem_roots ir c))" by (auto simp: new_locator_def)
  let ?Q = "\<lambda>lo :: locator. defs_ok ir lo \<and> lo_vars lo = lo_vars lo1"
  have "\<exists>lo2. ofold (\<lambda>def lo. map_option snd (processDefinitionPoint ir def lo)) (lo_vars lo1) lo1 = Some lo2 \<and> ?Q lo2 \<and>
    def_pairs lo2 = def_pairs lo1 \<union> (\<Union>d\<in>set (lo_vars lo1). (\<lambda>i. (i, d)) ` users_of ir d)"
  proof (rule ofold_collects)
    show "?Q lo1" using lo1(2) by (simp add: defs_ok_def no_empty_def)
    fix d lo assume "?Q lo"
    then show "\<exists>lo'. map_option snd (processDefinitionPoint ir d lo) = Some lo' \<and> ?Q lo' \<and>
        def_pairs lo' = def_pairs lo \<union> (\<lambda>i. (i, d)) ` users_of ir d"
      using processDefinitionPoint_adds [OF fin, of lo d] by auto
  qed
  then obtain lo2 where lo2: "ofold (\<lambda>def lo. map_option snd (processDefinitionPoint ir def lo)) (lo_vars lo1) lo1 = Some lo2" "?Q lo2"
    "def_pairs lo2 = def_pairs lo1 \<union> (\<Union>d\<in>set (lo_vars lo1). (\<lambda>i. (i, d)) ` users_of ir d)" by blast
  have "def_pairs lo1 = {}" using lo1(2) by (simp add: def_pairs_def def_points_def)
  then have "def_pairs lo2 = {(i, d). d \<in> set (lo_vars lo2) \<and> i \<in> users_of ir d}" using lo2(2,3) by auto
  then show ?thesis using decl lo1 lo2 by (auto simp: runOnFunction_def)
qed

lemma vars_closed:
  assumes "V = (\<Union>c\<in>C. with_users ir (pmem_roots ir c))" and "d \<in> V"
  shows "users_of ir d \<subseteq> V"
proof -
  obtain c r where c: "c \<in> C" "r \<in> pmem_roots ir c" "d \<in> insert r (users_of ir r)" using assms by (auto simp: with_users_def)
  then have "users_of ir d \<subseteq> insert r (users_of ir r)" using users_of_trans [of d ir r] by auto
  then show ?thesis using c assms(1) by (auto simp: with_users_def)
qed

section \<open>Properties\<close>

text \<open>
  C26: the persistent variables of a function are the results of its persistent allocations and their transitive users, each once; they are closed
  under users; and the definition points of an instruction are the persistent variables that it is a transitive user of.
\<close>

theorem locator_finds_variables:
  assumes "\<not> if_declaration F" and "\<And>v. finite (user_reach ir v)"
  shows "\<exists>lo. runOnFunction ir F new_locator = Some (False, lo) \<and> distinct (lo_vars lo) \<and>
    set (lo_vars lo) = (\<Union>c\<in>set (if_insts F). with_users ir (pmem_roots ir c)) \<and>
    (\<forall>d \<in> set (lo_vars lo). users_of ir d \<subseteq> set (lo_vars lo)) \<and>
    (\<forall>i. def_points lo i = {d \<in> set (lo_vars lo). i \<in> users_of ir d})"
proof -
  obtain lo where lo: "runOnFunction ir F new_locator = Some (False, lo)" "distinct (lo_vars lo)"
    "set (lo_vars lo) = (\<Union>c\<in>set (if_insts F). with_users ir (pmem_roots ir c))" "def_pairs lo = {(i, d). d \<in> set (lo_vars lo) \<and> i \<in> users_of ir d}"
    using runOnFunction_returns [OF assms] by blast
  have "def_points lo i = {d \<in> set (lo_vars lo). i \<in> users_of ir d}" for i
  proof -
    have "d \<in> def_points lo i \<longleftrightarrow> (i, d) \<in> def_pairs lo" for d by (simp add: def_pairs_def)
    then show ?thesis unfolding lo(4) by auto
  qed
  then show ?thesis using lo vars_closed [OF lo(3)] by blast
qed

text \<open>
  C33: the creation of a memkind heap is not noticed: with the number of arguments of the library's own prototypes, three and four, a
  call of \<open>memkind_create_pmem\<close> or \<open>memkind_create_kind\<close> changes nothing, because the tables count the argument from one.
\<close>

theorem memkind_heaps_missed:
  assumes "iv_name (ir f) = ''memkind_create_pmem'' \<and> length args = 3 \<or> iv_name (ir f) = ''memkind_create_kind'' \<and> length args = 4"
  shows "handleMemKindCall ir (Some f) args lo = Some lo"
  using assms by (auto simp: handleMemKindCall_def Let_def memkindApiSet_def memkindCreationPMEMMapping_def memkindCreationGeneralMapping_def)

definition sample_function :: ir_function where
  "sample_function = \<lparr>if_declaration = False, if_insts = [2, 1, 3, 4, 5, 6, 7]\<rparr>"

theorem locator_finds_variables_witness:
  "map_option (\<lambda>(m, lo). (m, lo_calls lo, lo_vars lo, lo_regions lo, map (lo_defs lo) [4, 6])) (runOnFunction sample_ir sample_function new_locator) =
     Some (False, [1], [1, 4, 6, 5], [(1, 11)], [Some [1], Some [1, 4, 5]]) \<and>
   {1, 4, 6, 5} = (\<Union>c\<in>{2, 1, 3, 4, 5, 6, 7}. with_users sample_ir (pmem_roots sample_ir c))"
proof -
  have run: "map_option (\<lambda>(m, lo). (m, lo_calls lo, lo_vars lo, lo_regions lo, map (lo_defs lo) [4, 6])) (runOnFunction sample_ir sample_function new_locator) =
     Some (False, [1], [1, 4, 6, 5], [(1, 11)], [Some [1], Some [1, 4, 5]])" by code_simp
  have "\<not> if_declaration sample_function" by (simp add: sample_function_def)
  from locator_finds_variables [OF this sample_ir_finite] run show ?thesis by (auto simp: sample_function_def)
qed

theorem memkind_heaps_missed_witness:
  "handleMemKindCall (\<lambda>v. \<lparr>iv_inst = None, iv_name = ''memkind_create_pmem'', iv_users = []\<rparr>) (Some 0) [1, 2, 3] new_locator = Some new_locator"
  by (rule memkind_heaps_missed) simp

end
