(* ===== verification/Instrumenter.thy ===== *)
theory Instrumenter
  imports Extractor AddrTrace Slices
begin

text \<open>
  Instrumenting a module so that it reports the addresses of persistent variables (\<open>PmemAddrInstrumenter\<close> in
  \<open>analyzer/lib/Instrument/PmemAddrInstrumenter.cpp\<close> and the pass \<open>InstrumentPmemAddrPass\<close> that drives it). Every instrumented instruction gets a
  number; the calls report address and number at run time, and the map from numbers to instructions is written to a file. The lemmas show that
  the numbers identify the instructions, and that a reported address is attributed to the instruction it comes from when the map and the trace are read back.
\<close>

section \<open>State\<close>

text \<open>The calls that are inserted behind an instruction.\<close>

datatype hook_call =
    Track_addr nat "32 word"
  | Print_addr bool nat

text \<open>
  \<open>im_points\<close> is the \<open>std::map\<close> from numbers to instructions, in the order of its keys, \<open>im_hooks\<close> the map from instructions to numbers; \<open>im_guid\<close> is the
  global counter \<open>PmemVarCurrentGuid\<close>. What is added to the module: declarations, calls at the start of \<open>main\<close> and at exit, and calls behind instructions.
\<close>

record instrumenter =
  im_initialized :: bool
  im_instrument_cnt :: "32 word"
  im_track_with_printf :: bool
  im_points :: "(nat \<times> nat) list"
  im_hooks :: "nat \<rightharpoonup> nat"
  im_guid :: "32 word"
  im_declared :: "string list"
  im_main :: "string list"
  im_dtors :: "string list"
  im_calls :: "(nat \<times> hook_call) list"

definition PmemVarGuidStart :: "32 word" where
  "PmemVarGuidStart = 200"

definition new_instrumenter :: "bool \<Rightarrow> instrumenter" where
  "new_instrumenter use_printf = \<lparr>im_initialized = False, im_instrument_cnt = 0, im_track_with_printf = use_printf, im_points = [], im_hooks = Map.empty,
     im_guid = PmemVarGuidStart, im_declared = [], im_main = [], im_dtors = [], im_calls = []\<rparr>"

section \<open>Initialization\<close>

definition hook_functions :: "string list" where
  "hook_functions = [''__arthas_addr_tracker_init'', ''__arthas_low_level_init'', ''__arthas_save_file'', ''__arthas_low_level_fence'',
     ''__arthas_low_level_flush'', ''__arthas_track_addr'', ''__arthas_addr_tracker_dump'', ''__arthas_addr_tracker_finish'', ''printf'']"

text \<open>Whether the module has a \<open>main\<close> is an argument; the functions are declared unless the module has them.\<close>

definition initHookFuncs :: "bool \<Rightarrow> instrumenter \<Rightarrow> bool \<times> instrumenter" where
  "initHookFuncs has_main im = (if im_initialized im then (True, im)
     else if \<not> has_main then (False, im)
     else let im1 = im\<lparr>im_declared := fold sv_insert hook_functions (im_declared im)\<rparr>;
         im2 = (if im_track_with_printf im1 then im1
           else im1\<lparr>im_main := [''__arthas_addr_tracker_init'', ''__arthas_low_level_init''] @ im_main im1,
             im_dtors := im_dtors im1 @ [''__arthas_addr_tracker_finish'']\<rparr>)
       in (True, im2\<lparr>im_initialized := True\<rparr>))"

section \<open>Instructions\<close>

text \<open>\<open>getline\<close> with a dot as delimiter on what is left of the name; at the end of the stream the token stays as it is.\<close>

fun next_token :: "string \<times> string option \<Rightarrow> string \<times> string option" where
  "next_token (token, None) = (token, None)"
| "next_token (token, Some s) = (case find_char (CHR ''.'') s of
     None \<Rightarrow> (s, None) | Some i \<Rightarrow> (take i s, Some (drop (Suc i) s)))"

definition hook_token :: "string \<Rightarrow> string" where
  "hook_token name = (let (token, rest) = next_token ([], Some name)
     in if token = ''llvm'' then fst ((next_token ^^ 3) (token, rest)) else token)"

text \<open>
  The address to report: none (the instruction is not instrumented), a variable that is used without being set, or a value, with whether it is a pool.
\<close>

datatype hook_target = Not_hooked | Unset_address | Hook_at bool nat

definition call_operand :: "nat \<Rightarrow> nat list \<Rightarrow> nat \<Rightarrow> hook_target" where
  "call_operand f args k = (if k < length args + 1 then Hook_at False ((args @ [f]) ! k) else Unset_address)"

definition hook_target_of_call :: "ir \<Rightarrow> nat \<Rightarrow> nat \<Rightarrow> nat list \<Rightarrow> hook_target" where
  "hook_target_of_call ir inst f args = (let token = hook_token (iv_name (ir f)) in
     if token = ''pmemobj_create'' then Hook_at True inst
     else if callReturnsPmemVar token then Hook_at False inst
     else if token = ''pmemobj_tx_add_range_direct'' then call_operand f args 0
     else if token = ''pmemobj_direct_inline'' then call_operand f args 0
     else if token = ''pmemobj_persist'' then call_operand f args 1
     else if token = ''sfence'' then Unset_address
     else if token = ''clflush'' then call_operand f args 0
     else if token = ''mmap'' then Hook_at False inst
     else Not_hooked)"

definition hook_target_of :: "ir \<Rightarrow> nat \<Rightarrow> hook_target" where
  "hook_target_of ir inst = (case iv_inst (ir inst) of
     Some (Load p) \<Rightarrow> Hook_at False p
   | Some (Store v p) \<Rightarrow> Hook_at False p
   | Some (GetElementPtr p) \<Rightarrow> Hook_at False p
   | Some (Call (Some f) args) \<Rightarrow> hook_target_of_call ir inst f args
   | _ \<Rightarrow> Not_hooked)"

fun point_put :: "nat \<Rightarrow> nat \<Rightarrow> (nat \<times> nat) list \<Rightarrow> (nat \<times> nat) list" where
  "point_put g i [] = [(g, i)]"
| "point_put g i ((h, j) # ps) = (if g < h then (g, i) # (h, j) # ps else if g = h then (g, i) # ps else (h, j) # point_put g i ps)"

text \<open>\<^term>\<open>None\<close>: an address that was not set is used, or an operand that the call does not have.\<close>

definition instrumentInstr :: "ir \<Rightarrow> nat \<Rightarrow> instrumenter \<Rightarrow> (bool \<times> instrumenter) option" where
  "instrumentInstr ir instr im = (if im_hooks im instr \<noteq> None then Some (False, im)
     else case hook_target_of ir instr of
       Not_hooked \<Rightarrow> Some (False, im)
     | Unset_address \<Rightarrow> None
     | Hook_at pool addr \<Rightarrow>
         let im1 = (if im_track_with_printf im then im\<lparr>im_calls := im_calls im @ [(instr, Print_addr pool addr)]\<rparr>
           else im\<lparr>im_hooks := (im_hooks im)(instr \<mapsto> unat (im_guid im)), im_points := point_put (unat (im_guid im)) instr (im_points im),
             im_calls := im_calls im @ [(instr, Track_addr addr (im_guid im))], im_guid := im_guid im + 1\<rparr>)
         in Some (True, im1\<lparr>im_instrument_cnt := im_instrument_cnt im1 + 1\<rparr>))"

text \<open>The loops over instructions: whether something has been instrumented, and the state. Values that are not instructions are passed over.\<close>

definition instrument_values :: "ir \<Rightarrow> nat list \<Rightarrow> bool \<times> instrumenter \<Rightarrow> (bool \<times> instrumenter) option" where
  "instrument_values ir = ofold (\<lambda>v (done, im). if is_inst ir v
     then map_option (\<lambda>(b, im'). (done \<or> b, im')) (instrumentInstr ir v im) else Some (done, im))"

text \<open>The definition points of the instructions of a slice; the slice holds instructions only.\<close>

definition instrumentSlice :: "ir \<Rightarrow> nat slice \<Rightarrow> (nat \<rightharpoonup> nat list) \<Rightarrow> instrumenter \<Rightarrow> (bool \<times> instrumenter) option" where
  "instrumentSlice ir s useDefMap im = ofold (\<lambda>(v, _) st. if is_inst ir v
     then (case useDefMap v of None \<Rightarrow> Some st | Some defs \<Rightarrow> instrument_values ir defs st) else Some st) (sc_dep_vals s) (False, im)"

section \<open>The pass\<close>

definition instr_runOnFunction :: "bool \<Rightarrow> ir \<Rightarrow> ir_function \<Rightarrow> instrumenter \<Rightarrow> (bool \<times> instrumenter) option" where
  "instr_runOnFunction RegularLoadStore ir F im = (if RegularLoadStore then instrument_values ir (if_insts F) (False, im)
     else do {
       (_, lo) \<leftarrow> runOnFunction ir F new_locator;
       if lo_vars lo = [] then Some (False, im)
       else Option.bind (instrument_values ir (lo_vars lo) (False, im)) (instrument_values ir (map fst (lo_regions lo)))
     })"

definition instr_functions :: "bool \<Rightarrow> ir \<Rightarrow> ir_function list \<Rightarrow> bool \<times> instrumenter \<Rightarrow> (bool \<times> instrumenter) option" where
  "instr_functions RegularLoadStore ir = ofold (\<lambda>F (modified, im). if if_declaration F then Some (modified, im)
     else map_option (\<lambda>(m, im'). (modified \<or> m, im')) (instr_runOnFunction RegularLoadStore ir F im))"

section \<open>Writing the map\<close>

text \<open>
  What the debug information says of an instruction: its line, if it has a location, its function, the directory, file and line of the
  subprogram, if the function has one, and its text.
\<close>

record inst_debug =
  id_line :: "nat option"
  id_function :: string
  id_subprogram :: "(string \<times> string \<times> nat) option"
  id_text :: string

text \<open>
  Without a location and a subprogram the entry is left as it is and true is returned all the same; with a location and no subprogram a null pointer is dereferenced.
\<close>

definition fillVarGuidMapInfo :: "inst_debug \<Rightarrow> guid_entry \<Rightarrow> (bool \<times> guid_entry) option" where
  "fillVarGuidMapInfo d e = (case (id_line d, id_subprogram d) of
     (None, None) \<Rightarrow> Some (True, e)
   | (Some _, None) \<Rightarrow> None
   | (l, Some (dir, file, sp_line)) \<Rightarrow> Some (True, e\<lparr>ge_source_path := dir, ge_source_file := file, ge_function := id_function d,
       ge_line := int (case l of Some n \<Rightarrow> n | None \<Rightarrow> sp_line), ge_instruction := id_text d\<rparr>))"

text \<open>The line of a new entry is not initialized; \<open>uninit\<close> is what it is.\<close>

definition new_entry :: "int \<Rightarrow> nat \<Rightarrow> guid_entry" where
  "new_entry uninit g = \<lparr>ge_guid = int g, ge_source_path = [], ge_source_file = [], ge_function = [], ge_line = uninit, ge_instruction = []\<rparr>"

definition hook_point_map :: "int \<Rightarrow> (nat \<Rightarrow> inst_debug) \<Rightarrow> instrumenter \<Rightarrow> guid_map option" where
  "hook_point_map uninit dbg im = ofold (\<lambda>(g, i) gm. map_option (\<lambda>(_, e). guid_add gm e) (fillVarGuidMapInfo (dbg i) (new_entry uninit g))) (im_points im) []"

text \<open>The lines of the file, if it can be opened.\<close>

definition writeGuidHookPointMap :: "int \<Rightarrow> (nat \<Rightarrow> inst_debug) \<Rightarrow> bool \<Rightarrow> instrumenter \<Rightarrow> (bool \<times> string list) option" where
  "writeGuidHookPointMap uninit dbg opens im = map_option (\<lambda>gm. if opens then (True, serialize gm) else (False, [])) (hook_point_map uninit dbg im)"

definition hook_guid_file :: "string \<Rightarrow> string \<Rightarrow> string" where
  "hook_guid_file HookGuidFile source_file = (if HookGuidFile \<noteq> [] then HookGuidFile
     else case rfind_char (CHR ''.'') source_file of
       None \<Rightarrow> source_file @ ''-hook-guids.map''
     | Some i \<Rightarrow> take i source_file @ ''-hook-guids.map'')"

text \<open>The module: whether it has a \<open>main\<close>, its functions, and the name of its source file. The result holds the name of the map's file and its lines.\<close>

definition instr_runOnModule ::
    "bool \<Rightarrow> string \<Rightarrow> ir \<Rightarrow> (nat \<Rightarrow> inst_debug) \<Rightarrow> int \<Rightarrow> bool \<Rightarrow> bool \<Rightarrow> ir_function list \<Rightarrow> string \<Rightarrow>
     (bool \<times> (string \<times> string list) option \<times> instrumenter) option" where
  "instr_runOnModule RegularLoadStore HookGuidFile ir dbg uninit opens has_main M source_file =
     (let (ok, im0) = initHookFuncs has_main (new_instrumenter False) in
      if \<not> ok then Some (False, None, im0)
      else do {
        (modified, im1) \<leftarrow> instr_functions RegularLoadStore ir M (False, im0);
        (_, ls) \<leftarrow> writeGuidHookPointMap uninit dbg opens im1;
        Some (modified, Some (hook_guid_file HookGuidFile source_file, ls), im1)
      })"

section \<open>Numbering\<close>

definition hooked :: "ir \<Rightarrow> nat \<Rightarrow> bool" where
  "hooked ir v \<longleftrightarrow> is_inst ir v \<and> (\<exists>pool a. hook_target_of ir v = Hook_at pool a)"

definition hook_addr :: "ir \<Rightarrow> nat \<Rightarrow> nat" where
  "hook_addr ir v = (case hook_target_of ir v of Hook_at pool a \<Rightarrow> a | _ \<Rightarrow> 0)"

text \<open>The instructions \<open>hs\<close> have been instrumented, in this order.\<close>

definition numbered :: "ir \<Rightarrow> nat list \<Rightarrow> instrumenter \<Rightarrow> bool" where
  "numbered ir hs im \<longleftrightarrow> \<not> im_track_with_printf im \<and> distinct hs \<and>
     im_points im = map (\<lambda>k. (200 + k, hs ! k)) [0..<length hs] \<and>
     im_calls im = map (\<lambda>k. (hs ! k, Track_addr (hook_addr ir (hs ! k)) (200 + of_nat k))) [0..<length hs] \<and>
     (\<forall>k < length hs. im_hooks im (hs ! k) = Some (200 + k)) \<and> (\<forall>i. i \<notin> set hs \<longrightarrow> im_hooks im i = None) \<and>
     im_guid im = 200 + of_nat (length hs) \<and> im_instrument_cnt im = of_nat (length hs)"

lemma new_instrumenter_numbered: "numbered ir [] (new_instrumenter False)"
  by (simp add: numbered_def new_instrumenter_def PmemVarGuidStart_def)

lemma point_put_last: "\<forall>h \<in> fst ` set ps. h < g \<Longrightarrow> point_put g i ps = ps @ [(g, i)]"
  by (induction g i ps rule: point_put.induct) auto

lemma unat_guid: "200 + k < 2 ^ 32 \<Longrightarrow> unat (200 + of_nat k :: 32 word) = 200 + k"
proof -
  assume k: "200 + k < 2 ^ 32"
  have "unat (of_nat (200 + k) :: 32 word) = 200 + k" unfolding unat_of_nat using k by simp
  then show ?thesis by simp
qed

lemma numbered_hooks: "numbered ir hs im \<Longrightarrow> im_hooks im i \<noteq> None \<longleftrightarrow> i \<in> set hs"
  unfolding numbered_def by (metis in_set_conv_nth option.distinct(1))

lemma instrumentInstr_hook:
  assumes n: "numbered ir hs im" and new: "v \<notin> set hs" and target: "hook_target_of ir v = Hook_at pool a" and bound: "length hs + 200 < 2 ^ 32"
  shows "\<exists>im'. instrumentInstr ir v im = Some (True, im') \<and> numbered ir (hs @ [v]) im'"
proof -
  let ?g = "unat (im_guid im)"
  have g: "?g = 200 + length hs" using n unat_guid [of "length hs"] bound by (simp add: numbered_def)
  have "\<forall>h \<in> fst ` set (im_points im). h < ?g" unfolding g using n by (auto simp: numbered_def)
  then have put: "point_put ?g v (im_points im) = im_points im @ [(?g, v)]" by (rule point_put_last)
  have none: "im_hooks im v = None" using n new by (simp add: numbered_def)
  let ?im = "im\<lparr>im_hooks := (im_hooks im)(v \<mapsto> ?g), im_points := im_points im @ [(?g, v)],
    im_calls := im_calls im @ [(v, Track_addr a (im_guid im))], im_guid := im_guid im + 1, im_instrument_cnt := im_instrument_cnt im + 1\<rparr>"
  have "instrumentInstr ir v im = Some (True, ?im)"
    using n none target put by (simp add: instrumentInstr_def numbered_def)
  moreover have "numbered ir (hs @ [v]) ?im"
    unfolding numbered_def
  proof (intro conjI allI impI)
    show "\<not> im_track_with_printf ?im" "distinct (hs @ [v])" using n new by (simp_all add: numbered_def)
    show "im_points ?im = map (\<lambda>k. (200 + k, (hs @ [v]) ! k)) [0..<length (hs @ [v])]"
      using n g by (simp add: numbered_def nth_append)
    show "im_calls ?im = map (\<lambda>k. ((hs @ [v]) ! k, Track_addr (hook_addr ir ((hs @ [v]) ! k)) (200 + of_nat k))) [0..<length (hs @ [v])]"
      using n target by (simp add: numbered_def nth_append hook_addr_def)
    show "im_hooks ?im ((hs @ [v]) ! k) = Some (200 + k)" if "k < length (hs @ [v])" for k
      using that n new g by (auto simp: numbered_def nth_append less_Suc_eq)
    show "im_hooks ?im i = None" if "i \<notin> set (hs @ [v])" for i using that n by (simp add: numbered_def)
    show "im_guid ?im = 200 + of_nat (length (hs @ [v]))" "im_instrument_cnt ?im = of_nat (length (hs @ [v]))" using n by (simp_all add: numbered_def)
  qed
  ultimately show ?thesis by blast
qed

lemma fold_sv_insert_grows: "\<exists>zs. fold sv_insert xs ys = ys @ zs \<and> length zs \<le> length xs"
proof (induction xs arbitrary: ys)
  case (Cons x xs)
  from Cons [of "sv_insert x ys"] show ?case by (auto simp: sv_insert_def)
qed simp

lemma hooked_length: "length (fold sv_insert (filter (hooked ir) vs) []) \<le> length vs"
proof -
  obtain zs where "fold sv_insert (filter (hooked ir) vs) [] = [] @ zs" "length zs \<le> length (filter (hooked ir) vs)"
    using fold_sv_insert_grows by blast
  then show ?thesis by (metis append_Nil le_trans length_filter_le)
qed

lemma instrument_values_numbered:
  assumes "numbered ir hs im" and "length (fold sv_insert (filter (hooked ir) vs) hs) + 200 < 2 ^ 32"
  shows "instrument_values ir vs (flag, im) = None \<and> (\<exists>v \<in> set vs. is_inst ir v \<and> hook_target_of ir v = Unset_address) \<or>
    (\<exists>im'. instrument_values ir vs (flag, im) = Some (flag \<or> fold sv_insert (filter (hooked ir) vs) hs \<noteq> hs, im') \<and>
      numbered ir (fold sv_insert (filter (hooked ir) vs) hs) im')"
  using assms
proof (induction vs arbitrary: hs im flag)
  case Nil
  then show ?case by (simp add: instrument_values_def)
next
  case (Cons v vs)
  have step: "instrument_values ir (v # vs) (flag, im) =
    (if is_inst ir v then Option.bind (map_option (\<lambda>(b, im'). (flag \<or> b, im')) (instrumentInstr ir v im)) (instrument_values ir vs)
     else instrument_values ir vs (flag, im))" for im flag by (simp add: instrument_values_def)
  show ?case
  proof (cases "is_inst ir v \<and> v \<notin> set hs \<and> hook_target_of ir v \<noteq> Not_hooked")
    case False
    have "instrument_values ir (v # vs) (flag, im) = instrument_values ir vs (flag, im)"
    proof (cases "is_inst ir v")
      case True
      then have "instrumentInstr ir v im = Some (False, im)"
        using False numbered_hooks [OF Cons.prems(1), of v] by (auto simp: instrumentInstr_def)
      then show ?thesis using True by (simp add: step)
    qed (simp add: step)
    moreover have f: "fold sv_insert (filter (hooked ir) (v # vs)) hs = fold sv_insert (filter (hooked ir) vs) hs"
      using False by (auto simp: hooked_def sv_insert_def)
    ultimately show ?thesis using Cons.IH [OF Cons.prems(1), of flag] Cons.prems(2) unfolding f by auto
  next
    case True
    show ?thesis
    proof (cases "hook_target_of ir v")
      case (Hook_at pool a)
      have f: "fold sv_insert (filter (hooked ir) (v # vs)) hs = fold sv_insert (filter (hooked ir) vs) (hs @ [v])"
        using True Hook_at by (simp add: hooked_def sv_insert_def)
      obtain zs where zs: "fold sv_insert (filter (hooked ir) vs) (hs @ [v]) = (hs @ [v]) @ zs" using fold_sv_insert_grows by blast
      obtain im1 where im1: "instrumentInstr ir v im = Some (True, im1)" "numbered ir (hs @ [v]) im1"
        using instrumentInstr_hook [OF Cons.prems(1) _ Hook_at] True Cons.prems(2) [unfolded f zs] by auto
      have "instrument_values ir (v # vs) (flag, im) = instrument_values ir vs (True, im1)" using True im1 by (simp add: step)
      then show ?thesis unfolding f using Cons.IH [OF im1(2), of True] Cons.prems(2) [unfolded f] zs by auto
    next
      case Unset_address
      then have "instrumentInstr ir v im = None"
        using True numbered_hooks [OF Cons.prems(1), of v] by (auto simp: instrumentInstr_def)
      then have "instrument_values ir (v # vs) (flag, im) = None" using True by (simp add: step)
      then show ?thesis using True Unset_address by auto
    qed (use True in simp)
  qed
qed

section \<open>The map of the numbers\<close>

definition entry_for :: "int \<Rightarrow> (nat \<Rightarrow> inst_debug) \<Rightarrow> nat \<Rightarrow> nat \<Rightarrow> guid_entry" where
  "entry_for uninit dbg g i = (case id_subprogram (dbg i) of None \<Rightarrow> new_entry uninit g
     | Some (dir, file, l) \<Rightarrow> \<lparr>ge_guid = int g, ge_source_path = dir, ge_source_file = file, ge_function = id_function (dbg i),
         ge_line = int (case id_line (dbg i) of Some n \<Rightarrow> n | None \<Rightarrow> l), ge_instruction = id_text (dbg i)\<rparr>)"

lemma fill_entry: "id_subprogram (dbg i) \<noteq> None \<Longrightarrow> fillVarGuidMapInfo (dbg i) (new_entry uninit g) = Some (True, entry_for uninit dbg g i)"
  by (auto simp: fillVarGuidMapInfo_def entry_for_def new_entry_def split: option.split)

lemma entry_for_guid [simp]: "ge_guid (entry_for uninit dbg g i) = int g"
  by (simp add: entry_for_def new_entry_def split: option.split)

lemma hook_point_map_numbered:
  assumes "numbered ir hs im" and "\<forall>i \<in> set hs. id_subprogram (dbg i) \<noteq> None"
  shows "hook_point_map uninit dbg im = Some (map (\<lambda>k. entry_for uninit dbg (200 + k) (hs ! k)) [0..<length hs])"
proof -
  let ?f = "\<lambda>(g, i) gm. map_option (\<lambda>(_, e). guid_add gm e) (fillVarGuidMapInfo (dbg i) (new_entry uninit g))"
  have "ofold ?f (map (\<lambda>k. (200 + k, hs ! k)) [0..<n]) [] = Some (map (\<lambda>k. entry_for uninit dbg (200 + k) (hs ! k)) [0..<n])" if "n \<le> length hs" for n
    using that
  proof (induction n)
    case (Suc n)
    have "guid_add (map (\<lambda>k. entry_for uninit dbg (200 + k) (hs ! k)) [0..<n]) (entry_for uninit dbg (200 + n) (hs ! n)) =
        map (\<lambda>k. entry_for uninit dbg (200 + k) (hs ! k)) [0..<n] @ [entry_for uninit dbg (200 + n) (hs ! n)]"
      by (rule guid_add_last) auto
    moreover have "fillVarGuidMapInfo (dbg (hs ! n)) (new_entry uninit (200 + n)) = Some (True, entry_for uninit dbg (200 + n) (hs ! n))"
      using assms(2) Suc.prems by (intro fill_entry) simp
    ultimately show ?case using Suc by (simp add: ofold_append)
  qed simp
  from this [of "length hs"] show ?thesis using assms(1) by (simp add: hook_point_map_def numbered_def)
qed

lemma guid_find_entry:
  assumes "k < n"
  shows "guid_find (map (\<lambda>k. entry_for uninit dbg (200 + k) (hs ! k)) [0..<n]) (200 + int k) = Some (entry_for uninit dbg (200 + k) (hs ! k))"
  unfolding guid_find_def find_Some_iff using assms by (intro exI [of _ k]) simp

lemma map_read_back:
  assumes run: "instrument_values ir vs (False, new_instrumenter False) = Some (b, im)" and bound: "length vs + 200 < 2 ^ 32"
    and debug: "\<And>i. i \<in> set vs \<Longrightarrow> id_subprogram (dbg i) \<noteq> None"
    and printable: "\<And>i k. i \<in> set vs \<Longrightarrow> k < length vs \<Longrightarrow> entry_printable (entry_for uninit dbg (200 + k) i)"
  shows "let hs = fold sv_insert (filter (hooked ir) vs) []; gm = map (\<lambda>k. entry_for uninit dbg (200 + k) (hs ! k)) [0..<length hs]
    in numbered ir hs im \<and> hook_point_map uninit dbg im = Some gm \<and> deserialize_map ignoreBadLine (serialize gm) [] = Done gm"
proof -
  let ?hs = "fold sv_insert (filter (hooked ir) vs) []"
  have "length ?hs + 200 < 2 ^ 32" using bound hooked_length [of ir vs] by simp
  from instrument_values_numbered [OF new_instrumenter_numbered [of ir] this, where flag = False] have n: "numbered ir ?hs im" using run by auto
  have sub: "set ?hs \<subseteq> set vs" by (auto simp: fold_sv_insert)
  have len: "length ?hs \<le> length vs" by (rule hooked_length)
  let ?gm = "map (\<lambda>k. entry_for uninit dbg (200 + k) (?hs ! k)) [0..<length ?hs]"
  have gm: "hook_point_map uninit dbg im = Some ?gm" using debug sub by (intro hook_point_map_numbered [OF n]) blast
  have "entry_printable e" if e: "e \<in> set ?gm" for e
  proof -
    obtain k where "k < length ?hs" "e = entry_for uninit dbg (200 + k) (?hs ! k)" using e by auto
    then show ?thesis using printable [of "?hs ! k" k] len sub by (meson less_le_trans nth_mem subsetD)
  qed
  moreover have "sorted_wrt (<) (map ge_guid ([] @ ?gm))" by (simp add: comp_def sorted_wrt_map)
  ultimately have "deserialize_map ignoreBadLine (serialize ?gm) [] = Done ?gm"
    using deserialize_serialize [of ?gm "[]"] by simp
  then show ?thesis using n gm by (simp add: Let_def)
qed

lemma call_attributed:
  assumes run: "instrument_values ir vs (False, new_instrumenter False) = Some (b, im)" and bound: "length vs + 200 < 2 ^ 32"
    and debug: "\<And>i. i \<in> set vs \<Longrightarrow> id_subprogram (dbg i) \<noteq> None"
    and printable: "\<And>i k. i \<in> set vs \<Longrightarrow> k < length vs \<Longrightarrow> entry_printable (entry_for uninit dbg (200 + k) i)"
    and call: "(i, Track_addr v g) \<in> set (im_calls im)" and "a \<noteq> 0"
  shows "\<exists>gm item e. hook_point_map uninit dbg im = Some gm \<and> deserialize_map ignoreBadLine (serialize gm) [] = Done gm \<and>
    parse_item (Some gm) (track_addr a (unat g)) = Done item \<and> ti_addr item = a \<and> ti_var item = Some e \<and>
    ge_function e = id_function (dbg i) \<and> ge_instruction e = id_text (dbg i) \<and> v = hook_addr ir i"
proof -
  let ?hs = "fold sv_insert (filter (hooked ir) vs) []"
  let ?gm = "map (\<lambda>k. entry_for uninit dbg (200 + k) (?hs ! k)) [0..<length ?hs]"
  have n: "numbered ir ?hs im" and gm: "hook_point_map uninit dbg im = Some ?gm" and read: "deserialize_map ignoreBadLine (serialize ?gm) [] = Done ?gm"
    using map_read_back [OF run bound debug printable, of ignoreBadLine] by (simp_all add: Let_def)
  have sub: "set ?hs \<subseteq> set vs" by (auto simp: fold_sv_insert)
  have len: "length ?hs \<le> length vs" by (rule hooked_length)
  obtain k where k: "k < length ?hs" "i = ?hs ! k" "v = hook_addr ir i" "g = 200 + of_nat k" using call n by (auto simp: numbered_def)
  have g: "unat g = 200 + k" using unat_guid [of k] k(1,4) len bound by simp
  have find: "guid_find ?gm (int (unat g)) = Some (entry_for uninit dbg (200 + k) i)" using guid_find_entry [OF k(1), of uninit dbg ?hs] g k(2) by simp
  have "i \<in> set vs" using k(1,2) sub nth_mem by blast
  then have e: "ge_function (entry_for uninit dbg (200 + k) i) = id_function (dbg i)" "ge_instruction (entry_for uninit dbg (200 + k) i) = id_text (dbg i)"
    using debug [of i] by (auto simp: entry_for_def split: option.split)
  have "unat g < 2 ^ 32" using unsigned_less [of g] by simp
  then obtain item :: "'a trace_item" where "parse_item (Some ?gm) (track_addr a (unat g)) = Done item" "ti_addr item = a"
    "ti_var item = guid_find ?gm (int (unat g))" using parse_track [OF assms(6), of "unat g" "Some ?gm"] by auto
  then show ?thesis using gm read find e k(3) by auto
qed

section \<open>Properties\<close>

text \<open>
  Numbering. Unless it comes to an instruction whose address is not set, instrumenting a list of values inserts exactly one call behind each
  instruction that has an address, in the order of the list, with consecutive numbers from 200 on, and records each number with its instruction.
\<close>

theorem instrument_values_numbers:
  assumes "length vs + 200 < 2 ^ 32" and "\<And>v. v \<in> set vs \<Longrightarrow> is_inst ir v \<Longrightarrow> hook_target_of ir v \<noteq> Unset_address"
  shows "let hs = fold sv_insert (filter (hooked ir) vs) []
    in \<exists>im. instrument_values ir vs (False, new_instrumenter False) = Some (hs \<noteq> [], im) \<and>
      im_calls im = map (\<lambda>k. (hs ! k, Track_addr (hook_addr ir (hs ! k)) (200 + of_nat k))) [0..<length hs] \<and>
      im_points im = map (\<lambda>k. (200 + k, hs ! k)) [0..<length hs] \<and> im_instrument_cnt im = of_nat (length hs)"
proof -
  let ?hs = "fold sv_insert (filter (hooked ir) vs) []"
  have "length ?hs + 200 < 2 ^ 32" using assms(1) hooked_length [of ir vs] by simp
  from instrument_values_numbered [OF new_instrumenter_numbered [of ir] this, where flag = False]
  obtain im where "instrument_values ir vs (False, new_instrumenter False) = Some (?hs \<noteq> [], im)" "numbered ir ?hs im"
    using assms(2) by auto
  then show ?thesis unfolding Let_def by (intro exI [of _ im]) (simp add: numbered_def)
qed

text \<open>
  A reported address is attributed to the instruction it comes from. After instrumenting a list of values whose functions have debug information and whose entries
  can be printed, writing the map and reading it back, a line that a call behind an instruction prints for a non-null
  address is parsed into an item with this address whose entry is the one of this instruction.
\<close>

theorem traced_address_attributed:
  assumes run: "instrument_values ir vs (False, new_instrumenter False) = Some (b, im)" and bound: "length vs + 200 < 2 ^ 32"
    and debug: "\<And>i. i \<in> set vs \<Longrightarrow> id_subprogram (dbg i) \<noteq> None"
    and printable: "\<And>i k. i \<in> set vs \<Longrightarrow> k < length vs \<Longrightarrow> entry_printable (entry_for uninit dbg (200 + k) i)"
    and call: "(i, Track_addr v g) \<in> set (im_calls im)" and "a \<noteq> 0"
  shows "\<exists>gm item e. hook_point_map uninit dbg im = Some gm \<and> deserialize_map ignoreBadLine (serialize gm) [] = Done gm \<and>
    parse_item (Some gm) (track_addr a (unat g)) = Done item \<and> ti_addr item = a \<and> ti_var item = Some e \<and>
    ge_function e = id_function (dbg i) \<and> ge_instruction e = id_text (dbg i) \<and> v = hook_addr ir i"
  using call_attributed [OF assms] .

text \<open>
  A store fence cannot be instrumented: for a call of the fence intrinsic the variable that holds the address is used without ever being set, because the code
  that treated fences separately is commented out.
\<close>

theorem fence_not_instrumentable:
  assumes "iv_inst (ir i) = Some (Call (Some f) args)" and "iv_name (ir f) = ''llvm.x86.sse.sfence''" and "im_hooks im i = None"
  shows "instrumentInstr ir i im = None"
proof -
  have "hook_token ''llvm.x86.sse.sfence'' = ''sfence''" by code_simp
  then have "hook_target_of ir i = Unset_address"
    using assms(1,2) by (simp add: hook_target_of_def hook_target_of_call_def callReturnsPmemVar_def pmdkPMEMVariableReturnSet_def)
  then show ?thesis using assms(3) by (simp add: instrumentInstr_def)
qed

definition sample_debug :: "nat \<Rightarrow> inst_debug" where
  "sample_debug i = \<lparr>id_line = (if i = 4 then Some 12 else None), id_function = ''main'', id_subprogram = Some (''/src'', ''a.c'', 7),
     id_text = (if i = 1 then ''%1 = call i8* @pmem_map_file(i8* %p, i64 1024)'' else if i = 4 then ''%4 = load i8*, i8** %2'' else ''%5 = load i8*, i8** %2'')\<rparr>"

lemma sample_run: "instrument_values sample_ir [1, 4, 6, 5] (False, new_instrumenter False) \<noteq> None"
  by code_simp

theorem instrument_values_numbers_witness:
  "\<exists>im. instrument_values sample_ir [1, 4, 6, 5, 4] (False, new_instrumenter False) = Some (True, im) \<and>
     im_calls im = [(1, Track_addr 1 200), (4, Track_addr 2 201), (5, Track_addr 2 202)] \<and> im_points im = [(200, 1), (201, 4), (202, 5)]"
proof -
  have ok: "hook_target_of sample_ir v \<noteq> Unset_address" if "v \<in> set [1, 4, 6, 5, 4]" for v
    using that by (auto simp: sample_ir_def hook_target_of_def hook_target_of_call_def hook_token_def callReturnsPmemVar_def pmdkPMEMVariableReturnSet_def
      call_operand_def Let_def)
  have hs: "fold sv_insert (filter (hooked sample_ir) [1, 4, 6, 5, 4]) [] = [1, 4, 5]"
    by (auto simp: hooked_def is_inst_def sample_ir_def hook_target_of_def hook_target_of_call_def hook_token_def callReturnsPmemVar_def
      pmdkPMEMVariableReturnSet_def sv_insert_def)
  have "hook_addr sample_ir 1 = 1" "hook_addr sample_ir 4 = 2" "hook_addr sample_ir 5 = 2"
    by (simp_all add: hook_addr_def sample_ir_def hook_target_of_def hook_target_of_call_def hook_token_def callReturnsPmemVar_def pmdkPMEMVariableReturnSet_def)
  then show ?thesis
    using instrument_values_numbers [of "[1, 4, 6, 5, 4]" sample_ir] ok unfolding Let_def hs by (auto simp: upt_rec)
qed

theorem fence_not_instrumentable_witness:
  "instrumentInstr (sample_ir(20 := \<lparr>iv_inst = Some (Call (Some 21) []), iv_name = [], iv_users = []\<rparr>,
     21 := \<lparr>iv_inst = None, iv_name = ''llvm.x86.sse.sfence'', iv_users = [20]\<rparr>)) 20 (new_instrumenter False) = None"
  by (rule fence_not_instrumentable [of _ _ 21 "[]"]) (simp_all add: new_instrumenter_def)

theorem traced_address_attributed_witness:
  "\<exists>gm item e. map ge_guid gm = [200, 201, 202] \<and> deserialize_map False (serialize gm) [] = Done gm \<and>
     parse_item (Some gm) (track_addr 0x7fba19400000 201) = Done (item :: nat trace_item) \<and> ti_addr item = 0x7fba19400000 \<and>
     ti_var item = Some e \<and> ge_instruction e = ''%4 = load i8*, i8** %2''"
proof -
  obtain b im where run: "instrument_values sample_ir [1, 4, 6, 5] (False, new_instrumenter False) = Some (b, im)" using sample_run by auto
  have calls: "map_option (\<lambda>(b, im). im_calls im) (instrument_values sample_ir [1, 4, 6, 5] (False, new_instrumenter False)) =
      Some [(1, Track_addr 1 200), (4, Track_addr 2 201), (5, Track_addr 2 202)]" by code_simp
  have points: "map_option (\<lambda>(b, im). map_option (map ge_guid) (hook_point_map 0 sample_debug im))
      (instrument_values sample_ir [1, 4, 6, 5] (False, new_instrumenter False)) = Some (Some [200, 201, 202])" by code_simp
  have call: "(4, Track_addr 2 201) \<in> set (im_calls im)" using calls run by auto
  have printable: "entry_printable (entry_for 0 sample_debug (200 + k) i)" if "i \<in> set [1, 4, 6, 5]" "k < length [1, 4, 6, 5 :: nat]" for i k
    using that by (auto simp: entry_printable_def entry_for_def sample_debug_def FieldSeparator_def)
  have "\<exists>gm (item :: nat trace_item) e. hook_point_map 0 sample_debug im = Some gm \<and> deserialize_map False (serialize gm) [] = Done gm \<and>
    parse_item (Some gm) (track_addr 0x7fba19400000 (unat (201 :: 32 word))) = Done item \<and> ti_addr item = 0x7fba19400000 \<and> ti_var item = Some e \<and>
    ge_function e = id_function (sample_debug 4) \<and> ge_instruction e = id_text (sample_debug 4) \<and> 2 = hook_addr sample_ir 4"
    by (rule traced_address_attributed [OF run _ _ printable call]) (simp_all add: sample_debug_def)
  then obtain gm and item :: "nat trace_item" and e where r: "hook_point_map 0 sample_debug im = Some gm"
    "deserialize_map False (serialize gm) [] = Done gm" "parse_item (Some gm) (track_addr 0x7fba19400000 201) = Done item"
    "ti_addr item = 0x7fba19400000" "ti_var item = Some e" "ge_instruction e = id_text (sample_debug 4)" by auto
  have "map ge_guid gm = [200, 201, 202]" using points run r(1) by simp
  moreover have "ge_instruction e = ''%4 = load i8*, i8** %2''" using r(6) by (simp add: sample_debug_def)
  ultimately show ?thesis using r(2-5) by (intro exI [of _ gm] exI [of _ item] exI [of _ e]) simp
qed

end
