(* ===== verification/SlicePass.thy ===== *)
theory SlicePass
  imports SliceFault Instrumenter
begin

unbundle bit_operations_syntax

text \<open>
  The pass that slices a module from given instructions and instruments the persistent points of the slices (\<open>SlicingPass\<close> in
  \<open>analyzer/lib/Slicing/SlicingPass.cpp\<close>). It brings the slicer, the locator of persistent variables and the instrumenter together. The lemmas
  show that it instruments exactly the persistent variables that the instructions the fault depends on are users of, although it passes over the slices that
  it has classified as volatile.
\<close>

section \<open>Operations\<close>

text \<open>The parts of the pass that change: the slicer, the locators of the functions, the counts of slices, the instrumenter and whether it has instrumented something.\<close>

record slice_pass =
  pa_slicer :: "nat dg_slicer"
  pa_locators :: "nat \<rightharpoonup> locator"
  pa_counts :: persistence_counts
  pa_im :: instrumenter
  pa_instrumented :: bool

text \<open>
  \<open>instructionSlice\<close>: the slices of an instruction, appended to the given list and classified; \<^term>\<open>None\<close> also stands for the null pointer that
  is dereferenced if there is no slice graph.
\<close>

definition instructionSlice ::
    "(nat \<Rightarrow> nat) \<Rightarrow> nat module_graph \<Rightarrow> nat \<Rightarrow> nat list \<Rightarrow> nat slice list \<Rightarrow> persistence_counts \<Rightarrow> nat dg_slicer \<Rightarrow>
     (nat slice list \<times> persistence_counts \<times> nat dg_slicer) option" where
  "instructionSlice func_of M fault_inst persistent_vars slices counts ds = do {
     (sg, slice_id, ds1) \<leftarrow> slice_instr func_of M fault_inst 0 Storing DEFAULT_DEPENDENCY_FLAGS ds;
     slice_graph \<leftarrow> sg;
     (_, slices1) \<leftarrow> computeSlices func_of True False slice_graph slices;
     let (slices2, counts2) = set_all_persistence persistent_vars slices1 counts;
     Some (slices2, counts2, ds1)
   }"

definition instrument_slices :: "ir \<Rightarrow> (nat \<rightharpoonup> nat list) \<Rightarrow> nat slice list \<Rightarrow> bool \<times> instrumenter \<Rightarrow> (bool \<times> instrumenter) option" where
  "instrument_slices ir def_map = ofold (\<lambda>s (instrumented, im). if sc_persistence s = Volatile then Some (instrumented, im)
     else map_option (\<lambda>(b, im'). (instrumented \<or> b, im')) (instrumentSlice ir s def_map im))"

text \<open>The body of the loop over the instructions to slice from; \<open>fns\<close> gives the functions of the module.\<close>

definition slice_pass_round ::
    "bool \<Rightarrow> ir \<Rightarrow> (nat \<Rightarrow> ir_function) \<Rightarrow> (nat \<Rightarrow> nat) \<Rightarrow> nat module_graph \<Rightarrow> nat \<Rightarrow> slice_pass \<Rightarrow> slice_pass option" where
  "slice_pass_round InstrumentPmemSlice ir fns func_of M fault_inst st = do {
     let F = func_of fault_inst;
     (_, locator) \<leftarrow> runOnFunction ir (fns F) (case pa_locators st F of None \<Rightarrow> new_locator | Some lo \<Rightarrow> lo);
     (slices, counts, ds) \<leftarrow> instructionSlice func_of M fault_inst (lo_vars locator) [] (pa_counts st) (pa_slicer st);
     (instrumented, im) \<leftarrow> (if InstrumentPmemSlice then instrument_slices ir (lo_defs locator) slices (pa_instrumented st, pa_im st)
       else Some (pa_instrumented st, pa_im st));
     Some (st\<lparr>pa_slicer := ds, pa_locators := (pa_locators st)(F \<mapsto> locator), pa_counts := counts, pa_im := im, pa_instrumented := instrumented\<rparr>)
   }"

definition pass_flags :: flags where
  "pass_flags = ENABLE_PTA OR INTER_PROCEDURAL OR SUPPORT_THREADS"

text \<open>
  The result says whether the module was modified, with the lines of the map if it was written. \<open>start_insts\<close> are the instructions that the slicing criteria
  select, if they can be parsed; \<open>construct\<close> builds the dependence graph, with a result that is not looked at.
\<close>

definition slicing_runOnModule ::
    "bool \<Rightarrow> slice_direction \<Rightarrow> ir \<Rightarrow> (nat \<Rightarrow> ir_function) \<Rightarrow> (nat \<Rightarrow> nat) \<Rightarrow> nat module_graph \<Rightarrow> (nat graph_options \<Rightarrow> (nat \<times> nat) list option) \<Rightarrow> bool \<Rightarrow>
     (nat \<Rightarrow> inst_debug) \<Rightarrow> int \<Rightarrow> bool \<Rightarrow> nat list option \<Rightarrow> persistence_counts \<Rightarrow> (bool \<times> string list option \<times> slice_pass option) option" where
  "slicing_runOnModule InstrumentPmemSlice dir ir fns func_of M construct has_main dbg uninit opens start_insts counts = (case start_insts of
     None \<Rightarrow> Some (False, None, None)
   | Some insts \<Rightarrow>
       let slicer = \<lparr>ds_direction = dir, ds_last_slice_id = 0, ds_dependency_computed = False, ds_func_dgs = None, ds_marks = no_marks,
             ds_statistics = \<lparr>nodesTotal = 0, nodesRemoved = 0, blocksTotal = 0, blocksRemoved = 0, funcsTotal = 0, funcsRemoved = 0\<rparr>\<rparr>;
         (_, slicer1) = computeDependencies (construct (createDgOptions pass_flags None)) slicer;
         (ok, im) = (if InstrumentPmemSlice then initHookFuncs has_main (new_instrumenter False) else (True, new_instrumenter False))
       in if \<not> ok then Some (False, None, None)
          else do {
            st \<leftarrow> ofold (slice_pass_round InstrumentPmemSlice ir fns func_of M) insts
              \<lparr>pa_slicer = slicer1, pa_locators = Map.empty, pa_counts = counts, pa_im = im, pa_instrumented = False\<rparr>;
            if InstrumentPmemSlice then do {
              (_, ls) \<leftarrow> writeGuidHookPointMap uninit dbg opens (pa_im st);
              Some (pa_instrumented st, Some ls, Some st)
            } else Some (pa_instrumented st, None, Some st)
          })"

section \<open>Instrumenting slices\<close>

text \<open>The values that are passed to the instrumenter.\<close>

definition slice_defs :: "ir \<Rightarrow> (nat \<rightharpoonup> nat list) \<Rightarrow> nat slice \<Rightarrow> nat list" where
  "slice_defs ir def_map s = concat (map (\<lambda>(v, _). if is_inst ir v then (case def_map v of None \<Rightarrow> [] | Some ds \<Rightarrow> ds) else []) (sc_dep_vals s))"

definition slices_defs :: "ir \<Rightarrow> (nat \<rightharpoonup> nat list) \<Rightarrow> nat slice list \<Rightarrow> nat list" where
  "slices_defs ir def_map ss = concat (map (\<lambda>s. if sc_persistence s = Volatile then [] else slice_defs ir def_map s) ss)"

lemma instrument_values_append: "instrument_values ir (xs @ ys) st = Option.bind (instrument_values ir xs st) (instrument_values ir ys)"
  by (simp add: instrument_values_def ofold_append)

lemma instrument_values_flag:
  "instrument_values ir vs (a \<or> b, im) = map_option (\<lambda>(c, im'). (a \<or> c, im')) (instrument_values ir vs (b, im))"
proof (induction vs arbitrary: b im)
  case (Cons v vs)
  have step: "instrument_values ir (v # vs) (c, im) =
    (if is_inst ir v then (case instrumentInstr ir v im of None \<Rightarrow> None | Some (d, im') \<Rightarrow> instrument_values ir vs (c \<or> d, im'))
     else instrument_values ir vs (c, im))" for c by (auto simp: instrument_values_def split: option.split)
  show ?case
    by (simp add: step Cons.IH disj_assoc split: option.split prod.split)
qed (simp add: instrument_values_def)

lemma instrumentSlice_values: "instrumentSlice ir s def_map im = instrument_values ir (slice_defs ir def_map s) (False, im)"
proof -
  have "ofold (\<lambda>(v, _) st. if is_inst ir v then (case def_map v of None \<Rightarrow> Some st | Some defs \<Rightarrow> instrument_values ir defs st) else Some st) vs st =
    instrument_values ir (concat (map (\<lambda>(v, _). if is_inst ir v then (case def_map v of None \<Rightarrow> [] | Some ds \<Rightarrow> ds) else []) vs)) st"
    for vs :: "(nat \<times> int) list" and st
  proof (induction vs arbitrary: st)
    case (Cons v vs)
    note IH = ext [where f = "ofold _ vs", OF Cons.IH]
    have "instrument_values ir [] st = Some st" for st by (simp add: instrument_values_def)
    then show ?case unfolding ofold.simps IH by (cases v) (auto simp: instrument_values_append split: option.split)
  qed (simp add: instrument_values_def)
  then show ?thesis by (simp add: instrumentSlice_def slice_defs_def)
qed

lemma instrument_slices_values: "instrument_slices ir def_map ss (b, im) = instrument_values ir (slices_defs ir def_map ss) (b, im)"
proof (induction ss arbitrary: b im)
  case (Cons s ss)
  have "map_option (\<lambda>(c, im'). (b \<or> c, im')) (instrumentSlice ir s def_map im) = instrument_values ir (slice_defs ir def_map s) (b, im)"
    using instrument_values_flag [of ir "slice_defs ir def_map s" b False im] by (simp add: instrumentSlice_values)
  moreover have "instrument_slices ir def_map (s # ss) (b, im) = (if sc_persistence s = Volatile then instrument_slices ir def_map ss (b, im)
      else Option.bind (map_option (\<lambda>(c, im'). (b \<or> c, im')) (instrumentSlice ir s def_map im)) (instrument_slices ir def_map ss))"
    by (simp add: instrument_slices_def)
  moreover have "instrument_slices ir def_map ss = instrument_values ir (slices_defs ir def_map ss)" using Cons.IH by auto
  moreover have "slices_defs ir def_map (s # ss) = (if sc_persistence s = Volatile then [] else slice_defs ir def_map s) @ slices_defs ir def_map ss"
    by (simp add: slices_defs_def)
  ultimately show ?case by (cases "sc_persistence s = Volatile") (simp_all add: instrument_values_append)
qed (simp add: instrument_slices_def instrument_values_def slices_defs_def)

section \<open>The slices of an instruction\<close>

lemma default_flags_nonzero: "sliceRelationOpts dir DEFAULT_DEPENDENCY_FLAGS \<noteq> 0"
proof -
  define options where "options = \<lparr>dg_entry_only = False, dg_enable_pta = False, dg_enable_ctrl = False, dg_slice_ctrl = False,
    dg_support_thread = False, dg_intra_procedural = False, dg_inter_procedural = False\<rparr>"
  have "slice_dep_flags options = DEFAULT_DEPENDENCY_FLAGS" by (simp add: slice_dep_flags_def options_def)
  then show ?thesis using dep_flags_nonzero [of dir options] by simp
qed

lemma instructionSlice_returns:
  assumes ok: "dg_ok (md_graph M) (sliceRelationOpts (ds_direction ds) DEFAULT_DEPENDENCY_FLAGS)"
    and ds: "ds_func_dgs ds = Some funcs" "\<forall>(f, g) \<in> set funcs. md_subgraphs M g \<noteq> None" "ds_last_slice_id ds = 0" "\<forall>n. mk_node_slice (ds_marks ds) n = 0"
    and found: "map_of funcs (func_of fault) = Some g" "md_findNode M g fault = Some start" "dg_nodes (md_graph M) start = Some dn"
      "dn_value dn = Some (fault, opc)"
  shows "\<exists>slices counts' ds'. instructionSlice func_of M fault vars [] counts ds = Some (slices, counts', ds') \<and>
    slice_vals slices = insert fault (reached_values (md_graph M)
      (walk_reach (md_graph M) (ds_direction ds) (sliceRelationOpts (ds_direction ds) DEFAULT_DEPENDENCY_FLAGS) start)) \<and>
    (\<forall>s \<in> set slices. sc_persistence s = (let vals = fst ` set (sc_dep_vals s) in
       if vals \<subseteq> set vars then Persistent else if vals \<inter> set vars = {} then Volatile else Mixed))"
proof -
  let ?dir = "ds_direction ds"
  let ?opts = "sliceRelationOpts ?dir DEFAULT_DEPENDENCY_FLAGS"
  let ?R = "walk_reach (md_graph M) ?dir ?opts start"
  have "\<exists>st ds'. slice_from_node M start 0 Storing DEFAULT_DEPENDENCY_FLAGS ds = Some (Some (wk_graph st), 1, ds') \<and>
    walk_inv (md_graph M) ?dir ?opts start fault (unat (1 :: 32 word)) st \<and> wk_queue st = [] \<and> set (wk_seen st) = ?R"
    using slice_from_node_stores [of M ds DEFAULT_DEPENDENCY_FLAGS start dn fault opc funcs] ok default_flags_nonzero found(3,4) ds by auto
  then obtain st ds' where s: "slice_from_node M start 0 Storing DEFAULT_DEPENDENCY_FLAGS ds = Some (Some (wk_graph st), 1, ds')"
    and inv: "walk_inv (md_graph M) ?dir ?opts start fault (unat (1 :: 32 word)) st" and q: "wk_queue st = []" and seen: "set (wk_seen st) = ?R" by blast
  have wf: "graph_wf (wk_graph st)" by (rule walk_invD(1) [OF inv])
  have "sliced_value (md_graph M) start \<in> {None, Some fault}" using found(3,4) by (simp add: sliced_value_def)
  note vals = reached_values_graph [OF inv q seen this, of func_of]
  obtain slices where sl: "computeSlices func_of True False (wk_graph st) [] = Some (True, slices)"
    "slice_vals slices = node_value (wk_graph st) ` dep_reach func_of True (wk_graph st)"
    "\<forall>s \<in> set slices. \<exists>vs. sc_dep_vals s = (node_value (wk_graph st) (sg_root (wk_graph st)), 0) # vs"
    using computeSlices_returns [OF wf, of func_of True] by blast
  obtain slices2 counts2 where p: "set_all_persistence vars slices counts = (slices2, counts2)" by fastforce
  have nonempty: "\<forall>s \<in> set slices. sc_dep_vals s \<noteq> []" using sl(3) by auto
  note P = classified_slices [OF nonempty p]
  have "instructionSlice func_of M fault vars [] counts ds = Some (slices2, counts2, ds')"
    using s found(1,2) ds(1) sl(1) p by (simp add: instructionSlice_def slice_instr_def getDependenceGraph_def)
  moreover have "slice_vals slices2 = insert fault (reached_values (md_graph M) ?R)" using P(1) sl(2) vals by simp
  ultimately show ?thesis using P(3) by blast
qed

text \<open>The persistent variables of a function, and what is instrumented for the values of slices.\<close>

definition function_vars :: "ir \<Rightarrow> ir_function \<Rightarrow> nat set" where
  "function_vars ir F = (\<Union>c\<in>set (if_insts F). with_users ir (pmem_roots ir c))"

lemma slices_defs_set:
  assumes pairs: "def_pairs lo = {(i, d). d \<in> set (lo_vars lo) \<and> i \<in> users_of ir d}"
    and vars: "set (lo_vars lo) = function_vars ir F"
    and kinds: "\<forall>s \<in> set slices. sc_persistence s = (let vals = fst ` set (sc_dep_vals s) in
      if vals \<subseteq> set (lo_vars lo) then Persistent else if vals \<inter> set (lo_vars lo) = {} then Volatile else Mixed)"
  shows "set (slices_defs ir (lo_defs lo) slices) = {d \<in> set (lo_vars lo). \<exists>j \<in> slice_vals slices. j \<in> users_of ir d}"
proof -
  have point: "d \<in> (case lo_defs lo v of None \<Rightarrow> {} | Some ds \<Rightarrow> set ds) \<longleftrightarrow> d \<in> set (lo_vars lo) \<and> v \<in> users_of ir d" for v d
  proof -
    have "d \<in> (case lo_defs lo v of None \<Rightarrow> {} | Some ds \<Rightarrow> set ds) \<longleftrightarrow> (v, d) \<in> def_pairs lo" by (simp add: def_pairs_def def_points_def)
    then show ?thesis unfolding pairs by blast
  qed
  have elem: "d \<in> set (if is_inst ir v then case lo_defs lo v of None \<Rightarrow> [] | Some ds \<Rightarrow> ds else []) \<longleftrightarrow> d \<in> set (lo_vars lo) \<and> v \<in> users_of ir d" for v d
  proof (cases "is_inst ir v")
    case True
    then show ?thesis using point [of d v] by (cases "lo_defs lo v") simp_all
  next
    case False
    then show ?thesis using users_of_inst by auto
  qed
  have conc: "d \<in> set (concat (map (\<lambda>(v, _). f v) vs)) \<longleftrightarrow> (\<exists>v \<in> fst ` set vs. d \<in> set (f v))"
    for f :: "nat \<Rightarrow> nat list" and vs :: "(nat \<times> int) list" and d
    by (induction vs) auto
  have one: "set (slice_defs ir (lo_defs lo) s) = {d \<in> set (lo_vars lo). \<exists>j \<in> fst ` set (sc_dep_vals s). j \<in> users_of ir d}" for s
    unfolding slice_defs_def set_eq_iff conc elem mem_Collect_eq by blast
  have closed: "users_of ir d \<subseteq> set (lo_vars lo)" if "d \<in> set (lo_vars lo)" for d
    using vars_closed [OF vars [unfolded function_vars_def] that] .
  have "set (slice_defs ir (lo_defs lo) s) = {}" if s: "s \<in> set slices" "sc_persistence s = Volatile" for s
  proof -
    have "fst ` set (sc_dep_vals s) \<inter> set (lo_vars lo) = {}" using kinds s by (auto simp: Let_def split: if_splits)
    then show ?thesis unfolding one using closed by blast
  qed
  then have "set (slices_defs ir (lo_defs lo) slices) = (\<Union>s \<in> set slices. set (slice_defs ir (lo_defs lo) s))"
    by (auto simp: slices_defs_def split: if_splits)
  then show ?thesis unfolding one by (auto simp: slice_vals_def)
qed

section \<open>Properties\<close>


text \<open>The value 10 loads through the result 11 of a mapping; 12 is not a user of persistent memory.\<close>

definition pass_ir :: ir where
  "pass_ir v =
     (if v = 10 then \<lparr>iv_inst = Some (Load 11), iv_name = [], iv_users = []\<rparr>
      else if v = 11 then \<lparr>iv_inst = Some (Call (Some 20) [30, 31]), iv_name = [], iv_users = [10]\<rparr>
      else if v = 12 then \<lparr>iv_inst = Some (Load 30), iv_name = [], iv_users = []\<rparr>
      else if v = 20 then \<lparr>iv_inst = None, iv_name = ''pmem_map_file'', iv_users = [11]\<rparr>
      else \<lparr>iv_inst = None, iv_name = [], iv_users = []\<rparr>)"

definition pass_function :: ir_function where
  "pass_function = \<lparr>if_declaration = False, if_insts = [11, 10, 12]\<rparr>"

definition pass_state :: slice_pass where
  "pass_state = \<lparr>pa_slicer = \<lparr>ds_direction = Backward, ds_last_slice_id = 0, ds_dependency_computed = True, ds_func_dgs = Some [(0, 0)], ds_marks = no_marks,
       ds_statistics = \<lparr>nodesTotal = 0, nodesRemoved = 0, blocksTotal = 0, blocksRemoved = 0, funcsTotal = 0, funcsRemoved = 0\<rparr>\<rparr>,
     pa_locators = Map.empty, pa_counts = \<lparr>pc_volatile = 0, pc_persistent = 0, pc_mixed = 0\<rparr>, pa_im = new_instrumenter False, pa_instrumented = False\<rparr>"

lemma pass_ir_finite: "finite (user_reach pass_ir v)"
proof -
  have "user_steps pass_ir `` (insert v {10..20}) \<subseteq> insert v {10..20}"
    by (auto simp: user_steps_def user_target_def pass_ir_def is_inst_def split: if_splits)
  then have "user_reach pass_ir v \<subseteq> insert v {10..20}" by (intro closed_reach) auto
  then show ?thesis by (rule finite_subset) simp
qed

lemma pass_function_vars: "function_vars pass_ir pass_function \<subseteq> {10, 11}"
proof -
  have "user_reach pass_ir 11 \<subseteq> {10, 11}"
    by (rule closed_reach) (auto simp: user_steps_def user_target_def pass_ir_def split: if_splits)
  then have "users_of pass_ir 11 \<subseteq> {10, 11}" by (auto simp: users_of_def)
  moreover have "pmem_roots pass_ir 11 \<subseteq> {11}" "pmem_roots pass_ir 10 = {}" "pmem_roots pass_ir 12 = {}"
    by (auto simp: pmem_roots_def pass_ir_def memkind_roots_def)
  ultimately show ?thesis by (auto simp: function_vars_def pass_function_def with_users_def)
qed


end
