(* ===== verification/AnalyzerTools.thy ===== *)
theory AnalyzerTools
  imports SlicePass Preparation
begin

unbundle bit_operations_syntax

text \<open>
  The command line tools of the analyzer (\<open>analyzer/tools\<close>): the slicer, the instrumentor, the extractor, the analyzer of traces and the locator. They drive the
  parts that the other theories model; what a tool adds is the order of the steps, the global state they share, and what it reports. The lemmas show that the slicer
  does what the pass does, and which instructions the instrumentor instruments.
\<close>

section \<open>The slicer\<close>

text \<open>The options on the command line that choose what is computed; the names of the files that are written are left out.\<close>

record slicer_options =
  sl_direction :: slice_direction
  sl_criteria :: string
  sl_inst :: string
  sl_func :: string
  sl_inst_no :: int
  sl_hook_pmem :: bool
  sl_pta :: bool
  sl_ctrl :: bool
  sl_thread :: bool
  sl_intra :: bool
  sl_inter :: bool
  sl_entry_only :: bool

definition default_slicer_options :: slicer_options where
  "default_slicer_options = \<lparr>sl_direction = Backward, sl_criteria = [], sl_inst = [], sl_func = [], sl_inst_no = 0, sl_hook_pmem = False, sl_pta = True, sl_ctrl = False, sl_thread = True, sl_intra = False, sl_inter = True, sl_entry_only = False\<rparr>"

definition tool_dg_flags :: "slicer_options \<Rightarrow> flags" where
  "tool_dg_flags opts = (let
     f0 = 0;
     f1 = (if sl_entry_only opts then f0 OR ENTRY_ONLY else f0);
     f2 = (if sl_pta opts then f1 OR ENABLE_PTA else f1);
     f3 = (if sl_ctrl opts then f2 OR ENABLE_CONTROL_DEP else f2);
     f4 = (if sl_thread opts then f3 OR SUPPORT_THREADS else f3);
     f5 = (if sl_intra opts then f4 OR INTRA_PROCEDURAL else f4)
   in if sl_inter opts then f5 OR INTER_PROCEDURAL else f5)"

definition tool_slice_flags :: "slicer_options \<Rightarrow> flags" where
  "tool_slice_flags opts = (if sl_ctrl opts then DEFAULT_DEPENDENCY_FLAGS OR CONTROL else DEFAULT_DEPENDENCY_FLAGS)"

text \<open>As in the pass, except that nothing is done without a slice graph.\<close>

definition tool_instructionSlice ::
    "slicer_options \<Rightarrow> (nat \<Rightarrow> nat) \<Rightarrow> nat module_graph \<Rightarrow> nat \<Rightarrow> nat list \<Rightarrow> nat slice list \<Rightarrow> persistence_counts \<Rightarrow> nat dg_slicer \<Rightarrow>
     (nat slice list \<times> persistence_counts \<times> nat dg_slicer) option" where
  "tool_instructionSlice opts func_of M fault_inst persistent_vars slices counts ds = do {
     (sg, slice_id, ds1) \<leftarrow> slice_instr func_of M fault_inst 0 Storing (tool_slice_flags opts) ds;
     case sg of None \<Rightarrow> Some (slices, counts, ds1)
     | Some slice_graph \<Rightarrow> do {
         (_, slices1) \<leftarrow> computeSlices func_of True False slice_graph slices;
         let (slices2, counts2) = set_all_persistence persistent_vars slices1 counts;
         Some (slices2, counts2, ds1)
       }
   }"

definition tool_slice_round ::
    "slicer_options \<Rightarrow> ir \<Rightarrow> (nat \<Rightarrow> ir_function) \<Rightarrow> (nat \<Rightarrow> nat) \<Rightarrow> nat module_graph \<Rightarrow> nat \<Rightarrow> slice_pass \<Rightarrow> slice_pass option" where
  "tool_slice_round opts ir fns func_of M fault_inst st = do {
     let F = func_of fault_inst;
     (_, locator) \<leftarrow> runOnFunction ir (fns F) (case pa_locators st F of None \<Rightarrow> new_locator | Some lo \<Rightarrow> lo);
     (slices, counts, ds) \<leftarrow> tool_instructionSlice opts func_of M fault_inst (lo_vars locator) [] (pa_counts st) (pa_slicer st);
     (instrumented, im) \<leftarrow> (if sl_hook_pmem opts then instrument_slices ir (lo_defs locator) slices (pa_instrumented st, pa_im st)
       else Some (pa_instrumented st, pa_im st));
     Some (st\<lparr>pa_slicer := ds, pa_locators := (pa_locators st)(F \<mapsto> locator), pa_counts := counts, pa_im := im, pa_instrumented := instrumented\<rparr>)
   }"

text \<open>
  What a tool reads of a module: its values, its functions in their order, their instructions and names, the function of an instruction, the debug information, and what the dg
  library builds, which includes the results of its pointer analysis per graph: for a value the objects it may point to (\<^term>\<open>None\<close> without a value of their own), if
  it has a set of them. \<open>tm_later\<close> are the instructions of a function after calls have been inserted, with the casts they need; those are neither located nor instrumented.
\<close>

type_synonym points_to = "nat \<Rightarrow> nat option list option"

record tool_module =
  tm_ir :: ir
  tm_functions :: "nat list"
  tm_function :: "nat \<Rightarrow> ir_function"
  tm_name :: "nat \<Rightarrow> string"
  tm_func_of :: "nat \<Rightarrow> nat"
  tm_later :: "nat \<Rightarrow> nat list"
  tm_has_main :: bool
  tm_debug :: "nat \<Rightarrow> inst_debug"
  tm_uninit :: int
  tm_opens :: bool
  tm_construct :: "nat graph_options \<Rightarrow> (nat \<times> nat) list option"
  tm_graph :: "nat module_graph"
  tm_pta :: "nat \<Rightarrow> points_to option"
  tm_rda :: "nat \<Rightarrow> bool"

text \<open>The result: whether something was instrumented, the lines of the map if it is written, and the final state, unless the function returns before.\<close>

definition tool_slice :: "slicer_options \<Rightarrow> tool_module \<Rightarrow> nat list \<Rightarrow> persistence_counts \<Rightarrow> (bool \<times> string list option \<times> slice_pass option) option" where
  "tool_slice opts tm startInstrs counts = (if startInstrs = [] then Some (False, None, None)
     else let
       entry = (if sl_entry_only opts then Some (tm_func_of tm (hd startInstrs)) else None);
       (_, slicer) = computeDependencies (tm_construct tm (createDgOptions (tool_dg_flags opts) entry)) (created_slicer (sl_direction opts));
       (ok, im) = (if sl_hook_pmem opts then initHookFuncs (tm_has_main tm) (new_instrumenter False) else (True, new_instrumenter False))
     in if \<not> ok then Some (False, None, None)
        else do {
          st \<leftarrow> ofold (tool_slice_round opts (tm_ir tm) (tm_function tm) (tm_func_of tm) (tm_graph tm)) startInstrs
            \<lparr>pa_slicer = slicer, pa_locators = Map.empty, pa_counts = counts, pa_im = im, pa_instrumented = False\<rparr>;
          if sl_hook_pmem opts then do {
            (_, ls) \<leftarrow> writeGuidHookPointMap (tm_uninit tm) (tm_debug tm) (tm_opens tm) (pa_im st);
            Some (pa_instrumented st, Some ls, Some st)
          } else Some (pa_instrumented st, None, Some st)
        })"

text \<open>
  The exit status. The module may fail to be parsed; \<open>M\<close> is its view by the matcher, \<open>value_of\<close> the pointer to an instruction. What \<open>slice\<close> returns is not looked at.
\<close>

definition slicer_main ::
    "slicer_options \<Rightarrow> (func list \<times> tool_module) option \<Rightarrow> (instruction \<Rightarrow> nat) \<Rightarrow> persistence_counts \<Rightarrow>
     (int \<times> (string list option \<times> slice_pass option) option) option" where
  "slicer_main opts parsed value_of counts = (case parsed of None \<Rightarrow> Some (1, None)
   | Some (M, tm) \<Rightarrow> do {
       let opt = \<lparr>so_file_lines = sl_criteria opts, so_inst = sl_inst opts, so_func = sl_func opts, so_inst_no = sl_inst_no opts,
         so_fuzzy_match = True, so_ignore_dbg = True\<rparr>;
       (ok, startInstrs) \<leftarrow> parseSlicingCriteriaOpt opt M [];
       if \<not> ok then Some (1, None)
       else map_option (\<lambda>(_, result). (0, Some result)) (tool_slice opts tm (map value_of startInstrs) counts)
     })"

section \<open>Pointers to persistent variables\<close>

text \<open>The global set \<open>pmem_vars\<close> is a list in the order of the addresses. A value is added if it may point to a variable that is in the set.\<close>

definition point_target :: "nat \<Rightarrow> nat option \<Rightarrow> nat list \<Rightarrow> nat list" where
  "point_target val target pmem_vars = (case target of None \<Rightarrow> pmem_vars
     | Some p_val \<Rightarrow> if p_val \<in> set pmem_vars then set_insert val pmem_vars else pmem_vars)"

definition point_inst :: "points_to \<Rightarrow> nat \<Rightarrow> nat list \<Rightarrow> nat list" where
  "point_inst pta val pmem_vars = (case pta val of None \<Rightarrow> pmem_vars | Some ps \<Rightarrow> fold (point_target val) ps pmem_vars)"

definition instrumentPmemPointers :: "nat list \<Rightarrow> points_to \<Rightarrow> nat list \<Rightarrow> nat list" where
  "instrumentPmemPointers insts pta = fold (point_inst pta) insts"

text \<open>The points-to sets for a function: none if it has no graph, or a graph without one of the analyses; \<^term>\<open>None\<close> if the slicer does not know the function.\<close>

definition function_pta :: "tool_module \<Rightarrow> nat dg_slicer \<Rightarrow> nat \<Rightarrow> points_to option option" where
  "function_pta tm ds F = map_option (\<lambda>dep_graph. case dep_graph of None \<Rightarrow> None
     | Some g \<Rightarrow> if tm_rda tm g then tm_pta tm g else None) (getDependenceGraph ds F)"

definition second_iteration :: "tool_module \<Rightarrow> nat dg_slicer \<Rightarrow> nat list \<Rightarrow> nat list \<Rightarrow> nat list option" where
  "second_iteration tm ds = ofold (\<lambda>F pmem_vars. if if_declaration (tm_function tm F) then Some pmem_vars
     else map_option (\<lambda>pta. case pta of None \<Rightarrow> pmem_vars | Some pta \<Rightarrow> instrumentPmemPointers (tm_later tm F) pta pmem_vars) (function_pta tm ds F))"

section \<open>The instrumentor\<close>

type_synonym instrumenting = "nat list \<times> instrumenter"

text \<open>A located variable or region: it is added to the global set, and instrumented if it is an instruction; something has been instrumented in either case.\<close>

definition tool_var :: "ir \<Rightarrow> nat \<Rightarrow> bool \<times> instrumenting \<Rightarrow> (bool \<times> instrumenting) option" where
  "tool_var ir var st = (case st of (instrumented, pmem_vars, im) \<Rightarrow>
     if is_inst ir var then map_option (\<lambda>(_, im'). (True, set_insert var pmem_vars, im')) (instrumentInstr ir var im)
     else Some (True, set_insert var pmem_vars, im))"

definition tool_runOnFunction :: "bool \<Rightarrow> ir \<Rightarrow> ir_function \<Rightarrow> instrumenting \<Rightarrow> (bool \<times> instrumenting) option" where
  "tool_runOnFunction RegularLoadStore ir F st = (case st of (pmem_vars, im) \<Rightarrow>
     if RegularLoadStore then map_option (\<lambda>(b, im'). (b, pmem_vars, im')) (instrument_values ir (if_insts F) (False, im))
     else do {
       (_, lo) \<leftarrow> runOnFunction ir F new_locator;
       if lo_vars lo = [] then Some (False, pmem_vars, im)
       else Option.bind (ofold (tool_var ir) (lo_vars lo) (False, pmem_vars, im)) (ofold (tool_var ir) (map fst (lo_regions lo)))
     })"

definition first_iteration :: "bool \<Rightarrow> tool_module \<Rightarrow> nat list \<Rightarrow> nat list \<times> instrumenting \<Rightarrow> (nat list \<times> instrumenting) option" where
  "first_iteration RegularLoadStore tm = ofold (\<lambda>F (Functions, st). if if_declaration (tm_function tm F) then Some (Functions, st)
     else map_option (\<lambda>(_, st'). (set_insert F Functions, st')) (tool_runOnFunction RegularLoadStore (tm_ir tm) (tm_function tm F) st))"

definition excluded_functions :: "string list" where
  "excluded_functions = [''split_slab_page_into_freelist'', ''do_slabs_free'']"

definition instrument_pmem_var :: "tool_module \<Rightarrow> nat \<Rightarrow> nat \<times> instrumenter \<Rightarrow> (nat \<times> instrumenter) option" where
  "instrument_pmem_var tm var st = (case st of (instrument_count, im) \<Rightarrow>
     if is_inst (tm_ir tm) var \<and> tm_name tm (tm_func_of tm var) \<notin> set excluded_functions
     then map_option (\<lambda>(_, im'). (instrument_count + 1, im')) (instrumentInstr (tm_ir tm) var im)
     else Some (instrument_count + 1, im))"

definition instrumentor_flags :: flags where
  "instrumentor_flags = ENABLE_PTA OR INTER_PROCEDURAL"

text \<open>From the first iteration to the last loop: the variables, their number, and the instrumenter.\<close>

definition instrumentor_run :: "bool \<Rightarrow> tool_module \<Rightarrow> instrumenter \<Rightarrow> (nat list \<times> nat \<times> instrumenter) option" where
  "instrumentor_run RegularLoadStore tm im = do {
     (Functions, pmem_vars, im1) \<leftarrow> first_iteration RegularLoadStore tm (tm_functions tm) ([], [], im);
     let (_, slicer) = computeDependencies (tm_construct tm (createDgOptions instrumentor_flags None)) (created_slicer Full);
     pmem_vars2 \<leftarrow> second_iteration tm slicer Functions pmem_vars;
     (instrument_count, im2) \<leftarrow> ofold (instrument_pmem_var tm) pmem_vars2 (0, im1);
     Some (pmem_vars2, instrument_count, im2)
   }"

text \<open>
  The exit status, and the names of the bitcode file and of the map with the lines of the latter. Saving the module reports no error.
\<close>

definition instrumentor_main ::
    "bool \<Rightarrow> string \<Rightarrow> string \<Rightarrow> string \<Rightarrow> tool_module option \<Rightarrow> (int \<times> (string \<times> string \<times> string list) option) option" where
  "instrumentor_main RegularLoadStore inputFilename outputFilename HookGuidFile parsed = (case parsed of None \<Rightarrow> Some (1, None)
   | Some tm \<Rightarrow> let (ok, im0) = initHookFuncs (tm_has_main tm) (new_instrumenter False) in
       if \<not> ok then Some (1, None)
       else do {
         (_, _, im) \<leftarrow> instrumentor_run RegularLoadStore tm im0;
         let inputFileBasenameNoExt = getFileBaseName inputFilename False (CHR ''/'');
         let output = (if outputFilename = [] then inputFileBasenameNoExt @ ''-instrumented.bc'' else outputFilename);
         let hook_file = (if HookGuidFile = [] then inputFileBasenameNoExt @ ''-hook-guids.map'' else HookGuidFile);
         (_, ls) \<leftarrow> writeGuidHookPointMap (tm_uninit tm) (tm_debug tm) (tm_opens tm) im;
         Some (0, Some (output, hook_file, ls))
       })"

section \<open>The extractor\<close>

text \<open>The globals of the extractor, with counts of insertions and of instructions.\<close>

record extraction =
  ex_pmem_vars :: "nat list"
  ex_insert_count :: int
  ex_instruction_count :: int

definition extract_target :: "nat \<Rightarrow> nat option \<Rightarrow> extraction \<Rightarrow> extraction" where
  "extract_target val target ex = (case target of None \<Rightarrow> ex
     | Some p_val \<Rightarrow> if p_val \<in> set (ex_pmem_vars ex)
         then ex\<lparr>ex_pmem_vars := set_insert val (ex_pmem_vars ex), ex_insert_count := ex_insert_count ex + 1\<rparr> else ex)"

definition extract_inst :: "points_to \<Rightarrow> nat \<Rightarrow> extraction \<Rightarrow> extraction" where
  "extract_inst pta val ex = (let ex1 = ex\<lparr>ex_instruction_count := ex_instruction_count ex + 1\<rparr> in
     case pta val of None \<Rightarrow> ex1 | Some ps \<Rightarrow> fold (extract_target val) ps ex1)"

definition extractPmemPointers :: "nat list \<Rightarrow> points_to \<Rightarrow> extraction \<Rightarrow> extraction" where
  "extractPmemPointers insts pta = fold (extract_inst pta) insts"

text \<open>The variables are collected; the calls and the regions are only printed.\<close>

definition extractPmemVarInFunc :: "ir \<Rightarrow> ir_function \<Rightarrow> extraction \<Rightarrow> extraction option" where
  "extractPmemVarInFunc ir F ex = do {
     (_, lo) \<leftarrow> runOnFunction ir F new_locator;
     Some (ex\<lparr>ex_pmem_vars := fold set_insert (lo_vars lo) (ex_pmem_vars ex)\<rparr>)
   }"

definition is_target :: "string list \<Rightarrow> string \<Rightarrow> bool" where
  "is_target targetFunctionSet name \<longleftrightarrow> targetFunctionSet = [] \<or> name \<in> set targetFunctionSet"

definition extract_function :: "string list \<Rightarrow> tool_module \<Rightarrow> nat \<Rightarrow> nat list \<times> extraction \<Rightarrow> (nat list \<times> extraction) option" where
  "extract_function targets tm F st = (case st of (Functions, ex) \<Rightarrow>
     if \<not> if_declaration (tm_function tm F) \<and> is_target targets (tm_name tm F)
     then map_option (\<lambda>ex'. (set_insert F Functions, ex')) (extractPmemVarInFunc (tm_ir tm) (tm_function tm F) ex)
     else Some (Functions, ex))"

definition extract_pointers :: "string list \<Rightarrow> tool_module \<Rightarrow> nat dg_slicer \<Rightarrow> nat \<Rightarrow> extraction \<Rightarrow> extraction option" where
  "extract_pointers targets tm ds F ex =
     (if \<not> if_declaration (tm_function tm F) \<and> is_target targets (tm_name tm F)
      then map_option (\<lambda>pta. case pta of None \<Rightarrow> ex | Some pta \<Rightarrow> extractPmemPointers (if_insts (tm_function tm F)) pta ex) (function_pta tm ds F)
      else Some ex)"

definition extractor_main :: "string list \<Rightarrow> tool_module option \<Rightarrow> (int \<times> extraction) option" where
  "extractor_main targets parsed = (let ex0 = \<lparr>ex_pmem_vars = [], ex_insert_count = 0, ex_instruction_count = 0\<rparr> in
     case parsed of None \<Rightarrow> Some (1, ex0)
   | Some tm \<Rightarrow> do {
       (Functions, ex1) \<leftarrow> ofold (extract_function targets tm) (tm_functions tm) ([], ex0);
       let (_, slicer) = computeDependencies (tm_construct tm (createDgOptions instrumentor_flags None)) (created_slicer Full);
       ex2 \<leftarrow> ofold (extract_pointers targets tm slicer) Functions ex1;
       Some (0, ex2)
     })"

text \<open>\<open>PMemVariablePass\<close> prints the calls, the variables and the regions of the target functions; it modifies nothing.\<close>

definition pmem_pass_function :: "ir \<Rightarrow> ir_function \<Rightarrow> (nat list \<times> nat list \<times> (nat \<times> nat) list) option" where
  "pmem_pass_function ir F = map_option (\<lambda>(_, lo). (lo_calls lo, lo_vars lo, lo_regions lo)) (runOnFunction ir F new_locator)"

definition pmem_pass_module :: "string list \<Rightarrow> tool_module \<Rightarrow> (bool \<times> (nat list \<times> nat list \<times> (nat \<times> nat) list) list) option" where
  "pmem_pass_module targets tm = ofold (\<lambda>F (modified, printed).
     if \<not> if_declaration (tm_function tm F) \<and> is_target targets (tm_name tm F)
     then map_option (\<lambda>out. (modified \<or> False, printed @ [out])) (pmem_pass_function (tm_ir tm) (tm_function tm F))
     else Some (modified, printed)) (tm_functions tm) (False, [])"

section \<open>The analyzer and the locator\<close>

text \<open>
  \<open>guid_lines\<close> and \<open>trace_lines\<close> are the lines of the two files, if they can be opened. The result is the exit status, with the trace once it is resolved.
\<close>

definition analyzer_main ::
    "func list option \<Rightarrow> (instruction \<Rightarrow> 'v) \<Rightarrow> string list option \<Rightarrow> string list option \<Rightarrow> (int \<times> 'v addr_trace option) outcome option" where
  "analyzer_main parsed value_of guid_lines trace_lines = (case parsed of None \<Rightarrow> Some (Done (1, None))
   | Some M \<Rightarrow> (case guid_lines of None \<Rightarrow> Some (Done (1, None))
     | Some gls \<Rightarrow> (case deserialize_map False gls [] of Failed \<Rightarrow> Some (Done (1, None)) | Throws \<Rightarrow> Some Throws
       | Done varMap \<Rightarrow> (case trace_lines of None \<Rightarrow> Some (Done (1, None))
         | Some tls \<Rightarrow> (case deserialize_trace (Some varMap) tls empty_trace of Failed \<Rightarrow> Some (Done (1, None)) | Throws \<Rightarrow> Some Throws
           | Done t0 \<Rightarrow>
             if at_pool_addrs t0 = [] then Some (Done (1, None))
             else let (obtained, t1) = calculatePoolOffsets t0
               in if \<not> obtained then Some (Done (1, None))
                  else map_option (\<lambda>(_, t2). Done (0, Some t2)) (resolve_trace M value_of t1))))))"

text \<open>The results that are printed.\<close>

definition locator_main :: "func list option \<Rightarrow> string \<Rightarrow> (int \<times> match_result list) option" where
  "locator_main parsed criteria = (case parsed of None \<Rightarrow> Some (1, [])
   | Some M \<Rightarrow> if length (snd (splitList_char criteria (CHR '',''))) = 1
       then (case fromCriterionStr criteria of None \<Rightarrow> Some (1, [])
         | Some fl \<Rightarrow> map_option (\<lambda>(_, result). (0, [result])) (matchInstrsCriterion fl M no_match))
       else (case fromCriteriaStr criteria of (ok, fileLines) \<Rightarrow>
         if \<not> ok then Some (1, []) else map_option (\<lambda>results. (0, results)) (matchInstrsCriteria fileLines M)))"

section \<open>The slicer and the pass\<close>

lemma default_flags: "tool_dg_flags (default_slicer_options\<lparr>sl_direction := dir, sl_hook_pmem := hook\<rparr>) = pass_flags"
  by (simp add: tool_dg_flags_def default_slicer_options_def pass_flags_def dg_flag_defs)

lemma tool_instructionSlice_pass:
  assumes "\<not> sl_ctrl opts" and "instructionSlice func_of M fault vars slices counts ds = Some r"
  shows "tool_instructionSlice opts func_of M fault vars slices counts ds = Some r"
  using assms by (auto simp: tool_instructionSlice_def instructionSlice_def tool_slice_flags_def split: bind_splits option.split)

lemma tool_slice_round_pass:
  assumes "\<not> sl_ctrl opts" and "slice_pass_round (sl_hook_pmem opts) ir fns func_of M fault st = Some st'"
  shows "tool_slice_round opts ir fns func_of M fault st = Some st'"
  using assms(2) tool_instructionSlice_pass [OF assms(1)]
  by (fastforce simp: tool_slice_round_def slice_pass_round_def Let_def split: bind_splits)

lemma ofold_mono:
  assumes "\<And>x s t. f x s = Some t \<Longrightarrow> g x s = Some t" and "ofold f xs s = Some t"
  shows "ofold g xs s = Some t"
  using assms(2)
proof (induction xs arbitrary: s)
  case (Cons x xs)
  then obtain u where "f x s = Some u" "ofold f xs u = Some t" by (auto split: bind_splits)
  then show ?case using Cons.IH [of u] assms(1) [of x s u] by simp
qed simp

section \<open>What the instrumentor instruments\<close>

text \<open>The calls that create regions of persistent memory.\<close>

definition region_created :: "nat \<Rightarrow> string \<Rightarrow> nat list \<Rightarrow> nat set" where
  "region_created c token args = (case map_of pmdkRegionSizeArgMapping token of None \<Rightarrow> {} | Some k \<Rightarrow> if k + 1 \<le> length args then {c} else {})"

definition regions_of :: "ir \<Rightarrow> nat \<Rightarrow> nat set" where
  "regions_of ir c = (case iv_inst (ir c) of
     Some (Call (Some f) args) \<Rightarrow> region_created c (call_token ir f) args
   | Some (Invoke (Some f) args) \<Rightarrow> region_created c (call_token ir f) args
   | _ \<Rightarrow> {})"

text \<open>The variables of a function, with the regions only if there are variables at all.\<close>

definition located_in :: "ir \<Rightarrow> ir_function \<Rightarrow> nat set" where
  "located_in ir F = (if function_vars ir F = {} then {} else function_vars ir F \<union> (\<Union>c \<in> set (if_insts F). regions_of ir c))"

definition defined_functions :: "tool_module \<Rightarrow> nat set" where
  "defined_functions tm = {F \<in> set (tm_functions tm). \<not> if_declaration (tm_function tm F)}"

definition located_vars :: "tool_module \<Rightarrow> nat set" where
  "located_vars tm = (\<Union>F \<in> defined_functions tm. located_in (tm_ir tm) (tm_function tm F))"

definition points_at :: "points_to \<Rightarrow> nat \<Rightarrow> nat \<Rightarrow> bool" where
  "points_at pta v p \<longleftrightarrow> (\<exists>ps. pta v = Some ps \<and> Some p \<in> set ps)"

text \<open>The analysis that counts for a function, and the instructions that may point to one of the variables.\<close>

definition graph_pta :: "tool_module \<Rightarrow> (nat \<times> nat) list \<Rightarrow> nat \<Rightarrow> points_to option" where
  "graph_pta tm funcs F = (case map_of funcs F of None \<Rightarrow> None | Some g \<Rightarrow> if tm_rda tm g then tm_pta tm g else None)"

definition pointers_to :: "tool_module \<Rightarrow> (nat \<times> nat) list \<Rightarrow> nat set \<Rightarrow> nat set" where
  "pointers_to tm funcs V = {v. \<exists>F \<in> defined_functions tm. \<exists>pta. graph_pta tm funcs F = Some pta \<and> v \<in> set (tm_later tm F) \<and> (\<exists>p \<in> V. points_at pta v p)}"

declare addr_set.set_fold [simp]

lemma insert_users_regions: "insert_users ir v lo = Some lo' \<Longrightarrow> lo_regions lo' = lo_regions lo"
  by (auto simp: insert_users_def split: bind_splits)

definition region_keys :: "locator \<Rightarrow> nat set" where
  "region_keys lo = fst ` set (lo_regions lo)"

lemma insert_region_keys: "region_keys (insert_region c token args lo) = region_keys lo \<union> region_created c token args"
  by (auto simp: region_keys_def region_created_def insert_region_def split: option.split)

lemma region_api: "\<not> is_pmdk_api token \<Longrightarrow> region_created c token args = {}"
  by (auto simp: is_pmdk_api_def pmdkApiSet_def pmdkRegionSizeArgMapping_def region_created_def)

lemma insert_users_keys: "insert_users ir v lo = Some lo' \<Longrightarrow> region_keys lo' = region_keys lo"
  by (simp add: region_keys_def insert_users_regions)

lemma memkind_keys: "handleMemKindCall ir callee args lo = Some lo' \<Longrightarrow> region_keys lo' = region_keys lo"
  by (auto simp: handleMemKindCall_def Let_def split: option.splits if_splits bind_splits dest!: insert_users_keys)

lemma lo_calls_keys [simp]: "region_keys (lo\<lparr>lo_calls := cs\<rparr>) = region_keys lo"
  by (simp add: region_keys_def)

lemma pmdk_keys:
  assumes "handlePmdkCall ir c callee args lo = Some lo'"
  shows "region_keys lo' = region_keys lo \<union> (case callee of None \<Rightarrow> {} | Some f \<Rightarrow> region_created c (call_token ir f) args)"
proof (cases callee)
  case (Some f)
  show ?thesis
  proof (cases "is_pmdk_api (call_token ir f)")
    case True
    let ?lo1 = "lo\<lparr>lo_calls := sv_insert c (lo_calls lo)\<rparr>"
    obtain lo2 where "(if returns_pmem (call_token ir f) then insert_users ir c ?lo1 else Some ?lo1) = Some lo2"
      and lo': "lo' = insert_region c (call_token ir f) args lo2"
      using assms Some True by (auto simp: handlePmdkCall_def Let_def split: bind_splits)
    then have "region_keys lo2 = region_keys lo" by (metis insert_users_keys lo_calls_keys option.inject)
    then show ?thesis using Some lo' by (simp add: insert_region_keys)
  qed (use assms Some in \<open>simp add: handlePmdkCall_def Let_def region_api\<close>)
qed (use assms in \<open>simp add: handlePmdkCall_def\<close>)

lemma invoke_keys:
  assumes "handleInvokeCall ir c callee args lo = Some lo'"
  shows "region_keys lo' = region_keys lo \<union> (case callee of None \<Rightarrow> {} | Some f \<Rightarrow> region_created c (call_token ir f) args)"
proof (cases callee)
  case (Some f)
  show ?thesis
  proof (cases "is_pmdk_api (call_token ir f)")
    case True
    obtain lo2 where "(if returns_pmem (call_token ir f) then insert_users ir c lo else Some lo) = Some lo2"
      and lo': "lo' = insert_region c (call_token ir f) args lo2"
      using assms Some True by (auto simp: handleInvokeCall_def Let_def split: bind_splits)
    then have "region_keys lo2 = region_keys lo" by (metis insert_users_keys lo_calls_keys option.inject)
    then show ?thesis using Some lo' by (simp add: insert_region_keys)
  qed (use assms Some in \<open>simp add: handleInvokeCall_def Let_def region_api\<close>)
qed (use assms in \<open>simp add: handleInvokeCall_def\<close>)

lemma handle_inst_keys:
  assumes "handle_inst ir c lo = Some lo'"
  shows "region_keys lo' = region_keys lo \<union> regions_of ir c"
proof (cases "iv_inst (ir c)")
  case None
  then show ?thesis using assms by (simp add: handle_inst_def regions_of_def)
next
  case (Some i)
  show ?thesis
  proof (cases i)
    case (Call callee args)
    then obtain lo1 where "handlePmdkCall ir c callee args lo = Some lo1" and lo': "handleMemKindCall ir callee args lo1 = Some lo'"
      using assms Some by (auto simp: handle_inst_def split: bind_splits)
    then have "region_keys lo1 = region_keys lo \<union> regions_of ir c"
      using pmdk_keys Some Call by (simp add: regions_of_def split: option.split)
    then show ?thesis using memkind_keys [OF lo'] by simp
  next
    case (Invoke callee args)
    then have "handleInvokeCall ir c callee args lo = Some lo'" using assms Some by (simp add: handle_inst_def)
    then show ?thesis using invoke_keys Some Invoke by (simp add: regions_of_def split: option.split)
  qed (use assms Some in \<open>simp_all add: handle_inst_def regions_of_def\<close>)
qed

lemma definition_point_keys: "processDefinitionPoint ir d lo = Some (b, lo') \<Longrightarrow> region_keys lo' = region_keys lo"
  by (auto simp: processDefinitionPoint_def region_keys_def split: if_splits bind_splits)

lemma definition_points_keys:
  assumes "ofold (\<lambda>def lo. map_option snd (processDefinitionPoint ir def lo)) ds lo = Some lo'"
  shows "region_keys lo' = region_keys lo"
  using assms
proof (rule ofold_invariant)
  fix d lo1 lo2 assume "region_keys lo1 = region_keys lo" and "map_option snd (processDefinitionPoint ir d lo1) = Some lo2"
  then show "region_keys lo2 = region_keys lo" using definition_point_keys by auto
qed simp

lemma insts_keys: "ofold (handle_inst ir) cs lo = Some lo' \<Longrightarrow> region_keys lo' = region_keys lo \<union> (\<Union>c\<in>set cs. regions_of ir c)"
proof (induction cs arbitrary: lo)
  case (Cons c cs)
  then obtain lo1 where "handle_inst ir c lo = Some lo1" "ofold (handle_inst ir) cs lo1 = Some lo'" by (auto split: bind_splits)
  then show ?case using Cons.IH handle_inst_keys by auto
qed simp

text \<open>The values that are looked at for a function, in this order.\<close>

definition located_list :: "locator \<Rightarrow> nat list" where
  "located_list lo = (if lo_vars lo = [] then [] else lo_vars lo @ map fst (lo_regions lo))"

lemma runOnFunction_located:
  assumes "\<not> if_declaration F" and "\<And>v. finite (user_reach ir v)"
  shows "\<exists>lo. runOnFunction ir F new_locator = Some (False, lo) \<and> set (located_list lo) = located_in ir F"
proof -
  obtain lo where lo: "runOnFunction ir F new_locator = Some (False, lo)" "set (lo_vars lo) = function_vars ir F"
    using runOnFunction_returns [OF assms] unfolding function_vars_def by blast
  then obtain lo1 where "ofold (handle_inst ir) (if_insts F) new_locator = Some lo1"
    "ofold (\<lambda>def lo. map_option snd (processDefinitionPoint ir def lo)) (lo_vars lo1) lo1 = Some lo"
    using assms(1) by (auto simp: runOnFunction_def split: bind_splits)
  then have "region_keys lo = (\<Union>c \<in> set (if_insts F). regions_of ir c)"
    using definition_points_keys insts_keys by (fastforce simp: region_keys_def new_locator_def)
  then show ?thesis using lo by (auto simp: located_list_def located_in_def region_keys_def)
qed

lemma tool_vars_values:
  "ofold (tool_var ir) vs (f, pv, im) =
   map_option (\<lambda>(_, im'). (f \<or> vs \<noteq> [], fold set_insert vs pv, im')) (instrument_values ir vs (g, im))"
proof (induction vs arbitrary: f pv im g)
  case (Cons v vs)
  have step: "instrument_values ir (v # vs) (g, im) =
    (if is_inst ir v then Option.bind (map_option (\<lambda>(b, im'). (g \<or> b, im')) (instrumentInstr ir v im)) (instrument_values ir vs)
     else instrument_values ir vs (g, im))" by (simp add: instrument_values_def)
  show ?case
  proof (cases "is_inst ir v")
    case True
    show ?thesis
    proof (cases "instrumentInstr ir v im")
      case (Some r)
      obtain b im' where r: "r = (b, im')" by (cases r)
      show ?thesis using True Some r Cons.IH [of True "set_insert v pv" im' "g \<or> b"] by (simp add: step tool_var_def)
    qed (use True in \<open>simp add: step tool_var_def\<close>)
  next
    case False
    then show ?thesis using Cons.IH [of True "set_insert v pv" im g] by (simp add: step tool_var_def)
  qed
qed (simp add: instrument_values_def)

lemma tool_function_values:
  assumes "\<not> if_declaration F" and "\<And>v. finite (user_reach ir v)"
  shows "\<exists>vs. set vs = located_in ir F \<and> (\<forall>pv im g. map_option snd (tool_runOnFunction False ir F (pv, im)) =
    map_option (\<lambda>(_, im'). (fold set_insert vs pv, im')) (instrument_values ir vs (g, im)))"
proof -
  obtain lo where lo: "runOnFunction ir F new_locator = Some (False, lo)" "set (located_list lo) = located_in ir F"
    using runOnFunction_located [OF assms] by blast
  have "map_option snd (tool_runOnFunction False ir F (pv, im)) =
      map_option (\<lambda>(_, im'). (fold set_insert (located_list lo) pv, im')) (instrument_values ir (located_list lo) (g, im))" for pv im g
  proof (cases "lo_vars lo = []")
    case True
    then show ?thesis using lo(1) by (simp add: tool_runOnFunction_def located_list_def instrument_values_def)
  next
    case False
    have "Option.bind (ofold (tool_var ir) (lo_vars lo) (False, pv, im)) (ofold (tool_var ir) (map fst (lo_regions lo))) =
        ofold (tool_var ir) (located_list lo) (False, pv, im)" using False by (simp add: ofold_append located_list_def)
    then show ?thesis using lo(1) False tool_vars_values [of ir "located_list lo" False pv im g]
      by (simp add: tool_runOnFunction_def option.map_comp comp_def case_prod_unfold)
  qed
  then show ?thesis using lo(2) by blast
qed

lemma first_iteration_values:
  assumes "\<And>v. finite (user_reach (tm_ir tm) v)"
  shows "\<exists>vs. set vs = (\<Union>F \<in> {F \<in> set Fs. \<not> if_declaration (tm_function tm F)}. located_in (tm_ir tm) (tm_function tm F)) \<and>
    (\<forall>fs pv im g. ofold (\<lambda>F (Functions, st). if if_declaration (tm_function tm F) then Some (Functions, st)
       else map_option (\<lambda>(_, st'). (set_insert F Functions, st')) (tool_runOnFunction False (tm_ir tm) (tm_function tm F) st)) Fs (fs, pv, im) =
     map_option (\<lambda>(_, im'). (fold set_insert (filter (\<lambda>F. \<not> if_declaration (tm_function tm F)) Fs) fs, fold set_insert vs pv, im'))
       (instrument_values (tm_ir tm) vs (g, im)))"
proof (induction Fs)
  case Nil
  then show ?case by (auto simp: instrument_values_def)
next
  case (Cons F Fs)
  let ?f = "\<lambda>F (Functions, st). if if_declaration (tm_function tm F) then Some (Functions, st)
       else map_option (\<lambda>(_, st'). (set_insert F Functions, st')) (tool_runOnFunction False (tm_ir tm) (tm_function tm F) st)"
  obtain vs where vs: "set vs = (\<Union>F \<in> {F \<in> set Fs. \<not> if_declaration (tm_function tm F)}. located_in (tm_ir tm) (tm_function tm F))"
    and run: "ofold ?f Fs (fs, pv, im) = map_option (\<lambda>(_, im'). (fold set_insert (filter (\<lambda>F. \<not> if_declaration (tm_function tm F)) Fs) fs,
       fold set_insert vs pv, im')) (instrument_values (tm_ir tm) vs (g, im))" for fs pv im g
    using Cons.IH by blast
  show ?case
  proof (cases "if_declaration (tm_function tm F)")
    case True
    then show ?thesis using vs run by (intro exI [of _ vs]) auto
  next
    case False
    obtain us where us: "set us = located_in (tm_ir tm) (tm_function tm F)"
      and one: "map_option snd (tool_runOnFunction False (tm_ir tm) (tm_function tm F) (pv, im)) =
        map_option (\<lambda>(_, im'). (fold set_insert us pv, im')) (instrument_values (tm_ir tm) us (g, im))" for pv im g
      using tool_function_values [OF False assms] by blast
    have "ofold ?f (F # Fs) (fs, pv, im) = Option.bind (map_option snd (tool_runOnFunction False (tm_ir tm) (tm_function tm F) (pv, im)))
        (\<lambda>st. ofold ?f Fs (set_insert F fs, st))" for fs pv im
      using False by (cases "tool_runOnFunction False (tm_ir tm) (tm_function tm F) (pv, im)") (auto split: prod.split)
    then have "ofold ?f (F # Fs) (fs, pv, im) = map_option (\<lambda>(_, im'). (fold set_insert (filter (\<lambda>F. \<not> if_declaration (tm_function tm F)) (F # Fs)) fs,
       fold set_insert (us @ vs) pv, im')) (instrument_values (tm_ir tm) (us @ vs) (g, im))" for fs pv im g
      unfolding one [where g = g] instrument_values_append using False run
      by (cases "instrument_values (tm_ir tm) us (g, im)") (auto split: prod.split)
    moreover have "set (us @ vs) = (\<Union>F \<in> {F' \<in> set (F # Fs). \<not> if_declaration (tm_function tm F')}. located_in (tm_ir tm) (tm_function tm F))"
      using us vs False by auto
    ultimately show ?thesis by blast
  qed
qed

lemma first_iteration_located:
  assumes "\<And>v. finite (user_reach (tm_ir tm) v)"
  shows "\<exists>vs. set vs = located_vars tm \<and> (\<forall>fs pv im g. first_iteration False tm (tm_functions tm) (fs, pv, im) =
     map_option (\<lambda>(_, im'). (fold set_insert (filter (\<lambda>F. \<not> if_declaration (tm_function tm F)) (tm_functions tm)) fs, fold set_insert vs pv, im'))
       (instrument_values (tm_ir tm) vs (g, im)))"
  using first_iteration_values [where tm = tm and Fs = "tm_functions tm", OF assms]
  unfolding first_iteration_def located_vars_def defined_functions_def .

text \<open>An object points at most to itself, so that a variable that is added is never a reason to add another.\<close>

definition objects_own :: "tool_module \<Rightarrow> bool" where
  "objects_own tm \<longleftrightarrow> (\<forall>g h pta pta' v p q. tm_pta tm g = Some pta \<longrightarrow> tm_pta tm h = Some pta' \<longrightarrow> points_at pta v p \<longrightarrow> points_at pta' p q \<longrightarrow> q = p)"

lemma point_targets:
  "set (fold (point_target v) ps pv) = set pv \<union> (if \<exists>p \<in> set pv. Some p \<in> set ps then {v} else {})"
proof (induction ps arbitrary: pv)
  case (Cons t ps)
  show ?case unfolding fold.simps comp_def Cons.IH by (cases t) (auto simp: point_target_def)
qed simp

lemma point_inst_set:
  "set (point_inst pta v pv) = set pv \<union> (if \<exists>p \<in> set pv. points_at pta v p then {v} else {})"
  using point_targets [of v] by (auto simp: point_inst_def points_at_def split: option.split)

definition points_into :: "tool_module \<Rightarrow> nat set \<Rightarrow> nat set" where
  "points_into tm V = {v. \<exists>g pta. tm_pta tm g = Some pta \<and> (\<exists>p \<in> V. points_at pta v p)}"

lemma points_closed:
  assumes "objects_own tm" and "tm_pta tm g = Some pta" and "V \<subseteq> W" and "W \<subseteq> V \<union> points_into tm V"
  shows "(\<exists>p \<in> W. points_at pta v p) \<longleftrightarrow> (\<exists>p \<in> V. points_at pta v p)"
proof
  assume "\<exists>p \<in> W. points_at pta v p"
  then obtain p where p: "p \<in> W" "points_at pta v p" by blast
  show "\<exists>p \<in> V. points_at pta v p"
  proof (cases "p \<in> V")
    case False
    then obtain h pta' q where "tm_pta tm h = Some pta'" "q \<in> V" "points_at pta' p q" using p(1) assms(4) by (auto simp: points_into_def)
    then show ?thesis using assms(1,2) p(2) unfolding objects_own_def by metis
  qed (use p in blast)
qed (use assms(3) in blast)

lemma pmem_pointers_set:
  assumes own: "objects_own tm" and pta: "tm_pta tm g = Some pta" and "V \<subseteq> set pv" and "set pv \<subseteq> V \<union> points_into tm V"
  shows "set (instrumentPmemPointers is pta pv) = set pv \<union> {v \<in> set is. \<exists>p \<in> V. points_at pta v p}"
  using assms(3,4)
proof (induction "is" arbitrary: pv)
  case Nil
  then show ?case by (simp add: instrumentPmemPointers_def)
next
  case (Cons i "is")
  have one: "set (point_inst pta i pv) = set pv \<union> (if \<exists>p \<in> V. points_at pta i p then {i} else {})"
    unfolding point_inst_set points_closed [OF own pta Cons.prems] ..
  then have "V \<subseteq> set (point_inst pta i pv)" "set (point_inst pta i pv) \<subseteq> V \<union> points_into tm V"
    using Cons.prems pta by (auto simp: points_into_def split: if_splits)
  from Cons.IH [OF this] one show ?case by (auto simp: instrumentPmemPointers_def split: if_splits)
qed

lemma graph_pta_some: "graph_pta tm funcs F = Some pta \<Longrightarrow> \<exists>g. tm_pta tm g = Some pta"
  by (auto simp: graph_pta_def split: option.splits if_splits)

lemma function_pta_graph:
  "ds_func_dgs ds = Some funcs \<Longrightarrow> map_of funcs F \<noteq> None \<Longrightarrow> function_pta tm ds F = Some (graph_pta tm funcs F)"
  by (auto simp: function_pta_def graph_pta_def getDependenceGraph_def split: option.splits)

lemma second_iteration_set:
  assumes own: "objects_own tm" and ds: "ds_func_dgs ds = Some funcs" and known: "\<And>F. F \<in> set Fs \<Longrightarrow> map_of funcs F \<noteq> None"
    and defined: "\<And>F. F \<in> set Fs \<Longrightarrow> \<not> if_declaration (tm_function tm F)" and "V \<subseteq> set pv" and "set pv \<subseteq> V \<union> points_into tm V"
  shows "\<exists>pv'. second_iteration tm ds Fs pv = Some pv' \<and>
    set pv' = set pv \<union> {v. \<exists>F \<in> set Fs. \<exists>pta. graph_pta tm funcs F = Some pta \<and> v \<in> set (tm_later tm F) \<and> (\<exists>p \<in> V. points_at pta v p)}"
  using known defined assms(5,6)
proof (induction Fs arbitrary: pv)
  case Nil
  then show ?case by (simp add: second_iteration_def)
next
  case (Cons F Fs)
  have F: "function_pta tm ds F = Some (graph_pta tm funcs F)" using Cons.prems(1) by (intro function_pta_graph [OF ds]) simp
  let ?pv = "case graph_pta tm funcs F of None \<Rightarrow> pv | Some pta \<Rightarrow> instrumentPmemPointers (tm_later tm F) pta pv"
  have one: "set ?pv = set pv \<union> {v. \<exists>pta. graph_pta tm funcs F = Some pta \<and> v \<in> set (tm_later tm F) \<and> (\<exists>p \<in> V. points_at pta v p)}"
  proof (cases "graph_pta tm funcs F")
    case (Some pta)
    then obtain g where "tm_pta tm g = Some pta" using graph_pta_some by blast
    from pmem_pointers_set [OF own this Cons.prems(3,4)] Some show ?thesis by simp
  qed simp
  have later: "{v. \<exists>pta. graph_pta tm funcs F = Some pta \<and> v \<in> set (tm_later tm F) \<and> (\<exists>p \<in> V. points_at pta v p)} \<subseteq> points_into tm V"
    using graph_pta_some [of tm funcs F] unfolding points_into_def by blast
  have V: "V \<subseteq> set ?pv" "set ?pv \<subseteq> V \<union> points_into tm V"
    unfolding one using Cons.prems(3,4) later by blast+
  have "second_iteration tm ds (F # Fs) pv = second_iteration tm ds Fs ?pv"
    using F Cons.prems(2) by (simp add: second_iteration_def)
  moreover obtain pv' where pv': "second_iteration tm ds Fs ?pv = Some pv'"
    "set pv' = set ?pv \<union> {v. \<exists>F \<in> set Fs. \<exists>pta. graph_pta tm funcs F = Some pta \<and> v \<in> set (tm_later tm F) \<and> (\<exists>p \<in> V. points_at pta v p)}"
    using Cons.IH [OF _ _ V] Cons.prems(1,2) by auto
  ultimately show ?case unfolding one by auto
qed

lemma pmem_vars_values:
  "ofold (instrument_pmem_var tm) vs (n, im) = map_option (\<lambda>(_, im'). (n + length vs, im'))
     (instrument_values (tm_ir tm) (filter (\<lambda>v. tm_name tm (tm_func_of tm v) \<notin> set excluded_functions) vs) (g, im))"
proof (induction vs arbitrary: n im g)
  case (Cons v vs)
  have step: "instrument_values ir (v # vs) (g, im) =
    (if is_inst ir v then Option.bind (map_option (\<lambda>(b, im'). (g \<or> b, im')) (instrumentInstr ir v im)) (instrument_values ir vs)
     else instrument_values ir vs (g, im))" for ir v vs g im by (simp add: instrument_values_def)
  show ?case
  proof (cases "is_inst (tm_ir tm) v \<and> tm_name tm (tm_func_of tm v) \<notin> set excluded_functions")
    case True
    show ?thesis
    proof (cases "instrumentInstr (tm_ir tm) v im")
      case (Some r)
      obtain b im' where r: "r = (b, im')" by (cases r)
      show ?thesis using True Some r Cons.IH [of "n + 1" im' "g \<or> b"] by (simp add: step instrument_pmem_var_def)
    qed (use True in \<open>simp add: step instrument_pmem_var_def\<close>)
  next
    case False
    then show ?thesis using Cons.IH [of "n + 1" im g] by (auto simp: step instrument_pmem_var_def)
  qed
qed (simp add: instrument_values_def)

text \<open>The calls that are inserted, when the loops of the tool are put together.\<close>

lemma instrumentor_run_calls:
  assumes fin: "\<And>v. finite (user_reach (tm_ir tm) v)" and own: "objects_own tm"
    and built: "tm_construct tm (createDgOptions instrumentor_flags None) = Some funcs" "\<And>F. F \<in> defined_functions tm \<Longrightarrow> map_of funcs F \<noteq> None"
    and addr: "\<And>v. v \<in> located_vars tm \<union> pointers_to tm funcs (located_vars tm) \<Longrightarrow> hook_target_of (tm_ir tm) v \<noteq> Unset_address"
    and bound: "card (located_vars tm \<union> pointers_to tm funcs (located_vars tm)) + 200 < 2 ^ 32"
    and im: "numbered (tm_ir tm) [] im"
  shows "\<exists>pv im'. instrumentor_run False tm im = Some (pv, length pv, im') \<and>
    pv = sorted_list_of_set (located_vars tm \<union> pointers_to tm funcs (located_vars tm)) \<and>
    fst ` set (im_calls im') = {v \<in> set pv. hooked (tm_ir tm) v \<and>
      (v \<in> located_vars tm \<or> tm_name tm (tm_func_of tm v) \<notin> set excluded_functions)}"
proof -
  let ?ir = "tm_ir tm" and ?keep = "\<lambda>v. tm_name tm (tm_func_of tm v) \<notin> set excluded_functions"
  let ?Fs = "fold set_insert (filter (\<lambda>F. \<not> if_declaration (tm_function tm F)) (tm_functions tm)) []"
  obtain vs where vs: "set vs = located_vars tm"
    and first: "first_iteration False tm (tm_functions tm) ([], [], im) =
      map_option (\<lambda>(_, im'). (?Fs, fold set_insert vs [], im')) (instrument_values ?ir vs (g, im))" for im g
    using first_iteration_located [OF fin] by blast
  let ?pv = "fold set_insert vs []"
  have Fs: "set ?Fs = defined_functions tm" by (auto simp: defined_functions_def)
  obtain ds where ds: "computeDependencies (tm_construct tm (createDgOptions instrumentor_flags None)) (created_slicer Full) = (True, ds)"
    "ds_func_dgs ds = Some funcs" using built(1) by (simp add: computeDependencies_def created_slicer_def)
  have "\<exists>pv'. second_iteration tm ds ?Fs ?pv = Some pv' \<and> set pv' = set ?pv \<union>
      {v. \<exists>F \<in> set ?Fs. \<exists>pta. graph_pta tm funcs F = Some pta \<and> v \<in> set (tm_later tm F) \<and> (\<exists>p \<in> set ?pv. points_at pta v p)}"
  proof (rule second_iteration_set [OF own ds(2)])
    show "map_of funcs F \<noteq> None" if "F \<in> set ?Fs" for F using built(2) that unfolding Fs .
    show "\<not> if_declaration (tm_function tm F)" if "F \<in> set ?Fs" for F using that unfolding Fs by (simp add: defined_functions_def)
  qed simp_all
  then obtain pv where pv: "second_iteration tm ds ?Fs ?pv = Some pv" "set pv = located_vars tm \<union> pointers_to tm funcs (located_vars tm)"
    unfolding Fs by (auto simp: vs pointers_to_def)
  let ?all = "vs @ filter ?keep pv"
  let ?hs = "fold sv_insert (filter (hooked ?ir) ?all) []"
  have hs: "set ?hs = {v \<in> set pv. hooked ?ir v \<and> (v \<in> located_vars tm \<or> ?keep v)}" unfolding fold_sv_insert(1) using vs pv(2) by auto
  have "length ?hs = card (set ?hs)" unfolding sv.length_fold fold_sv_insert(1) by simp
  also have "\<dots> \<le> card (set pv)" by (rule card_mono [OF finite_set]) (unfold hs, blast)
  finally have len: "length ?hs + 200 < 2 ^ 32" using bound pv(2) by simp
  have "\<not> (\<exists>v \<in> set ?all. is_inst ?ir v \<and> hook_target_of ?ir v = Unset_address)" using addr vs pv(2) by auto
  with instrument_values_numbered [OF im len, of False] obtain im' where
    im': "instrument_values ?ir ?all (False, im) = Some (?hs \<noteq> [], im')" "numbered ?ir ?hs im'" by auto
  then obtain b im1 where im1: "instrument_values ?ir vs (False, im) = Some (b, im1)"
    "instrument_values ?ir (filter ?keep pv) (b, im1) = Some (?hs \<noteq> [], im')" by (auto simp: instrument_values_append split: bind_splits)
  have "map fst (im_calls im') = ?hs" using im'(2) by (simp add: numbered_def comp_def map_nth)
  then have calls: "fst ` set (im_calls im') = set ?hs" by (metis set_map)
  have "first_iteration False tm (tm_functions tm) ([], [], im) = Some (?Fs, ?pv, im1)" using first [where g = False and im = im] im1(1) by simp
  moreover have "ofold (instrument_pmem_var tm) pv (0, im1) = Some (length pv, im')"
    using pmem_vars_values [of tm pv 0 im1 b] im1(2) by simp
  ultimately have run: "instrumentor_run False tm im = Some (pv, length pv, im')"
    using pv(1) ds(1) by (simp add: instrumentor_run_def)
  have "sorted pv \<and> distinct pv"
  proof -
    have target: "sorted (point_target v t qv) \<and> distinct (point_target v t qv)" if "sorted qv \<and> distinct qv" for v t qv
      using addr_set.inv_ins [OF that, of v] that by (simp add: point_target_def split: option.split)
    have "sorted (fold (point_target v) ps qv) \<and> distinct (fold (point_target v) ps qv)" if "sorted qv \<and> distinct qv" for v ps qv
      using that target by (induction ps arbitrary: qv) simp_all
    then have inst: "sorted (point_inst pta v qv) \<and> distinct (point_inst pta v qv)" if "sorted qv \<and> distinct qv" for pta v qv
      using that by (simp add: point_inst_def split: option.split)
    have step: "sorted (instrumentPmemPointers is pta qv) \<and> distinct (instrumentPmemPointers is pta qv)" if "sorted qv \<and> distinct qv" for "is" pta qv
      using that inst unfolding instrumentPmemPointers_def by (induction "is" arbitrary: qv) simp_all
    show ?thesis using pv(1) addr_set.inv_fold [of "[]" vs] unfolding second_iteration_def
      by (elim ofold_invariant [where P = "\<lambda>qv. sorted qv \<and> distinct qv"]) (auto simp: step split: if_splits option.splits)
  qed
  then have "pv = sorted_list_of_set (located_vars tm \<union> pointers_to tm funcs (located_vars tm))"
    using addr_set.elements [of pv] unfolding pv(2) by simp
  then show ?thesis using run calls unfolding hs by (intro exI [of _ pv] exI [of _ im'] conjI)
qed

lemma initHookFuncs_numbered: "numbered ir [] (snd (initHookFuncs has_main (new_instrumenter False)))"
  using new_instrumenter_numbered [of ir] by (auto simp: initHookFuncs_def Let_def numbered_def new_instrumenter_def)

lemma ofold_blocked:
  assumes "x \<in> set xs" and "P s" and "\<And>y s t. P s \<Longrightarrow> f y s = Some t \<Longrightarrow> P t" and "\<And>s. P s \<Longrightarrow> f x s = None"
  shows "ofold f xs s = None"
  using assms(1,2)
proof (induction xs arbitrary: s)
  case (Cons y xs)
  show ?case
  proof (cases "f y s")
    case (Some t)
    then show ?thesis using Cons assms(3,4) by (cases "x = y") auto
  qed simp
qed simp

lemma slice_keeps_graphs:
  assumes "slice_instr func_of M start slice_id kind deps ds = Some (r, i, ds')"
  shows "ds_func_dgs ds' = ds_func_dgs ds"
  using assms
  by (auto simp: slice_instr_def slice_from_node_def markSliceId_def Let_def
    split: bind_splits option.splits slicing_approach.splits if_splits)

lemma tool_round_keeps_graphs:
  assumes "tool_slice_round opts ir fns func_of M fault st = Some st'"
  shows "ds_func_dgs (pa_slicer st') = ds_func_dgs (pa_slicer st)"
proof -
  have "ds_func_dgs ds' = ds_func_dgs ds"
    if "tool_instructionSlice opts func_of M fault vars [] counts ds = Some (slices, counts', ds')" for vars counts ds slices counts' ds'
    using that slice_keeps_graphs by (auto simp: tool_instructionSlice_def split: bind_splits option.splits prod.splits)
  then show ?thesis using assms by (auto simp: tool_slice_round_def Let_def split: bind_splits)
qed

lemma tool_round_without_graph:
  assumes "ds_func_dgs (pa_slicer st) = Some funcs" and "map_of funcs (func_of fault) = None"
  shows "tool_slice_round opts ir fns func_of M fault st = None"
  using assms by (auto simp: tool_slice_round_def tool_instructionSlice_def slice_instr_def getDependenceGraph_def Let_def split: bind_splits)

text \<open>The extractor collects the same pointers as the instrumentor; its count of insertions counts repetitions as well.\<close>

lemma extract_same_vars:
  "ex_pmem_vars (extractPmemPointers is pta ex) = instrumentPmemPointers is pta (ex_pmem_vars ex) \<and>
   ex_instruction_count (extractPmemPointers is pta ex) = ex_instruction_count ex + int (length is)"
proof -
  have targets: "ex_pmem_vars (fold (extract_target v) ps ex) = fold (point_target v) ps (ex_pmem_vars ex) \<and>
      ex_instruction_count (fold (extract_target v) ps ex) = ex_instruction_count ex" for v ps ex
    by (induction ps arbitrary: ex) (simp_all add: extract_target_def point_target_def split: option.split)
  have "ex_pmem_vars (extract_inst pta v ex) = point_inst pta v (ex_pmem_vars ex) \<and>
      ex_instruction_count (extract_inst pta v ex) = ex_instruction_count ex + 1" for v ex
    by (simp add: extract_inst_def point_inst_def Let_def targets split: option.split)
  then show ?thesis unfolding extractPmemPointers_def instrumentPmemPointers_def by (induction "is" arbitrary: ex) simp_all
qed

lemma slicer_exit_status:
  assumes "parseSlicingCriteriaOpt \<lparr>so_file_lines = sl_criteria opts, so_inst = sl_inst opts, so_func = sl_func opts, so_inst_no = sl_inst_no opts,
      so_fuzzy_match = True, so_ignore_dbg = True\<rparr> M [] = Some (True, insts)" and "sl_hook_pmem opts" and "\<not> tm_has_main tm" and "insts \<noteq> []"
  shows "slicer_main opts (Some (M, tm)) value_of counts = Some (0, Some (None, None))"
  using assms by (simp add: slicer_main_def tool_slice_def initHookFuncs_def new_instrumenter_def case_prod_unfold)

section \<open>Properties\<close>

text \<open>
  C8: what the instrumentor instruments. If the slicer knows the functions of the module and objects point at most to themselves, the tool finds exactly the located variables and regions of the
  functions with variables and the instructions that may point to one of these, in the order of their addresses, and inserts calls behind exactly those that have an address to report. The two
  functions that are to be left out are left out only for the pointers.
\<close>

theorem instrumentor_covers:
  assumes "\<And>v. finite (user_reach (tm_ir tm) v)" and "objects_own tm"
    and "tm_construct tm (createDgOptions instrumentor_flags None) = Some funcs" and "\<And>F. F \<in> defined_functions tm \<Longrightarrow> map_of funcs F \<noteq> None"
    and "\<And>v. v \<in> located_vars tm \<union> pointers_to tm funcs (located_vars tm) \<Longrightarrow> hook_target_of (tm_ir tm) v \<noteq> Unset_address"
    and "card (located_vars tm \<union> pointers_to tm funcs (located_vars tm)) + 200 < 2 ^ 32"
  shows "\<exists>pv im. instrumentor_run False tm (snd (initHookFuncs True (new_instrumenter False))) = Some (pv, length pv, im) \<and>
    pv = sorted_list_of_set (located_vars tm \<union> pointers_to tm funcs (located_vars tm)) \<and>
    fst ` set (im_calls im) = {v \<in> set pv. hooked (tm_ir tm) v \<and>
      (v \<in> located_vars tm \<or> tm_name tm (tm_func_of tm v) \<notin> set excluded_functions)}"
  using instrumentor_run_calls [OF assms initHookFuncs_numbered] .

text \<open>
  C37: the slicer tool and the slicing pass agree. With the default options, whenever the pass returns for some instructions, the tool returns the same: the same
  instrumented program, the same map, the same slicer.
\<close>

theorem slicer_tool_equals_pass:
  assumes "slicing_runOnModule hook dir (tm_ir tm) (tm_function tm) (tm_func_of tm) (tm_graph tm) (tm_construct tm) (tm_has_main tm) (tm_debug tm)
      (tm_uninit tm) (tm_opens tm) (Some insts) counts = Some result" and "insts \<noteq> []"
  shows "tool_slice (default_slicer_options\<lparr>sl_direction := dir, sl_hook_pmem := hook\<rparr>) tm insts counts = Some result"
proof -
  let ?opts = "default_slicer_options\<lparr>sl_direction := dir, sl_hook_pmem := hook\<rparr>"
  have opts: "\<not> sl_ctrl ?opts" "\<not> sl_entry_only ?opts" "sl_direction ?opts = dir" "sl_hook_pmem ?opts = hook"
    by (simp_all add: default_slicer_options_def)
  let ?slicer = "snd (computeDependencies (tm_construct tm (createDgOptions pass_flags None)) (created_slicer dir))"
  let ?init = "if hook then initHookFuncs (tm_has_main tm) (new_instrumenter False) else (True, new_instrumenter False)"
  let ?st = "\<lparr>pa_slicer = ?slicer, pa_locators = Map.empty, pa_counts = counts, pa_im = snd ?init, pa_instrumented = False\<rparr>"
  let ?finish = "\<lambda>st. if hook then do {
      (_, ls) \<leftarrow> writeGuidHookPointMap (tm_uninit tm) (tm_debug tm) (tm_opens tm) (pa_im st);
      Some (pa_instrumented st, Some ls, Some st)
    } else Some (pa_instrumented st, None, Some st)"
  let ?pass = "slice_pass_round hook (tm_ir tm) (tm_function tm) (tm_func_of tm) (tm_graph tm)"
  let ?tool = "tool_slice_round ?opts (tm_ir tm) (tm_function tm) (tm_func_of tm) (tm_graph tm)"
  have tool: "tool_slice ?opts tm insts counts = (if \<not> fst ?init then Some (False, None, None) else Option.bind (ofold ?tool insts ?st) ?finish)"
    using assms(2) by (simp add: tool_slice_def opts default_flags case_prod_unfold Let_def)
  have pass: "(if \<not> fst ?init then Some (False, None, None) else Option.bind (ofold ?pass insts ?st) ?finish) = Some result"
    using assms(1) by (cases hook; cases "fst (initHookFuncs (tm_has_main tm) (new_instrumenter False))") (simp_all add: slicing_runOnModule_def created_slicer_def case_prod_unfold Let_def)
  show ?thesis
  proof (cases "fst ?init")
    case True
    then obtain st where st: "ofold ?pass insts ?st = Some st" "?finish st = Some result" using pass by (auto split: bind_splits)
    have "ofold ?tool insts ?st = Some st"
      using st(1) tool_slice_round_pass [OF opts(1)] unfolding opts(4) by (intro ofold_mono [where f = ?pass and g = ?tool])
    then show ?thesis using tool True st(2) by simp
  qed (use tool pass in simp)
qed

text \<open>
  An instruction of a function without a graph. If dg builds graphs for some functions only, as it does with \<open>-entry-only\<close>, and one of the instructions to slice from is in another function,
  the slicer has no defined behaviour; a comment expects it to complain.
\<close>

theorem slicer_needs_graphs:
  assumes "tm_construct tm (createDgOptions (tool_dg_flags opts) (if sl_entry_only opts then Some (tm_func_of tm (hd insts)) else None)) = Some funcs"
    and "fault \<in> set insts" and "map_of funcs (tm_func_of tm fault) = None" and "tm_has_main tm"
  shows "tool_slice opts tm insts counts = None"
proof -
  let ?round = "tool_slice_round opts (tm_ir tm) (tm_function tm) (tm_func_of tm) (tm_graph tm)"
  have "ofold ?round insts st = None" if "ds_func_dgs (pa_slicer st) = Some funcs" for st
    by (rule ofold_blocked [where P = "\<lambda>st. ds_func_dgs (pa_slicer st) = Some funcs", OF assms(2) that])
      (use tool_round_keeps_graphs tool_round_without_graph assms(3) in auto)
  moreover have "insts \<noteq> []" using assms(2) by auto
  moreover have "fst (initHookFuncs (tm_has_main tm) (new_instrumenter False))"
    using assms(4) by (simp add: initHookFuncs_def new_instrumenter_def Let_def)
  ultimately show ?thesis using assms(1)
    by (auto simp: tool_slice_def computeDependencies_def created_slicer_def case_prod_unfold Let_def)
qed

text \<open>
  C38: the analyzer tool and the standalone reactor resolve a trace in the same way: with the GUID map read from the same lines and the same trace file, the tool
  succeeds exactly if the preparation of the trace does, with the same trace.
\<close>

theorem analyzer_agrees_with_reactor:
  assumes "deserialize_map False guid_lines [] = Done var_map" and "opt_address_file options = Some file"
  shows "analyzer_main (Some M) value_of (Some guid_lines) (ho_lines host file) = Some (Done (0, Some t)) \<longleftrightarrow>
    prepare_standalone host value_of M var_map options = Some (Done t)"
proof -
  have translated: "fst r" if "resolve_trace M value_of t1 = Some r" for t1 r
    using that by (auto simp: resolve_trace_def addressesToInstructions_def split: if_splits)
  show ?thesis
    using assms translated
    by (auto simp: analyzer_main_def prepare_standalone_def split: option.splits outcome.splits prod.splits if_splits bind_splits)
qed

text \<open>
  A module for the tools: the values of the example of the slicing pass, in one of the functions that the instrumentor is meant to leave out. The load 12 may point to
  what the mapping 11 returns.
\<close>

definition sample_tool_module :: tool_module where
  "sample_tool_module = \<lparr>tm_ir = pass_ir, tm_functions = [0], tm_function = (\<lambda>_. pass_function), tm_name = (\<lambda>_. ''do_slabs_free''),
     tm_func_of = (\<lambda>_. 0), tm_later = (\<lambda>_. [11, 10, 12]), tm_has_main = True,
     tm_debug = (\<lambda>_. \<lparr>id_line = None, id_function = ''do_slabs_free'', id_subprogram = None, id_text = []\<rparr>), tm_uninit = 0, tm_opens = True,
     tm_construct = (\<lambda>_. Some [(0, 0)]), tm_graph = sample_mgraph, tm_pta = (\<lambda>_. Some (\<lambda>v. if v = 12 \<or> v = 11 then Some [Some 11, None] else None)),
     tm_rda = (\<lambda>_. True)\<rparr>"

lemma regions_of_subset: "regions_of ir c \<subseteq> {c}"
  by (auto simp: regions_of_def region_created_def split: option.splits opcode.splits if_splits)

lemma sample_tool_vars: "located_vars sample_tool_module \<union> pointers_to sample_tool_module [(0, 0)] (located_vars sample_tool_module) \<subseteq> {10, 11, 12}"
proof -
  have "located_in pass_ir pass_function \<subseteq> {10, 11, 12}"
    using pass_function_vars regions_of_subset [of pass_ir] by (fastforce simp: located_in_def pass_function_def split: if_splits)
  then show ?thesis by (auto simp: located_vars_def defined_functions_def sample_tool_module_def pointers_to_def)
qed

lemma sample_tool_targets: "v \<in> {10, 11, 12} \<Longrightarrow> hook_target_of pass_ir v \<noteq> Unset_address"
  by (auto simp: pass_ir_def hook_target_of_def hook_target_of_call_def hook_token_def callReturnsPmemVar_def pmdkPMEMVariableReturnSet_def)

lemma sample_tool_graphs: "tm_construct sample_tool_module opts = Some [(0, 0)]"
  by (simp add: sample_tool_module_def)

theorem instrumentor_covers_witness:
  "(\<exists>pv im. instrumentor_run False sample_tool_module (snd (initHookFuncs True (new_instrumenter False))) = Some (pv, length pv, im) \<and>
     pv = sorted_list_of_set (located_vars sample_tool_module \<union> pointers_to sample_tool_module [(0, 0)] (located_vars sample_tool_module)) \<and>
     fst ` set (im_calls im) = {v \<in> set pv. hooked (tm_ir sample_tool_module) v \<and> (v \<in> located_vars sample_tool_module \<or>
       tm_name sample_tool_module (tm_func_of sample_tool_module v) \<notin> set excluded_functions)}) \<and>
   map_option (\<lambda>(pv, n, im). (pv, n, map fst (im_calls im)))
     (instrumentor_run False sample_tool_module (snd (initHookFuncs True (new_instrumenter False)))) = Some ([10, 11, 12], 3, [11, 10])"
proof
  let ?tm = sample_tool_module and ?V = "located_vars sample_tool_module"
  show "\<exists>pv im. instrumentor_run False ?tm (snd (initHookFuncs True (new_instrumenter False))) = Some (pv, length pv, im) \<and>
     pv = sorted_list_of_set (?V \<union> pointers_to ?tm [(0, 0)] ?V) \<and>
     fst ` set (im_calls im) = {v \<in> set pv. hooked (tm_ir ?tm) v \<and> (v \<in> ?V \<or> tm_name ?tm (tm_func_of ?tm v) \<notin> set excluded_functions)}"
  proof (rule instrumentor_covers)
    show "finite (user_reach (tm_ir ?tm) v)" for v by (simp add: sample_tool_module_def pass_ir_finite)
    show "objects_own ?tm" by (auto simp: objects_own_def points_at_def sample_tool_module_def split: if_splits)
    show "tm_construct ?tm (createDgOptions instrumentor_flags None) = Some [(0, 0)]" by (simp add: sample_tool_module_def)
    show "map_of [(0 :: nat, 0 :: nat)] F \<noteq> None" if "F \<in> defined_functions ?tm" for F
      using that by (simp add: defined_functions_def sample_tool_module_def)
    show "hook_target_of (tm_ir ?tm) v \<noteq> Unset_address" if "v \<in> ?V \<union> pointers_to ?tm [(0, 0)] ?V" for v
      using sample_tool_targets sample_tool_vars that by (auto simp: sample_tool_module_def)
    have "card (?V \<union> pointers_to ?tm [(0, 0)] ?V) \<le> card {10 :: nat, 11, 12}" by (rule card_mono [OF _ sample_tool_vars]) simp
    then show "card (?V \<union> pointers_to ?tm [(0, 0)] ?V) + 200 < 2 ^ 32" by simp
  qed
  show "map_option (\<lambda>(pv, n, im). (pv, n, map fst (im_calls im))) (instrumentor_run False ?tm (snd (initHookFuncs True (new_instrumenter False)))) =
      Some ([10, 11, 12], 3, [11, 10])"
    unfolding instrumentor_run_def sample_tool_graphs by code_simp
qed

definition no_counts :: persistence_counts where
  "no_counts = \<lparr>pc_volatile = 0, pc_persistent = 0, pc_mixed = 0\<rparr>"

theorem slicer_needs_graphs_witness:
  "tool_slice (default_slicer_options\<lparr>sl_entry_only := True\<rparr>) (sample_tool_module\<lparr>tm_func_of := (\<lambda>v. if v = 12 then 1 else 0)\<rparr>) [10, 12] no_counts = None"
  by (rule slicer_needs_graphs [where funcs = "[(0, 0)]" and fault = 12]) (simp_all add: sample_tool_module_def)

theorem slicer_tool_equals_pass_witness:
  "\<exists>ls st. tool_slice (default_slicer_options\<lparr>sl_direction := Backward, sl_hook_pmem := True\<rparr>) sample_tool_module [10] no_counts = Some (True, Some ls, Some st) \<and>
     map fst (im_calls (pa_im st)) = [11] \<and> length ls = 1"
proof -
  let ?pass = "slicing_runOnModule True Backward (tm_ir sample_tool_module) (tm_function sample_tool_module) (tm_func_of sample_tool_module)
    (tm_graph sample_tool_module) (tm_construct sample_tool_module) (tm_has_main sample_tool_module) (tm_debug sample_tool_module)
    (tm_uninit sample_tool_module) (tm_opens sample_tool_module) (Some [10]) no_counts"
  have "(case ?pass of Some (b, Some ls, Some st) \<Rightarrow> b \<and> map fst (im_calls (pa_im st)) = [11] \<and> length ls = 1 | _ \<Rightarrow> False)"
    unfolding slicing_runOnModule_def sample_tool_graphs by code_simp
  then obtain ls st where pass: "?pass = Some (True, Some ls, Some st)" and r: "map fst (im_calls (pa_im st)) = [11]" "length ls = 1"
    by (auto split: option.splits)
  from slicer_tool_equals_pass [OF pass] r show ?thesis by simp
qed

definition sample_guid_lines :: "string list" where
  "sample_guid_lines = [''200##/src##hello.c##main##76##call %struct.pmemobjpool* @pmemobj_create(i8* %25)'',
     ''201##/src##hello.c##main##76##%4 = load i64, i64* %3, !dbg !9'']"

theorem analyzer_agrees_with_reactor_witness:
  "\<exists>t. analyzer_main (Some sample_module) in_id (Some sample_guid_lines) (ho_lines sample_host ''trace'') = Some (Done (0, Some t)) \<and>
     map ti_instr (at_items t) = [None, Some 2, Some 2]"
proof -
  let ?options = "zero_options\<lparr>opt_address_file := Some ''trace''\<rparr>"
  have "(case deserialize_map False sample_guid_lines [] of Done gm \<Rightarrow>
      (case prepare_standalone sample_host in_id sample_module gm ?options of Some (Done t) \<Rightarrow> map ti_instr (at_items t) = [None, Some 2, Some 2] | _ \<Rightarrow> False) | _ \<Rightarrow> False)" (is "case _ of Done gm \<Rightarrow> ?P gm | _ \<Rightarrow> _")
    by code_simp
  then obtain gm where gm: "deserialize_map False sample_guid_lines [] = Done gm" and "?P gm" by (cases "deserialize_map False sample_guid_lines []") simp_all
  from this(2) obtain t where t: "prepare_standalone sample_host in_id sample_module gm ?options = Some (Done t)"
    "map ti_instr (at_items t) = [None, Some 2, Some 2]"
    by (cases "prepare_standalone sample_host in_id sample_module gm ?options") (auto split: outcome.splits)
  have "opt_address_file ?options = Some ''trace''" by simp
  have "analyzer_main (Some sample_module) in_id (Some sample_guid_lines) (ho_lines sample_host ''trace'') = Some (Done (0, Some t))"
    by (rule analyzer_agrees_with_reactor [OF gm \<open>opt_address_file ?options = Some ''trace''\<close>, THEN iffD2, OF t(1)])
  then show ?thesis using t(2) by (intro exI [of _ t] conjI)
qed

end
