(* ===== verification/Tracker.thy ===== *)
theory Tracker
  imports TraceMonitor "HOL-Library.Sublist"
begin

text \<open>
  The runtime that an instrumented program is linked with (\<open>analyzer/runtime/addr_tracker.c\<close>): it opens a file in the directory of the program, writes a line for every
  reported address, and closes the file at the end or on a signal. The lines go through the buffer of the C library, which reaches the file in pieces; a background
  thread was meant to write in batches. The lemmas show that the file always holds a prefix of the reports, also when the program
  is killed, and what a reader of the file gets.
\<close>

section \<open>State\<close>

text \<open>
  The stream \<open>__arthas_tracker_file\<close>, null until the file is opened; the content of the file as other processes see it, and what is still in the buffer of the
  stream; the arrays of addresses and numbers with the count of used entries.
\<close>

datatype tracker_stream = No_stream | Open_stream | Closed_stream

record tracker =
  tr_stream :: tracker_stream
  tr_file :: string
  tr_buffer :: string
  tr_slots :: "nat \<Rightarrow> addr \<times> nat"
  tr_address_count :: nat

definition FLUSH_LIMIT :: nat where "FLUSH_LIMIT = 100000"

definition MAX_FILE_NAME_SIZE :: nat where "MAX_FILE_NAME_SIZE = 128"

definition unused_tracker :: "(nat \<Rightarrow> addr \<times> nat) \<Rightarrow> tracker" where
  "unused_tracker slots = \<lparr>tr_stream = No_stream, tr_file = [], tr_buffer = [], tr_slots = slots, tr_address_count = 0\<rparr>"

section \<open>The stream\<close>

text \<open>Using a stream that is closed, or a null stream other than in \<open>fflush\<close>, is undefined.\<close>

definition stream_print :: "string \<Rightarrow> tracker \<Rightarrow> tracker option" where
  "stream_print s st = (if tr_stream st = Open_stream then Some (st\<lparr>tr_buffer := tr_buffer st @ s\<rparr>) else None)"

definition stream_flush :: "tracker \<Rightarrow> tracker option" where
  "stream_flush st = (case tr_stream st of Closed_stream \<Rightarrow> None | No_stream \<Rightarrow> Some st
     | Open_stream \<Rightarrow> Some (st\<lparr>tr_file := tr_file st @ tr_buffer st, tr_buffer := []\<rparr>))"

definition stream_close :: "tracker \<Rightarrow> tracker option" where
  "stream_close st = (if tr_stream st = Open_stream
     then Some (st\<lparr>tr_file := tr_file st @ tr_buffer st, tr_buffer := [], tr_stream := Closed_stream\<rparr>) else None)"

section \<open>Operations\<close>

definition tracker_line :: "addr \<Rightarrow> nat \<Rightarrow> string" where
  "tracker_line a guid = track_addr a guid @ [CHR 0x0A]"

definition tracker_file_name :: "nat \<Rightarrow> string" where
  "tracker_file_name pid = take (MAX_FILE_NAME_SIZE - 1) (''pmem_addr_pid_'' @ print_base 10 pid @ ''.dat'')"

text \<open>The loop over the arrays, in the background thread and at the end.\<close>

definition write_slots :: "tracker \<Rightarrow> tracker option" where
  "write_slots st = ofold (\<lambda>i st. stream_print (tracker_line (fst (tr_slots st i)) (snd (tr_slots st i))) st) [0..<tr_address_count st] st"

text \<open>One round of the endless loop of the background thread, which spins as long as there are too few addresses.\<close>

definition myThreadFun :: "tracker \<Rightarrow> tracker option" where
  "myThreadFun st = (if tr_address_count st < FLUSH_LIMIT then Some st
     else map_option (\<lambda>st'. st'\<lparr>tr_address_count := 0\<rparr>) (write_slots st))"

text \<open>Creating the mutex or opening the file may fail; an existing file is truncated, and the arrays are allocated afresh.\<close>

definition addr_tracker_init :: "bool \<Rightarrow> bool \<Rightarrow> (nat \<Rightarrow> addr \<times> nat) \<Rightarrow> tracker \<Rightarrow> tracker" where
  "addr_tracker_init mutex_ok opens slots st = (if \<not> mutex_ok then st
     else if opens then st\<lparr>tr_stream := Open_stream, tr_file := [], tr_buffer := [], tr_slots := slots\<rparr>
     else st\<lparr>tr_stream := No_stream, tr_slots := slots\<rparr>)"

text \<open>\<open>__arthas_track_addr\<close>.\<close>

definition report_addr :: "addr \<Rightarrow> nat \<Rightarrow> tracker \<Rightarrow> tracker option" where
  "report_addr a guid st = stream_print (tracker_line a guid) st"

definition addr_tracker_dump :: "tracker \<Rightarrow> (bool \<times> tracker) option" where
  "addr_tracker_dump st = map_option (\<lambda>st'. (True, st')) (stream_flush st)"

definition addr_tracker_finish :: "tracker \<Rightarrow> tracker option" where
  "addr_tracker_finish st = do {
     st1 \<leftarrow> write_slots st;
     st2 \<leftarrow> stream_flush (st1\<lparr>tr_address_count := 0\<rparr>);
     stream_close st2
   }"

text \<open>The handler of signals; \<open>exit\<close> runs the destructors, among them \<open>__arthas_addr_tracker_finish\<close>, which the instrumenter registers.\<close>

definition tracker_termination :: "tracker \<Rightarrow> tracker option" where
  "tracker_termination st = Option.bind (stream_close st) addr_tracker_finish"

section \<open>Runs\<close>

text \<open>
  What happens between the start and the end, in any order: reports of the program, requests to write what there is, rounds of the background thread, and
  the C library writing out the first characters of the buffer.
\<close>

datatype tracker_event = Report addr nat | Dump | Background | Write_out nat

fun tracker_event_step :: "tracker_event \<Rightarrow> tracker \<Rightarrow> tracker option" where
  "tracker_event_step (Report a guid) st = report_addr a guid st"
| "tracker_event_step Dump st = map_option snd (addr_tracker_dump st)"
| "tracker_event_step Background st = myThreadFun st"
| "tracker_event_step (Write_out n) st = Some (st\<lparr>tr_file := tr_file st @ take n (tr_buffer st), tr_buffer := drop n (tr_buffer st)\<rparr>)"

definition tracker_run :: "tracker_event list \<Rightarrow> tracker \<Rightarrow> tracker option" where
  "tracker_run = ofold tracker_event_step"

fun reported :: "tracker_event list \<Rightarrow> (addr \<times> nat) list" where
  "reported [] = []"
| "reported (Report a guid # es) = (a, guid) # reported es"
| "reported (e # es) = reported es"

definition report_text :: "(addr \<times> nat) list \<Rightarrow> string" where
  "report_text rs = concat (map (\<lambda>(a, guid). tracker_line a guid) rs)"

section \<open>The content of the file\<close>

text \<open>The invariant of a run: the file is open, nothing is in the arrays, and file and buffer hold the reports so far.\<close>

definition tracker_inv :: "(addr \<times> nat) list \<Rightarrow> tracker \<Rightarrow> bool" where
  "tracker_inv rs st \<longleftrightarrow> tr_stream st = Open_stream \<and> tr_address_count st = 0 \<and> tr_file st @ tr_buffer st = report_text rs"

lemma report_text_append: "report_text (rs @ ss) = report_text rs @ report_text ss"
  by (simp add: report_text_def)

lemma reported_append: "reported (es @ fs) = reported es @ reported fs"
  by (induction es rule: reported.induct) simp_all

lemma tracker_event_inv:
  assumes "tracker_inv rs st"
  shows "\<exists>st'. tracker_event_step e st = Some st' \<and> tracker_inv (rs @ reported [e]) st'"
  using assms
  by (cases e) (auto simp: tracker_inv_def report_addr_def stream_print_def addr_tracker_dump_def stream_flush_def myThreadFun_def FLUSH_LIMIT_def
    report_text_def)

lemma tracker_run_inv:
  assumes "tracker_inv rs st"
  shows "\<exists>st'. tracker_run es st = Some st' \<and> tracker_inv (rs @ reported es) st'"
  using assms
proof (induction es arbitrary: rs st)
  case (Cons e es)
  obtain st1 where "tracker_event_step e st = Some st1" "tracker_inv (rs @ reported [e]) st1"
    using tracker_event_inv [OF Cons.prems] by blast
  moreover have "reported (e # es) = reported [e] @ reported es" using reported_append [of "[e]" es] by simp
  ultimately show ?case using Cons.IH [of "rs @ reported [e]" st1] by (simp add: tracker_run_def)
qed (simp add: tracker_run_def)

lemma init_inv: "tr_address_count st = 0 \<Longrightarrow> tracker_inv [] (addr_tracker_init True True slots st)"
  by (simp add: tracker_inv_def addr_tracker_init_def report_text_def)

lemma finish_writes:
  assumes "tracker_inv rs st"
  shows "\<exists>st'. addr_tracker_finish st = Some st' \<and> tr_file st' = report_text rs \<and> tr_stream st' = Closed_stream"
  using assms by (auto simp: tracker_inv_def addr_tracker_finish_def write_slots_def stream_flush_def stream_close_def)

section \<open>Reading the file\<close>

lemma text_lines_prefix:
  assumes "\<forall>l \<in> set ls. CHR 0x0A \<notin> set l" and "prefix s (concat (map (\<lambda>l. l @ [CHR 0x0A]) ls))"
  shows "\<exists>n \<le> length ls. fst (text_lines s) = take n ls"
  using assms
proof (induction ls arbitrary: s)
  case Nil
  then show ?case by (simp add: text_lines_plain)
next
  case (Cons l ls)
  let ?rest = "concat (map (\<lambda>l. l @ [CHR 0x0A]) ls)"
  have s: "prefix s ((l @ [CHR 0x0A]) @ ?rest)" using Cons.prems(2) by simp
  show ?case
  proof (cases "prefix s l")
    case True
    then have "CHR 0x0A \<notin> set s" using Cons.prems(1) set_mono_prefix by fastforce
    then show ?thesis by (simp add: text_lines_plain)
  next
    case False
    then obtain s' where s': "s = l @ CHR 0x0A # s'" "prefix s' ?rest" using s by (auto simp: prefix_append prefix_Cons)
    then obtain n where n: "n \<le> length ls" "fst (text_lines s') = take n ls" using Cons by auto
    have "fst (text_lines s) = l # take n ls" using s'(1) n(2) Cons.prems(1) by (simp add: text_lines_line)
    then show ?thesis using n(1) by (intro exI [of _ "Suc n"]) simp
  qed
qed

lemma digits_no_newline:
  assumes "b = 10 \<or> b = 16"
  shows "CHR 0x0A \<notin> set (print_base b n)"
proof
  assume "CHR 0x0A \<in> set (print_base b n)"
  moreover have b: "2 \<le> b" "b \<le> 16" using assms by auto
  ultimately obtain d where "d < b" "CHR 0x0A = digit_char d" using print_base_digits [OF b, of n] by blast
  then have "(of_char (CHR 0x0A) :: nat) = (if d < 10 then 48 + d else 87 + d)" using of_char_digit [of d] b(2) by simp
  then show False by (auto split: if_splits)
qed

lemma track_no_newline: "CHR 0x0A \<notin> set (track_addr a guid)"
  using digits_no_newline [of 10] digits_no_newline [of 16] by (simp add: track_addr_def print_ptr_def)

lemma report_lines: "report_text rs = concat (map (\<lambda>l. l @ [CHR 0x0A]) (map (\<lambda>(a, guid). track_addr a guid) rs))"
  by (simp add: report_text_def tracker_line_def comp_def case_prod_unfold)

text \<open>The items that a reader gets for reports.\<close>

definition parsed_as :: "guid_map option \<Rightarrow> 'i trace_item \<Rightarrow> addr \<times> nat \<Rightarrow> bool" where
  "parsed_as varMap item r \<longleftrightarrow> parse_item varMap (track_addr (fst r) (snd r)) = Done item"

lemma deserialize_reports:
  fixes t :: "'i addr_trace"
  assumes "\<forall>(a, guid) \<in> set rs. a \<noteq> 0 \<and> guid < 2 ^ 32"
  shows "\<exists>t' items. deserialize_trace varMap (map (\<lambda>(a, guid). track_addr a guid) rs) t = Done t' \<and>
    at_items t' = at_items t @ items \<and> list_all2 (parsed_as varMap) items rs"
  using assms
proof (induction rs arbitrary: t)
  case (Cons r rs)
  obtain a guid where r: "r = (a, guid)" by (cases r)
  obtain item :: "'i trace_item" where item: "parse_item varMap (track_addr a guid) = Done item"
    using parse_track [of a guid varMap] Cons.prems r by auto
  obtain t' items where "deserialize_trace varMap (map (\<lambda>(a, guid). track_addr a guid) rs) (trace_add t item) = Done t'"
    "at_items t' = at_items (trace_add t item) @ items" "list_all2 (parsed_as varMap) items rs"
    using Cons.IH [of "trace_add t item"] Cons.prems by auto
  then show ?case using r item by (intro exI [of _ t'] exI [of _ "item # items"]) (simp add: trace_add_def, simp add: parsed_as_def [of varMap item])
qed simp

lemma parsed_as_report:
  fixes item :: "'i trace_item"
  assumes "parsed_as varMap item (a, guid)" and "a \<noteq> 0" and "guid < 2 ^ 32"
  shows "ti_addr item = a \<and> ti_guid item = int guid"
proof -
  obtain it :: "'i trace_item" where "parse_item varMap (track_addr a guid) = Done it" "ti_addr it = a" "ti_guid it = int guid"
    using parse_track [OF assms(2,3), of varMap] by blast
  then show ?thesis using assms(1) by (simp add: parsed_as_def)
qed

lemma list_all2_map_eq: "list_all2 (\<lambda>x y. f x = g y) xs ys \<Longrightarrow> map f xs = map g ys"
  by (induction rule: list_all2_induct) simp_all

lemma tracker_run_of_init:
  assumes "tracker_run es (addr_tracker_init True True slots (unused_tracker slots0)) = Some st"
  shows "tracker_inv (reported es) st"
proof -
  have "tracker_inv [] (addr_tracker_init True True slots (unused_tracker slots0))" by (rule init_inv) (simp add: unused_tracker_def)
  from tracker_run_inv [OF this, of es] assms show ?thesis by auto
qed

lemma tracker_prefix: "tracker_inv rs st \<Longrightarrow> prefix (tr_file st) (report_text rs)"
  by (metis prefixI tracker_inv_def)

lemma file_items:
  fixes varMap :: "guid_map option"
  assumes inv: "tracker_inv rs st" and addrs: "\<forall>(a, guid) \<in> set rs. a \<noteq> 0 \<and> guid < 2 ^ 32"
  shows "\<exists>n \<le> length rs. \<exists>t :: 'i addr_trace. deserialize_trace varMap (fst (text_lines (tr_file st))) empty_trace = Done t \<and>
    list_all2 (parsed_as varMap) (at_items t) (take n rs) \<and>
    (\<exists>mo. ofold (monitor_line varMap) (getlines (tr_file st)) start_monitor = Some mo \<and> mo_trace mo = t)"
proof -
  let ?ls = "map (\<lambda>(a, guid). track_addr a guid) rs"
  have "prefix (tr_file st) (concat (map (\<lambda>l. l @ [CHR 0x0A]) ?ls))" using tracker_prefix [OF inv] unfolding report_lines .
  moreover have "\<forall>l \<in> set ?ls. CHR 0x0A \<notin> set l" using track_no_newline by auto
  ultimately obtain n where n: "n \<le> length rs" "fst (text_lines (tr_file st)) = take n ?ls"
    using text_lines_prefix [of ?ls "tr_file st"] by auto
  have "\<forall>(a, guid) \<in> set (take n rs). a \<noteq> 0 \<and> guid < 2 ^ 32" using addrs by (auto dest: in_set_takeD)
  from deserialize_reports [OF this, of varMap "empty_trace :: 'i addr_trace"] obtain t :: "'i addr_trace" where
    t: "deserialize_trace varMap (fst (text_lines (tr_file st))) empty_trace = Done t" "list_all2 (parsed_as varMap) (at_items t) (take n rs)"
    unfolding n(2) take_map by (auto simp: empty_trace_def)
  have "follows varMap [] (start_monitor :: 'i monitor_state)" by (simp add: follows_def start_monitor_def text_lines_plain)
  from monitor_lines_follow [OF this, of "tr_file st" t] t(1) obtain mo :: "'i monitor_state" where
    "ofold (monitor_line varMap) (getlines (tr_file st)) start_monitor = Some mo" "follows varMap (tr_file st) mo" by auto
  then show ?thesis using n(1) t by (auto simp: follows_def)
qed

section \<open>Properties\<close>

text \<open>
  C39: the file of the runtime. From a successful start, every sequence of reports, dumps, rounds of the background thread and partial writes of the C library is defined; the file holds at all
  times a prefix of the text of the reports, and after the end all of it.
\<close>

theorem tracker_file_prefix:
  "\<exists>st st'. tracker_run es (addr_tracker_init True True slots (unused_tracker slots0)) = Some st \<and> prefix (tr_file st) (report_text (reported es)) \<and>
    addr_tracker_finish st = Some st' \<and> tr_file st' = report_text (reported es)"
proof -
  have "tracker_inv [] (addr_tracker_init True True slots (unused_tracker slots0))" by (rule init_inv) (simp add: unused_tracker_def)
  from tracker_run_inv [OF this, of es] obtain st where
    st: "tracker_run es (addr_tracker_init True True slots (unused_tracker slots0)) = Some st" "tracker_inv (reported es) st" by auto
  then show ?thesis using finish_writes [OF st(2)] tracker_prefix [OF st(2)] by blast
qed

text \<open>
  A program that is killed. Whatever has happened before, the complete lines of the file give the items of the first reports, in their order, if no
  null address was reported; and the thread that follows the file holds exactly these after it has seen the file.
\<close>

theorem killed_program_trace:
  fixes varMap :: "guid_map option"
  assumes run: "tracker_run es (addr_tracker_init True True slots (unused_tracker slots0)) = Some st"
    and addrs: "\<forall>(a, guid) \<in> set (reported es). a \<noteq> 0 \<and> guid < 2 ^ 32"
  shows "\<exists>n \<le> length (reported es). \<exists>t :: 'i addr_trace. deserialize_trace varMap (fst (text_lines (tr_file st))) empty_trace = Done t \<and>
    map (\<lambda>it. (ti_addr it, ti_guid it)) (at_items t) = map (\<lambda>(a, guid). (a, int guid)) (take n (reported es)) \<and>
    (\<exists>mo. ofold (monitor_line varMap) (getlines (tr_file st)) start_monitor = Some mo \<and> mo_trace mo = t)"
proof -
  from file_items [OF tracker_run_of_init [OF run] addrs, of varMap] obtain n and t :: "'i addr_trace" where
    n: "n \<le> length (reported es)" and t: "deserialize_trace varMap (fst (text_lines (tr_file st))) empty_trace = Done t"
      "list_all2 (parsed_as varMap) (at_items t) (take n (reported es))"
      "\<exists>mo. ofold (monitor_line varMap) (getlines (tr_file st)) start_monitor = Some mo \<and> mo_trace mo = t" by blast
  have "(ti_addr item, ti_guid item) = (a, int guid)" if "parsed_as varMap item (a, guid)" "(a, guid) \<in> set (take n (reported es))"
    for item :: "'i trace_item" and a guid
    using parsed_as_report [OF that(1)] that(2) addrs by (auto dest: in_set_takeD)
  then have "list_all2 (\<lambda>item r. (ti_addr item, ti_guid item) = (case r of (a, guid) \<Rightarrow> (a, int guid))) (at_items t) (take n (reported es))"
    by (intro list.rel_mono_strong [OF t(2)]) auto
  then have "map (\<lambda>it. (ti_addr it, ti_guid it)) (at_items t) = map (\<lambda>(a, guid). (a, int guid)) (take n (reported es))"
    by (rule list_all2_map_eq)
  then show ?thesis using n t by blast
qed

text \<open>
  C40: a signal. The handler closes the file, and then \<open>exit\<close> runs the destructor that flushes and closes it once more, which is undefined; what was reported is in the file by then.
\<close>

theorem signal_closes_twice:
  assumes "tracker_run es (addr_tracker_init True True slots (unused_tracker slots0)) = Some st"
  shows "tracker_termination st = None \<and> (\<exists>st'. stream_close st = Some st' \<and> tr_file st' = report_text (reported es))"
  using tracker_run_of_init [OF assms]
  by (auto simp: tracker_inv_def tracker_termination_def stream_close_def addr_tracker_finish_def write_slots_def stream_flush_def)

text \<open>The background thread has nothing to do, since reports do not go into the arrays; without the file, the first report is undefined.\<close>

lemma background_idle: "tracker_inv rs st \<Longrightarrow> myThreadFun st = Some st"
  by (simp add: tracker_inv_def myThreadFun_def FLUSH_LIMIT_def)

lemma no_file_undefined: "\<not> mutex_ok \<or> \<not> opens \<Longrightarrow> report_addr a guid (addr_tracker_init mutex_ok opens slots (unused_tracker slots0)) = None"
  by (auto simp: report_addr_def stream_print_def addr_tracker_init_def unused_tracker_def)

text \<open>A line that is cut is read as another number by a reader that does not wait for the end of the line.\<close>

lemma cut_line_misread:
  "case (parse_item None (butlast (track_addr 0x140 201)) :: nat trace_item outcome) of Done it \<Rightarrow> ti_addr it = 0x140 \<and> ti_guid it = 20 | _ \<Rightarrow> False"
  by code_simp

definition sample_events :: "tracker_event list" where
  "sample_events = [Report 0x140 200, Background, Report 0x150 201, Write_out 12, Report 0x160 202]"

definition sample_tracker :: tracker where
  "sample_tracker = addr_tracker_init True True (\<lambda>_. (0, 0)) (unused_tracker (\<lambda>_. (0, 0)))"

lemma sample_tracker_run:
  obtains st where "tracker_run sample_events sample_tracker = Some st" "tr_file st = ''0x140,200'' @ CHR 0x0A # ''0x''"
proof -
  have "tracker_line 0x140 200 = ''0x140,200'' @ [CHR 0x0A]" "tracker_line 0x150 201 = ''0x150,201'' @ [CHR 0x0A]" by code_simp+
  then have "map_option tr_file (tracker_run sample_events sample_tracker) = Some (''0x140,200'' @ CHR 0x0A # ''0x'')"
    by (simp add: sample_events_def sample_tracker_def tracker_run_def addr_tracker_init_def unused_tracker_def report_addr_def stream_print_def
      myThreadFun_def FLUSH_LIMIT_def)
  then show ?thesis using that by auto
qed

theorem killed_program_trace_witness:
  "\<exists>st. tracker_run sample_events sample_tracker = Some st \<and> tr_file st = ''0x140,200'' @ CHR 0x0A # ''0x'' \<and>
     (\<exists>n \<le> 3. \<exists>t :: nat addr_trace. deserialize_trace None (fst (text_lines (tr_file st))) empty_trace = Done t \<and>
       map (\<lambda>it. (ti_addr it, ti_guid it)) (at_items t) = map (\<lambda>(a, guid). (a, int guid)) (take n [(0x140, 200), (0x150, 201), (0x160, 202)]))"
proof -
  obtain st where st: "tracker_run sample_events sample_tracker = Some st" "tr_file st = ''0x140,200'' @ CHR 0x0A # ''0x''" by (rule sample_tracker_run)
  have r: "reported sample_events = [(0x140, 200), (0x150, 201), (0x160, 202)]" by (simp add: sample_events_def)
  have "\<forall>(a, guid) \<in> set (reported sample_events). a \<noteq> 0 \<and> guid < 2 ^ 32" unfolding r by simp
  from killed_program_trace [OF st(1) [unfolded sample_tracker_def] this, of None] obtain n and t :: "nat addr_trace" where
    "n \<le> length (reported sample_events)" "deserialize_trace None (fst (text_lines (tr_file st))) empty_trace = Done t"
    "map (\<lambda>it. (ti_addr it, ti_guid it)) (at_items t) = map (\<lambda>(a, guid). (a, int guid)) (take n (reported sample_events))" by blast
  then have "n \<le> 3 \<and> deserialize_trace None (fst (text_lines (tr_file st))) empty_trace = Done t \<and>
      map (\<lambda>it. (ti_addr it, ti_guid it)) (at_items t) = map (\<lambda>(a, guid). (a, int guid)) (take n [(0x140, 200), (0x150, 201), (0x160, 202)])"
    unfolding r by simp
  then show ?thesis using st by blast
qed

theorem signal_closes_twice_witness:
  "\<exists>st. tracker_run sample_events sample_tracker = Some st \<and> tracker_termination st = None"
proof -
  obtain st where st: "tracker_run sample_events sample_tracker = Some st" by (rule sample_tracker_run)
  from signal_closes_twice [OF this [unfolded sample_tracker_def]] st show ?thesis by blast
qed

end
