(* ===== verification/Tracing.thy ===== *)
theory Tracing
  imports Tracker Instrumenter
begin

text \<open>
  Tracing as a whole: the instrumenter (\<open>Instrumenter\<close>), the runtime of the program it has instrumented (\<open>Tracker\<close>), and the reader of what the runtime has written
  (\<open>AddrTrace\<close>, \<open>TraceMonitor\<close>).
\<close>

section \<open>Runs of an instrumented program\<close>

text \<open>
  The events of a run of the program: what it reports are addresses that are not null, through the calls that have been inserted.
\<close>

definition reports_by :: "instrumenter \<Rightarrow> (addr \<times> nat) list \<Rightarrow> bool" where
  "reports_by im rs \<longleftrightarrow> (\<forall>(a, guid) \<in> set rs. a \<noteq> 0 \<and> (\<exists>i v g. (i, Track_addr v g) \<in> set (im_calls im) \<and> guid = unat g))"

text \<open>An item that belongs to a call behind an instruction: the address, and the function and text of the instruction.\<close>

definition attributed :: "(nat \<Rightarrow> inst_debug) \<Rightarrow> instrumenter \<Rightarrow> 'i trace_item \<Rightarrow> addr \<times> nat \<Rightarrow> bool" where
  "attributed dbg im item r \<longleftrightarrow> ti_addr item = fst r \<and> (\<exists>i v g e. (i, Track_addr v g) \<in> set (im_calls im) \<and> snd r = unat g \<and> ti_var item = Some e \<and>
     ge_function e = id_function (dbg i) \<and> ge_instruction e = id_text (dbg i))"

section \<open>Properties\<close>

text \<open>
  C7: tracing from end to end. After instrumenting values whose functions have debug information, writing the map and running the program, which may be killed at any time, the thread
  that follows the file of the runtime with the map that is read back holds an item for each of the first reports, with the address that was reported and the function and text of the instruction
  behind which it was reported.
\<close>

theorem tracing_end_to_end:
  assumes inst: "instrument_values ir vs (False, new_instrumenter False) = Some (b, im)" and bound: "length vs + 200 < 2 ^ 32"
    and debug: "\<And>i. i \<in> set vs \<Longrightarrow> id_subprogram (dbg i) \<noteq> None"
    and printable: "\<And>i k. i \<in> set vs \<Longrightarrow> k < length vs \<Longrightarrow> entry_printable (entry_for uninit dbg (200 + k) i)"
    and run: "tracker_run es (addr_tracker_init True True slots (unused_tracker slots0)) = Some st" and reports: "reports_by im (reported es)"
  shows "\<exists>gm n. \<exists>mo :: 'i monitor_state. hook_point_map uninit dbg im = Some gm \<and> deserialize_map False (serialize gm) [] = Done gm \<and> n \<le> length (reported es) \<and>
    ofold (monitor_line (Some gm)) (getlines (tr_file st)) start_monitor = Some mo \<and>
    list_all2 (attributed dbg im) (at_items (mo_trace mo)) (take n (reported es))"
proof -
  obtain gm where gm: "hook_point_map uninit dbg im = Some gm" "deserialize_map False (serialize gm) [] = Done gm"
    using map_read_back [OF inst bound debug printable, of False] by (simp add: Let_def)
  have call: "\<exists>(item :: 'i trace_item) e. parse_item (Some gm) (track_addr a (unat g)) = Done item \<and> ti_addr item = a \<and> ti_var item = Some e \<and>
      ge_function e = id_function (dbg i) \<and> ge_instruction e = id_text (dbg i)"
    if "(i, Track_addr v g) \<in> set (im_calls im)" and "a \<noteq> 0" for i v g a
    using call_attributed [OF inst bound debug printable that, of False] gm(1) by auto
  have guid_bound: "unat g < 2 ^ 32" for g :: "32 word" using unsigned_less [of g] by simp
  have addrs: "\<forall>(a, guid) \<in> set (reported es). a \<noteq> 0 \<and> guid < 2 ^ 32"
    using reports guid_bound by (fastforce simp: reports_by_def)
  from file_items [OF tracker_run_of_init [OF run] addrs, of "Some gm"] obtain n and mo :: "'i monitor_state" where
    n: "n \<le> length (reported es)" and mo: "ofold (monitor_line (Some gm)) (getlines (tr_file st)) start_monitor = Some mo"
      "list_all2 (parsed_as (Some gm)) (at_items (mo_trace mo)) (take n (reported es))" by blast
  have "attributed dbg im item r" if item: "parsed_as (Some gm) item r" and r: "r \<in> set (take n (reported es))" for item :: "'i trace_item" and r
  proof -
    obtain a guid where r': "r = (a, guid)" by (cases r)
    then obtain i v g where a: "a \<noteq> 0" "(i, Track_addr v g) \<in> set (im_calls im)" "guid = unat g"
      using reports r by (fastforce simp: reports_by_def dest: in_set_takeD)
    obtain it :: "'i trace_item" and e where "parse_item (Some gm) (track_addr a (unat g)) = Done it" "ti_addr it = a" "ti_var it = Some e"
      "ge_function e = id_function (dbg i)" "ge_instruction e = id_text (dbg i)"
      using call [OF a(2,1)] by blast
    then show ?thesis using item r' a(2,3) by (auto simp: parsed_as_def attributed_def)
  qed
  then have "list_all2 (attributed dbg im) (at_items (mo_trace mo)) (take n (reported es))"
    by (intro list.rel_mono_strong [OF mo(2)])
  then show ?thesis using gm n mo(1) by blast
qed

theorem tracing_end_to_end_witness:
  "\<exists>b im st gm n. \<exists>mo :: nat monitor_state. instrument_values sample_ir [1, 4, 6, 5] (False, new_instrumenter False) = Some (b, im) \<and>
     tracker_run sample_events sample_tracker = Some st \<and> tr_file st = ''0x140,200'' @ CHR 0x0A # ''0x'' \<and>
     ofold (monitor_line (Some gm)) (getlines (tr_file st)) start_monitor = Some mo \<and>
     list_all2 (attributed sample_debug im) (at_items (mo_trace mo)) (take n [(0x140, 200), (0x150, 201), (0x160, 202)])"
proof -
  obtain b im where inst: "instrument_values sample_ir [1, 4, 6, 5] (False, new_instrumenter False) = Some (b, im)" using sample_run by auto
  have "map_option (\<lambda>(b, im). im_calls im) (instrument_values sample_ir [1, 4, 6, 5] (False, new_instrumenter False)) =
      Some [(1, Track_addr 1 200), (4, Track_addr 2 201), (5, Track_addr 2 202)]" by code_simp
  then have calls: "im_calls im = [(1, Track_addr 1 200), (4, Track_addr 2 201), (5, Track_addr 2 202)]" using inst by simp
  have r: "reported sample_events = [(0x140, 200), (0x150, 201), (0x160, 202)]" by (simp add: sample_events_def)
  obtain st where st: "tracker_run sample_events sample_tracker = Some st" "tr_file st = ''0x140,200'' @ CHR 0x0A # ''0x''"
    by (rule sample_tracker_run)
  have printable: "entry_printable (entry_for 0 sample_debug (200 + k) i)" if "i \<in> set [1, 4, 6, 5]" "k < length [1, 4, 6, 5 :: nat]" for i k
    using that by (auto simp: entry_printable_def entry_for_def sample_debug_def FieldSeparator_def)
  have "\<exists>i v g. (i, Track_addr v g) \<in> set (im_calls im) \<and> 200 = unat g"
    by (intro exI [of _ 1] exI [of _ "200 :: 32 word"]) (simp add: calls)
  moreover have "\<exists>i v g. (i, Track_addr v g) \<in> set (im_calls im) \<and> 201 = unat g"
    by (intro exI [of _ 4] exI [of _ 2] exI [of _ "201 :: 32 word"]) (simp add: calls)
  moreover have "\<exists>i v g. (i, Track_addr v g) \<in> set (im_calls im) \<and> 202 = unat g"
    by (intro exI [of _ 5] exI [of _ 2] exI [of _ "202 :: 32 word"]) (simp add: calls)
  ultimately have reports: "reports_by im (reported sample_events)" by (simp add: reports_by_def r)
  have debug: "id_subprogram (sample_debug i) \<noteq> None" for i by (simp add: sample_debug_def)
  have bound: "length [1, 4, 6, 5 :: nat] + 200 < 2 ^ 32" by simp
  have "\<exists>gm n. \<exists>mo :: nat monitor_state. hook_point_map 0 sample_debug im = Some gm \<and> deserialize_map False (serialize gm) [] = Done gm \<and>
     n \<le> length (reported sample_events) \<and> ofold (monitor_line (Some gm)) (getlines (tr_file st)) start_monitor = Some mo \<and>
     list_all2 (attributed sample_debug im) (at_items (mo_trace mo)) (take n (reported sample_events))"
    by (rule tracing_end_to_end [OF inst bound debug printable st(1) [unfolded sample_tracker_def] reports])
  then obtain gm n and mo :: "nat monitor_state" where mo: "ofold (monitor_line (Some gm)) (getlines (tr_file st)) start_monitor = Some mo"
    "list_all2 (attributed sample_debug im) (at_items (mo_trace mo)) (take n (reported sample_events))" by (elim exE conjE)
  show ?thesis using inst st mo unfolding r
    by (intro exI [of _ b] exI [of _ im] exI [of _ st] exI [of _ gm] exI [of _ n] exI [of _ mo] conjI)
qed

end
