(* ===== verification/Spec2Isabelle.thy ===== *)
theory Spec2Isabelle
  imports Service Reconstruct Detector AnalyzerTools Tracing
begin

text \<open>
  A model of Arthas, which brings a program with corrupted persistent memory back to work: it goes back, for the data that a fault depends on, to older
  versions that a checkpoint log has recorded, until the program runs again. This theory imports the whole development.

  \<^bold>\<open>The program.\<close> Arthas consists of three parts.

  The analyzer (\<open>src/analyzer\<close>) works on LLVM bitcode. It locates the variables in persistent memory, gives every instruction that computes one of their addresses
  a number (GUID), and inserts calls that report the address and the GUID when the program runs; the map from GUIDs to source locations is written to a file. It also
  slices: from an instruction it follows the dependence graph, which the third-party library dg builds, to the instructions it depends on.

  The checkpoint library writes versions of persistent data into a checkpoint log while the program runs. The library itself is a
  modified PMDK that is not part of the repository; the reactor reads what it has written.

  The reactor (\<open>src/reactor\<close>) is told the location of a fault, by a client over gRPC or on the command line. It finds the instruction, slices from it, looks up which addresses the
  instructions of the slices have touched according to the address trace, collects the sequence numbers of the versions logged at these addresses, and reverts
  them in a search that runs the program again after each attempt. A small detector (\<open>src/detector\<close>) compares stack traces to tell recurring faults.

  \<^bold>\<open>Conventions.\<close> The outermost \<^term>\<open>None\<close> of a result is undefined behaviour of the C and C++ code: an access outside an object, a null dereference, a wait that never ends. Failures that the code
  handles are values: booleans, option values, or the constructors of \<open>outcome\<close>, \<open>preparation\<close> and \<open>recon_result\<close>. Addresses and bytes are words of 64 and 8 bits; an \<open>int\<close>
  is a mathematical integer with the conversions \<open>to_int32\<close> and \<open>to_u64\<close> written out where the code converts; counters that may wrap are words. LLVM's
  values, functions and dependence graphs are parameters, with the few facts that the code reads of them as record fields. What runs outside the process (the program that is executed again, the
  pool libraries, the debugger, the file system) is a record of functions.

  \<^bold>\<open>The reactor.\<close>
  \<open>Arthas_Prelude\<close>: conversions, option-valued folds, and the locale \<open>hash_chain\<close> of chained hash tables.
  \<open>CMemory\<close>: blocks from \<open>malloc\<close> and mapped persistent memory.
  \<open>SeqLog\<close>: the sequence log and the transaction log of \<open>reactor/include/checkpoint.h\<close> with their operations in \<open>reactor/lib/checkpoint.c\<close>. The
  locales \<open>entry_map\<close> and \<open>entry_multimap\<close> state what a client may rely on; both are interpreted on the code's tables, so that each operation refines one on a finite map.
  \<open>CheckpointLog\<close>: the checkpoint log and the two traversals that fill the other logs (\<open>order_by_sequence_num\<close>, \<open>order_by_tx_id\<close>), shown to make one faithful entry per
  version with private copies.
  \<open>Reconstruct\<close>: \<open>reconstruct_checkpoint\<close>, which moves every pointer of the checkpoint file to a new mapping.
  \<open>Rollback\<close>: \<open>reactor/lib/rollback.c\<close>, reverting and undoing; the locale \<open>undo_log\<close> gives the round trip of reverting in descending and undoing in ascending order.
  \<open>Reexecution\<close>: \<open>re_execute\<close>, its termination and what its result does not tell.
  \<open>Options\<close>: the command line (\<open>reactor/lib/reactor-opts.cpp\<close>).
  \<open>BinaryReversion\<close>: the search \<open>binary_reversion\<close> of \<open>reactor/lib/core.cpp\<close>, refined to a specification on persistent memory alone (\<open>abs_revert\<close>) and bounded by
  four re-executions.
  \<open>LogCreation\<close>: steps 4a to 4c of \<open>Reactor::react\<close>.
  \<open>Reactor\<close>: \<open>Reactor::react\<close> and its loops over slices, items and sequence numbers.
  \<open>ReactionLogs\<close>: the composition of these steps. A reaction refines \<open>restore_versions\<close>, which is stated on the checkpoint log and the memory at the start.
  \<open>TraceMonitor\<close> and \<open>Coordination\<close>: the thread that follows the trace file, and the callers that wait for it, as a transition system with an invariant, a safety and a
  liveness property.
  \<open>FaultLocation\<close>, \<open>SliceFault\<close>: from a location to an instruction, and from there to classified slices.
  \<open>Preparation\<close>: \<open>Reactor::prepare\<close>. \<open>Service\<close>: a whole request, the handler of the server, the client and the standalone program (\<open>reactor/tools\<close>), with the end-to-end
  properties.

  \<^bold>\<open>The analyzer.\<close>
  \<open>StringUtils\<close>, \<open>Paths\<close>: \<open>analyzer/lib/Utils\<close>; \<open>canonpath\<close> refines a walk over path components.
  \<open>AddrTrace\<close>: the GUID map and the address trace (\<open>analyzer/lib/Instrument/PmemVarGuidMap.cpp\<close>, \<open>PmemAddrTrace.cpp\<close>), with the round trips of
  both formats, the assignment of addresses to pools, and the cache of resolved instructions.
  \<open>Matching\<close>: \<open>analyzer/lib/Matcher/Matcher.cpp\<close> and the scopes of \<open>analyzer/include/Matcher/Scope.h\<close>.
  \<open>Slices\<close>, \<open>SliceGraphs\<close>, \<open>SliceCompute\<close>: slices, the slice graph with its heap of nodes, and the distribution of its nodes to slices (\<open>analyzer/lib/Slicing/Slice.cpp\<close>,
  \<open>SliceGraph.cpp\<close>).
  \<open>DgWalk\<close>, \<open>Marking\<close>, \<open>Slicer\<close>: the walks over the dependence graph and the slicer (\<open>analyzer/lib/Slicing/DgWalk.cpp\<close>, \<open>Slicer.cpp\<close>, and the \<open>NodesWalk\<close> of dg that they extend);
  they are shown to reach exactly the nodes that the selected relations reach.
  \<open>UserGraph\<close>, \<open>Extractor\<close>: the users of a value, and the locator of persistent variables (\<open>analyzer/include/DefUse/DefUse.h\<close>, \<open>analyzer/lib/PMem/Extractor.cpp\<close>).
  \<open>Instrumenter\<close>, \<open>SlicePass\<close>: inserting the calls and writing the map (\<open>analyzer/lib/Instrument/PmemAddrInstrumenter.cpp\<close>), and the pass that slices and instruments
  (\<open>analyzer/lib/Slicing/SlicingPass.cpp\<close>).
  \<open>AnalyzerTools\<close>: the programs below \<open>analyzer/tools\<close> and the pass \<open>PMemVariablePass\<close>. The slicer agrees with the slicing pass and the analyzer with the reactor's
  preparation; what the instrumentor instruments is characterized, with dg's pointer analysis as a parameter of which it is assumed that an object points at most to itself.
  \<open>Tracker\<close>: the runtime of an instrumented program (\<open>analyzer/runtime/addr_tracker.c\<close>) with the buffer of its stream, whose file holds a prefix of the reports at all times.
  \<open>Tracing\<close>: the instrumenter, the runtime and the reader of the trace together.
  \<open>Detector\<close>: \<open>detector/Detector.cpp\<close>.

  \<^bold>\<open>Interfaces.\<close> Besides the locales of the logs, \<open>value_collection\<close> and \<open>ordered_collection\<close> in \<open>Extractor\<close> state what the loops over values rely on; they are interpreted on LLVM's
  \<open>SetVector\<close> and on the sets of pointers, which the standard library keeps in the order of the addresses. The numbers of values stand for their addresses there.

  \<^bold>\<open>Loops.\<close> Loops over lists are structural recursion. The splitting loops of \<open>Paths\<close>, \<open>StringUtils\<close> and \<open>TraceMonitor\<close> and the search \<open>binary_reversion\<close> are functions with a
  measure. Loops whose end depends on the data are \<open>partial_function (option)\<close>, for which returning is proved: \<open>re_execute\<close> (the sequence number decreases), \<open>reloc_chain\<close> (the
  chains of a file end), \<open>build_loop\<close>, \<open>walk_loop\<close> and \<open>compute_loop\<close> (every node is entered once), \<open>dfs_loop\<close> and \<open>bfs_loop\<close> (every user is listed once). The only fuel is
  that of \<open>untiln_loop\<close>, the length of the string plus 2, since every round but the last two consumes a character. A round of the endless loops of the trace monitor and of the runtime's
  background thread is a step of a transition system.

  \<^bold>\<open>Bounds.\<close> The size of the logs is an argument where the code has the constant \<open>LOG_SIZE\<close>, so that witnesses can evaluate it; the theorems need only that it is below \<open>2 ^ 31\<close> and large enough for the
  versions logged.

  \<^bold>\<open>Not modelled.\<close> The dependence analysis below \<open>analyzer/future\<close> is a copy of LLVM's own, taken from a newer version, and is only linked. The library dg builds the
  dependence graphs and is a parameter apart from its walk. The analyzer's tools are modelled from the parsed
  module on; the casts that an inserted call needs are among the instructions of a function afterwards, but not among the users of a value. Setting up gRPC, messages, stream operators and time measurements have no effect on the state. The tests, the examples, the patches for PMDK and the scripts
  are not part of the program.
\<close>

end
